(* ===== verification/Prelude.thy ===== *)
theory Prelude
  imports Main "HOL-Library.Word"
begin

text \<open>
  Shared vocabulary of the Gate Link development: the machine integers of the
  Rust sources, the single-slot signals and the tick clock the firmware gets
  from Embassy, a small transition-system layer (reachable states and
  invariants) and the list and word lemmas that the component theories use.

  Two library facilities of the firmware are used by nearly every component.
  \<^item> \<open>embassy_time\<close>: instants and durations are tick counts; how ticks convert
    to milliseconds depends on the tick rate the build selects, so the
    conversions are a parameter of type \<open>time_ops\<close>, and what the code relies on
    is the locale \<open>time_units\<close>.
  \<^item> \<open>embassy_sync::signal::Signal\<close>: one slot, a newer value replaces an
    unread one, a wait takes the value out. The slot is an \<open>option\<close>; its
    contract is the locale \<open>signal_slot\<close>.
\<close>

section \<open>Fact collections and basic types\<close>

named_theorems word_nat \<open>reading machine words as natural numbers\<close>
named_theorems slot_simps \<open>the single-slot signals\<close>

type_synonym u8 = "8 word"
type_synonym u16 = "16 word"
type_synonym bytes = "8 word list"

text \<open>Instants and durations are tick counts of the Embassy time driver.\<close>

type_synonym ticks = nat

section \<open>Machine arithmetic\<close>

text \<open>Rust's \<open>u8::saturating_add\<close> and \<open>u8::saturating_sub\<close>.\<close>

definition saturating_add :: "u8 \<Rightarrow> u8 \<Rightarrow> u8" where
  "saturating_add x y = (if 255 < unat x + unat y then 255 else x + y)"

definition saturating_sub :: "u8 \<Rightarrow> u8 \<Rightarrow> u8" where
  "saturating_sub x y = (if unat x < unat y then 0 else x - y)"

text \<open>\<open>u64\<close> multiplication of the release build, which wraps.\<close>

definition mul_u64 :: "nat \<Rightarrow> nat \<Rightarrow> nat" where
  "mul_u64 x y = (x * y) mod 2 ^ 64"

section \<open>The tick clock\<close>

record time_ops =
  as_millis :: "ticks \<Rightarrow> nat"
  from_millis :: "nat \<Rightarrow> ticks"
  from_secs :: "nat \<Rightarrow> ticks"

text \<open>A driver with a 1 MHz tick, the rate the firmware and the host tests run at.\<close>

definition mhz_clock :: time_ops where
  "mhz_clock = \<lparr>as_millis = (\<lambda>t. t div 1000), from_millis = (\<lambda>n. 1000 * n),
     from_secs = (\<lambda>n. 1000000 * n)\<rparr>"

lemma mhz_simps:
  "as_millis mhz_clock t = t div 1000" "from_millis mhz_clock n = 1000 * n" "from_secs mhz_clock n = 1000000 * n"
  by (simp_all add: mhz_clock_def)

text \<open>For evaluating a definition: neither the body of a \<open>let\<close> nor a branch is touched before its input is known.\<close>

lemmas eval_cong = let_weak_cong prod.case_cong_weak

section \<open>Single-slot signals\<close>

type_synonym 'a signal = "'a option"

definition signal_new :: "'a signal" where
  "signal_new = None"

definition signal_set :: "'a \<Rightarrow> 'a signal \<Rightarrow> 'a signal" where
  "signal_set v s = Some v"

definition signal_take :: "'a signal \<Rightarrow> ('a \<times> 'a signal) option" where
  "signal_take s = (case s of None \<Rightarrow> None | Some v \<Rightarrow> Some (v, None))"

section \<open>Reachable states\<close>

inductive reach :: "('s \<Rightarrow> bool) \<Rightarrow> ('s \<Rightarrow> 's \<Rightarrow> bool) \<Rightarrow> 's \<Rightarrow> bool"
  for init :: "'s \<Rightarrow> bool" and step :: "'s \<Rightarrow> 's \<Rightarrow> bool" where
  reach_init: "init s \<Longrightarrow> reach init step s"
| reach_step: "reach init step s \<Longrightarrow> step s t \<Longrightarrow> reach init step t"

text \<open>
  The interface between a component's step relation and its safety proofs: a
  predicate that holds initially and that every step keeps.
\<close>

locale inductive_invariant =
  fixes init :: "'s \<Rightarrow> bool"
    and step :: "'s \<Rightarrow> 's \<Rightarrow> bool"
    and inv :: "'s \<Rightarrow> bool"
  assumes inv_init: "init s \<Longrightarrow> inv s"
    and inv_step: "inv s \<Longrightarrow> step s t \<Longrightarrow> inv t"
begin

lemma reach_inv: "reach init step s \<Longrightarrow> inv s"
  by (induction rule: reach.induct) (auto intro: inv_init inv_step)

lemma steps_inv: "step\<^sup>*\<^sup>* s t \<Longrightarrow> inv s \<Longrightarrow> inv t"
  by (induction rule: rtranclp_induct) (auto intro: inv_step)

end

lemma reach_steps: "reach init step s \<Longrightarrow> step\<^sup>*\<^sup>* s t \<Longrightarrow> reach init step t"
  by (rotate_tac, induction rule: rtranclp_induct) (auto intro: reach_step)

section \<open>Contracts of the clock and the signals\<close>

text \<open>
  What the code relies on of the time driver: conversion to milliseconds rounds
  down, so it is monotone and never gains by splitting a duration, and a
  duration built from whole milliseconds reads back as that number.
\<close>

locale time_units =
  fixes tu :: time_ops
  assumes as_millis_mono: "s \<le> t \<Longrightarrow> as_millis tu s \<le> as_millis tu t"
    and as_millis_add: "as_millis tu s + as_millis tu t \<le> as_millis tu (s + t)"
    and as_millis_from_millis: "as_millis tu (from_millis tu n) = n"
    and from_secs_millis: "from_secs tu n = from_millis tu (1000 * n)"
begin

lemma as_millis_from_secs: "as_millis tu (from_secs tu n) = 1000 * n"
  by (simp add: from_secs_millis as_millis_from_millis)

lemma from_millis_pos: "0 < n \<Longrightarrow> 0 < from_millis tu n"
proof (rule ccontr)
  assume "0 < n" "\<not> 0 < from_millis tu n"
  then have "as_millis tu 0 = n" using as_millis_from_millis [of n] by simp
  moreover have "as_millis tu 0 + as_millis tu 0 \<le> as_millis tu 0" using as_millis_add [of 0 0] by simp
  ultimately show False using \<open>0 < n\<close> by simp
qed

lemma as_millis_run: "n + as_millis tu d \<le> as_millis tu (from_millis tu n + d)"
  using as_millis_add [of "from_millis tu n" d] by (simp add: as_millis_from_millis)

lemma as_millis_elapsed:
  assumes "from_millis tu n + d \<le> e"
  shows "n + as_millis tu d \<le> as_millis tu e"
  using as_millis_run [of n d] as_millis_mono [OF assms] by linarith

end

lemma div_add_le: "(s::nat) div k + t div k \<le> (s + t) div k"
proof (cases "k = 0")
  case False
  have "k * (s div k) + k * (t div k) \<le> s + t"
    by (intro add_mono times_div_less_eq_dividend)
  then have "k * (s div k + t div k) \<le> s + t"
    by (simp add: algebra_simps)
  with False show ?thesis by (simp add: less_eq_div_iff_mult_less_eq mult.commute)
qed simp

interpretation mhz: time_units mhz_clock
  by unfold_locales (simp_all add: mhz_clock_def div_le_mono div_add_le)

locale signal_slot =
  fixes new :: "'s"
    and set :: "'a \<Rightarrow> 's \<Rightarrow> 's"
    and take :: "'s \<Rightarrow> ('a \<times> 's) option"
  assumes take_new: "take new = None"
    and take_set: "take (set v s) = Some (v, new)"
begin

text \<open>The latest value wins: what was in the slot before is irrelevant.\<close>

lemma latest_wins: "take (set w (set v s)) = Some (w, new)"
  by (rule take_set)

lemma take_once: "take (set v s) = Some (v', s') \<Longrightarrow> take s' = None"
  using take_new by (auto simp: take_set)

end

interpretation opt_slot: signal_slot signal_new signal_set signal_take
  by unfold_locales (simp_all add: signal_new_def signal_set_def signal_take_def)

lemma signal_set_Some [slot_simps, simp]: "signal_set v s = Some v"
  by (simp add: signal_set_def)

lemma signal_take_None [slot_simps, simp]: "signal_take s = None \<longleftrightarrow> s = None"
  by (simp add: signal_take_def split: option.splits)

lemma signal_take_Some [slot_simps, simp]:
  "signal_take s = Some (v, s') \<longleftrightarrow> s = Some v \<and> s' = None"
  by (auto simp: signal_take_def split: option.splits)

section \<open>Words as natural numbers\<close>

lemma unat_u8_less [word_nat]: "unat (x :: u8) < 256"
proof -
  have "unat x < 2 ^ LENGTH(8)" by (rule unsigned_less)
  then show ?thesis by simp
qed

lemma unat_u8_le [word_nat]: "unat (x :: u8) \<le> 255"
  using unat_u8_less [of x] by linarith

lemma unat_saturating_add [word_nat]: "unat (saturating_add x y) = min 255 (unat x + unat y)"
  by (simp add: saturating_add_def unat_word_ariths)

lemma unat_saturating_sub [word_nat]: "unat (saturating_sub x y) = unat x - unat y"
  by (simp add: saturating_sub_def unat_sub word_le_nat_alt)

lemma unat_of_nat_u8 [word_nat]: "n \<le> 255 \<Longrightarrow> unat (of_nat n :: u8) = n"
  by (simp add: unat_of_nat)

lemma unat_255_minus [word_nat]: "unat (255 - x :: u8) = 255 - unat x"
  using unat_u8_le [of x] by (simp add: unat_sub word_le_nat_alt)

lemma u8_eq_iff_unat: "(x :: u8) = y \<longleftrightarrow> unat x = unat y"
  by (rule word_unat_eq_iff)

lemma mul_u64_exact [word_nat]: "x * y < 2 ^ 64 \<Longrightarrow> mul_u64 x y = x * y"
  by (simp add: mul_u64_def)

end
