(* ===== verification/Motor.thy ===== *)
theory Motor
  imports Prelude
begin

text \<open>
  One gate leaf (\<open>gate-core/src/motor.rs\<close>): two relay pins, a time-based
  position estimate and the reverse pause. The relay pins are those of the
  host harness \<open>gate-core/src/sim.rs\<close>: every level change is appended to a
  shared log with its timestamp, so that statements about \<open>which relay was
  energized when\<close> are statements about the log. The clock only advances
  between polls, as the harness's mock driver does; \<open>Instant\<close> arithmetic is
  exact on \<open>nat\<close> (the Rust operators panic at the end of the \<open>u64\<close> tick range).

  The lemmas show that the two relays of a leaf are never energized together,
  not even between two pin writes, that stopping releases both, and that a leaf
  which is run for its computed run time ends exactly at the end position.
\<close>

section \<open>Relay pins and their log\<close>

type_synonym pin_name = string

record switch =
  at_ms :: nat
  pin :: pin_name
  is_on :: bool

text \<open>The simulated hardware: the clock and the pin log with its current levels.\<close>

record hw =
  now :: ticks
  levels :: "pin_name \<Rightarrow> bool"
  switches :: "switch list"

definition hw_reset :: hw where
  "hw_reset = \<lparr>now = 0, levels = (\<lambda>_. False), switches = []\<rparr>"

definition clock_advance :: "ticks \<Rightarrow> hw \<Rightarrow> hw" where
  "clock_advance d h = h\<lparr>now := now h + d\<rparr>"

definition pin_set :: "time_ops \<Rightarrow> pin_name \<Rightarrow> bool \<Rightarrow> hw \<Rightarrow> hw" where
  "pin_set tu p v h =
     (let previous = levels h p; h' = h\<lparr>levels := (levels h)(p := v)\<rparr> in
      if previous \<noteq> v
      then h'\<lparr>switches := switches h @ [\<lparr>at_ms = as_millis tu (now h), pin = p, is_on = v\<rparr>]\<rparr>
      else h')"

abbreviation set_low :: "time_ops \<Rightarrow> pin_name \<Rightarrow> hw \<Rightarrow> hw" where
  "set_low tu p \<equiv> pin_set tu p False"

abbreviation set_high :: "time_ops \<Rightarrow> pin_name \<Rightarrow> hw \<Rightarrow> hw" where
  "set_high tu p \<equiv> pin_set tu p True"

section \<open>Motors\<close>

datatype direction = Opening | Closing

record leaf_timing =
  open_initial_delay :: ticks
  open_duration :: ticks
  close_initial_delay :: ticks
  close_duration :: ticks

datatype mstate = Idle | Running direction ticks

record motor =
  open_pin :: pin_name
  close_pin :: pin_name
  position :: u8
  timing :: leaf_timing
  end_stop_overrun :: ticks
  reverse_pause :: ticks
  state :: mstate
  stopped_at :: "ticks option"

definition motor_new ::
  "time_ops \<Rightarrow> hw \<Rightarrow> pin_name \<Rightarrow> pin_name \<Rightarrow> leaf_timing \<Rightarrow> ticks \<Rightarrow> ticks \<Rightarrow> u8 \<Rightarrow> hw \<times> motor" where
  "motor_new tu h op cp tm overrun pause initial_position =
     (let h = set_low tu op h; h = set_low tu cp h in
      (h, \<lparr>open_pin = op, close_pin = cp, position = initial_position, timing = tm,
           end_stop_overrun = overrun, reverse_pause = pause, state = Idle, stopped_at = None\<rparr>))"

definition full_duration :: "motor \<Rightarrow> direction \<Rightarrow> ticks" where
  "full_duration m d = (case d of Opening \<Rightarrow> open_duration (timing m)
     | Closing \<Rightarrow> close_duration (timing m))"

definition initial_delay :: "motor \<Rightarrow> direction \<Rightarrow> ticks" where
  "initial_delay m d = (case d of Opening \<Rightarrow> open_initial_delay (timing m)
     | Closing \<Rightarrow> close_initial_delay (timing m))"

definition ready_at :: "motor \<Rightarrow> ticks" where
  "ready_at m = (case stopped_at m of Some t \<Rightarrow> t + reverse_pause m | None \<Rightarrow> 0)"

definition remaining :: "motor \<Rightarrow> direction \<Rightarrow> u8" where
  "remaining m d = (case d of Opening \<Rightarrow> 255 - position m | Closing \<Rightarrow> position m)"

definition run_time :: "time_ops \<Rightarrow> motor \<Rightarrow> direction \<Rightarrow> ticks option" where
  "run_time tu m d =
     (let r = remaining m d in
      if r = 0 then None
      else let full = as_millis tu (full_duration m d) in
        Some (from_millis tu (mul_u64 full (unat r) div 255) + end_stop_overrun m))"

definition travelled :: "time_ops \<Rightarrow> motor \<Rightarrow> direction \<Rightarrow> ticks \<Rightarrow> u8" where
  "travelled tu m d elapsed =
     (let full = max (as_millis tu (full_duration m d)) 1 in
      of_nat (min (mul_u64 (as_millis tu elapsed) 255 div full) 255))"

definition motor_settle :: "time_ops \<Rightarrow> hw \<Rightarrow> motor \<Rightarrow> hw \<times> motor" where
  "motor_settle tu h m =
     (case state m of
        Idle \<Rightarrow> (h, m)
      | Running d start \<Rightarrow>
          let h = set_low tu (open_pin m) h;
              h = set_low tu (close_pin m) h;
              t = travelled tu m d (now h - start)
          in (h, m\<lparr>state := Idle, stopped_at := Some (now h),
                position := (case d of Opening \<Rightarrow> saturating_add (position m) t
                                     | Closing \<Rightarrow> saturating_sub (position m) t)\<rparr>))"

definition motor_start :: "time_ops \<Rightarrow> direction \<Rightarrow> hw \<Rightarrow> motor \<Rightarrow> hw \<times> motor" where
  "motor_start tu d h m =
     (case motor_settle tu h m of
        (h, m) \<Rightarrow>
          let h = (case d of
                Opening \<Rightarrow> set_high tu (open_pin m) (set_low tu (close_pin m) h)
              | Closing \<Rightarrow> set_high tu (close_pin m) (set_low tu (open_pin m) h))
          in (h, m\<lparr>state := Running d (now h)\<rparr>))"

definition motor_stop :: "time_ops \<Rightarrow> hw \<Rightarrow> motor \<Rightarrow> hw \<times> motor" where
  "motor_stop tu h m = motor_settle tu h m"

section \<open>Reading the pin log\<close>

text \<open>The level a pin has after a sequence of switches, all pins being low at first.\<close>

definition level_in :: "switch list \<Rightarrow> pin_name \<Rightarrow> bool" where
  "level_in log p = (let xs = filter (\<lambda>s. pin s = p) log in xs \<noteq> [] \<and> is_on (last xs))"

text \<open>The two pins are never high together, at any point of the log.\<close>

definition never_both :: "pin_name \<Rightarrow> pin_name \<Rightarrow> switch list \<Rightarrow> bool" where
  "never_both p q log \<longleftrightarrow>
     (\<forall>n \<le> length log. \<not> (level_in (take n log) p \<and> level_in (take n log) q))"

definition hw_ok :: "hw \<Rightarrow> bool" where
  "hw_ok h \<longleftrightarrow> (\<forall>p. levels h p = level_in (switches h) p)"

text \<open>
  The motor's view of its relays and of the clock agrees with the hardware, and
  its two relays have been exclusive for the whole log.
\<close>

definition motor_ok :: "hw \<Rightarrow> motor \<Rightarrow> bool" where
  "motor_ok h m \<longleftrightarrow>
     open_pin m \<noteq> close_pin m \<and>
     levels h (open_pin m) = (\<exists>t. state m = Running Opening t) \<and>
     levels h (close_pin m) = (\<exists>t. state m = Running Closing t) \<and>
     (\<forall>d t. state m = Running d t \<longrightarrow> t \<le> now h) \<and>
     (\<forall>t. stopped_at m = Some t \<longrightarrow> t \<le> now h) \<and>
     never_both (open_pin m) (close_pin m) (switches h)"

section \<open>Lemmas on pins and the log\<close>

lemma level_in_Nil [simp]: "level_in [] p = False"
  by (simp add: level_in_def)

lemma level_in_snoc [simp]:
  "level_in (log @ [s]) p = (if pin s = p then is_on s else level_in log p)"
  by (simp add: level_in_def Let_def)

lemma never_both_Nil [simp]: "never_both p q []"
  by (simp add: never_both_def)

lemma never_both_snoc [simp]:
  "never_both p q (log @ [s]) \<longleftrightarrow>
     never_both p q log \<and> \<not> (level_in (log @ [s]) p \<and> level_in (log @ [s]) q)"
  by (auto simp: never_both_def le_Suc_eq simp del: level_in_snoc)

lemma pin_set_simps [simp]:
  "now (pin_set tu p v h) = now h"
  "levels (pin_set tu p v h) = (levels h)(p := v)"
  by (simp_all add: pin_set_def Let_def)

lemma pin_set_ok [simp]: "hw_ok h \<Longrightarrow> hw_ok (pin_set tu p v h)"
  by (auto simp: hw_ok_def pin_set_def Let_def)

lemma pin_set_never_both:
  assumes "hw_ok h" "never_both p q (switches h)" "\<not> ((levels h)(r := v)) p \<or> \<not> ((levels h)(r := v)) q"
  shows "never_both p q (switches (pin_set tu r v h))"
  using assms by (auto simp: pin_set_def Let_def hw_ok_def split: if_splits)

lemma hw_reset_ok: "hw_ok hw_reset"
  by (simp add: hw_ok_def hw_reset_def)

lemma clock_advance_simps [simp]:
  "now (clock_advance d h) = now h + d"
  "levels (clock_advance d h) = levels h"
  "switches (clock_advance d h) = switches h"
  by (simp_all add: clock_advance_def)

lemma clock_advance_ok [simp]: "hw_ok (clock_advance d h) = hw_ok h"
  by (simp add: hw_ok_def)

section \<open>Lemmas on single motor operations\<close>

definition pins :: "motor \<Rightarrow> pin_name set" where
  "pins m = {open_pin m, close_pin m}"

text \<open>What no operation of a motor changes: its wiring and its settings.\<close>

definition same_leaf :: "motor \<Rightarrow> motor \<Rightarrow> bool" where
  "same_leaf m m' \<longleftrightarrow> open_pin m' = open_pin m \<and> close_pin m' = close_pin m \<and> timing m' = timing m
     \<and> end_stop_overrun m' = end_stop_overrun m \<and> reverse_pause m' = reverse_pause m"

lemma same_leaf_refl [simp]: "same_leaf m m"
  by (simp add: same_leaf_def)

lemma same_leaf_trans: "same_leaf m m' \<Longrightarrow> same_leaf m' m'' \<Longrightarrow> same_leaf m m''"
  by (simp add: same_leaf_def)

lemma same_leaf_pins: "same_leaf m m' \<Longrightarrow> pins m' = pins m"
  by (simp add: same_leaf_def pins_def)

lemma same_leaf_timing:
  "same_leaf m m' \<Longrightarrow> full_duration m' d = full_duration m d"
  "same_leaf m m' \<Longrightarrow> initial_delay m' d = initial_delay m d"
  by (auto simp: same_leaf_def full_duration_def initial_delay_def split: direction.splits)

text \<open>A predicate on the hardware that other leaves rely on survives writes to foreign pins.\<close>

definition foreign_write :: "pin_name set \<Rightarrow> hw \<Rightarrow> hw \<Rightarrow> bool" where
  "foreign_write ps h h' \<longleftrightarrow> now h' = now h \<and> (\<forall>p. p \<notin> ps \<longrightarrow> levels h' p = levels h p) \<and>
     (hw_ok h \<longrightarrow> hw_ok h') \<and>
     (\<forall>p q. p \<notin> ps \<longrightarrow> q \<notin> ps \<longrightarrow> hw_ok h \<longrightarrow> \<not> (levels h p \<and> levels h q) \<longrightarrow>
        never_both p q (switches h) \<longrightarrow> never_both p q (switches h'))"

lemma foreign_write_refl [simp]: "foreign_write ps h h"
  by (simp add: foreign_write_def)

lemma foreign_write_trans [trans]:
  "foreign_write ps h h' \<Longrightarrow> foreign_write ps h' h'' \<Longrightarrow> foreign_write ps h h''"
  by (auto simp: foreign_write_def)

lemma pin_set_foreign: "p \<in> ps \<Longrightarrow> foreign_write ps h (pin_set tu p v h)"
  by (auto simp: foreign_write_def intro!: pin_set_never_both split: if_splits)

lemma foreign_write_motor_ok:
  assumes "foreign_write ps h h'" "hw_ok h" "motor_ok h m" "pins m \<inter> ps = {}"
  shows "motor_ok h' m"
  using assms unfolding foreign_write_def motor_ok_def pins_def by auto

lemma motor_settle_same: "motor_settle tu h m = (h', m') \<Longrightarrow> same_leaf m m'"
  by (auto simp: motor_settle_def same_leaf_def Let_def split: mstate.splits)

lemma motor_settle_state:
  "motor_settle tu h m = (h', m') \<Longrightarrow> state m' = Idle \<and> now h' = now h"
  by (auto simp: motor_settle_def Let_def split: mstate.splits)

lemma motor_settle_idle [simp]: "state m = Idle \<Longrightarrow> motor_settle tu h m = (h, m)"
  by (simp add: motor_settle_def)

lemma motor_settle_running:
  "state m = Running d t \<Longrightarrow> motor_settle tu h m = (h', m') \<Longrightarrow>
   stopped_at m' = Some (now h) \<and>
   position m' = (case d of Opening \<Rightarrow> saturating_add (position m) (travelled tu m d (now h - t))
                          | Closing \<Rightarrow> saturating_sub (position m) (travelled tu m d (now h - t)))"
  by (auto simp: motor_settle_def Let_def split: direction.splits)

lemma motor_settle_foreign: "motor_settle tu h m = (h', m') \<Longrightarrow> foreign_write (pins m) h h'"
  by (auto simp: motor_settle_def Let_def pins_def split: mstate.splits
      intro!: foreign_write_trans [OF pin_set_foreign pin_set_foreign])

lemma motor_settle_ok:
  assumes "motor_settle tu h m = (h', m')" "hw_ok h" "motor_ok h m"
  shows "motor_ok h' m'"
proof (cases "state m")
  case Idle
  with assms show ?thesis by simp
next
  case (Running d t)
  with assms show ?thesis
    by (auto simp: motor_settle_def motor_ok_def Let_def intro!: pin_set_never_both)
qed

lemma motor_start_same: "motor_start tu d h m = (h', m') \<Longrightarrow> same_leaf m m'"
  by (auto simp: motor_start_def Let_def same_leaf_def split: prod.splits dest: motor_settle_same)

lemma motor_start_state:
  "motor_start tu d h m = (h', m') \<Longrightarrow> state m' = Running d (now h) \<and> now h' = now h"
  by (auto simp: motor_start_def Let_def split: prod.splits direction.splits dest!: motor_settle_state)

lemma motor_start_idle:
  "state m = Idle \<Longrightarrow> motor_start tu d h m = (h', m') \<Longrightarrow>
   position m' = position m \<and> stopped_at m' = stopped_at m"
  by (auto simp: motor_start_def Let_def)

lemma motor_start_foreign:
  assumes "motor_start tu d h m = (h', m')"
  shows "foreign_write (pins m) h h'"
proof -
  obtain h1 m1 where s: "motor_settle tu h m = (h1, m1)" by fastforce
  have "pins m1 = pins m" by (rule same_leaf_pins [OF motor_settle_same [OF s]])
  then have "foreign_write (pins m) h1 h'"
    using assms s by (cases d) (auto simp: motor_start_def Let_def pins_def
      intro!: foreign_write_trans [OF pin_set_foreign pin_set_foreign])
  with motor_settle_foreign [OF s] show ?thesis by (rule foreign_write_trans)
qed

lemma motor_start_ok:
  assumes "motor_start tu d h m = (h', m')" "hw_ok h" "motor_ok h m"
  shows "motor_ok h' m'"
proof -
  obtain h1 m1 where s: "motor_settle tu h m = (h1, m1)" by fastforce
  have ok: "motor_ok h1 m1" by (rule motor_settle_ok [OF s assms(2,3)])
  have hw: "hw_ok h1" using motor_settle_foreign [OF s] assms(2) by (simp add: foreign_write_def)
  have idle: "state m1 = Idle" using motor_settle_state [OF s] by simp
  show ?thesis
    using assms(1) s ok hw idle
    by (cases d) (auto simp: motor_start_def motor_ok_def Let_def intro!: pin_set_never_both)
qed

lemmas motor_op_facts =
  motor_settle_same motor_settle_state motor_settle_foreign motor_settle_ok
  motor_start_same motor_start_state motor_start_foreign motor_start_ok

lemma foreign_write_hw_ok: "foreign_write ps h h' \<Longrightarrow> hw_ok h \<Longrightarrow> hw_ok h'"
  by (simp add: foreign_write_def)

lemma foreign_write_now: "foreign_write ps h h' \<Longrightarrow> now h' = now h"
  by (simp add: foreign_write_def)

section \<open>Run times and the end position\<close>

text \<open>The settings keep the \<open>u64\<close> products of the position estimate below \<open>2^64\<close>.\<close>

definition timing_fits :: "time_ops \<Rightarrow> motor \<Rightarrow> bool" where
  "timing_fits tu m \<longleftrightarrow> (\<forall>d. as_millis tu (full_duration m d) * 255 < 2 ^ 64)"

lemma run_time_None [simp]: "run_time tu m d = None \<longleftrightarrow> remaining m d = 0"
  by (simp add: run_time_def Let_def)

lemma unat_remaining:
  "unat (remaining m d) = (case d of Opening \<Rightarrow> 255 - unat (position m) | Closing \<Rightarrow> unat (position m))"
  by (simp add: remaining_def word_nat split: direction.splits)

lemma remaining_zero:
  "remaining m Opening = 0 \<longleftrightarrow> position m = 255"
  "remaining m Closing = 0 \<longleftrightarrow> position m = 0"
  by (auto simp: remaining_def)

lemma run_time_exact:
  assumes "timing_fits tu m" "run_time tu m d = Some rt"
  shows "rt = from_millis tu (as_millis tu (full_duration m d) * unat (remaining m d) div 255)
    + end_stop_overrun m"
proof -
  have "as_millis tu (full_duration m d) * unat (remaining m d)
      \<le> as_millis tu (full_duration m d) * 255"
    by (intro mult_left_mono) (simp_all add: word_nat)
  with assms have "as_millis tu (full_duration m d) * unat (remaining m d) < 2 ^ 64"
    unfolding timing_fits_def by (meson le_less_trans)
  with assms(2) show ?thesis by (auto simp: run_time_def Let_def word_nat split: if_splits)
qed

lemma run_time_cong:
  assumes "same_leaf m m'" "position m' = position m"
  shows "remaining m' d = remaining m d" "run_time tu m' d = run_time tu m d"
    "timing_fits tu m' = timing_fits tu m"
proof -
  have fd: "full_duration m' d' = full_duration m d'" for d'
    by (rule same_leaf_timing(1) [OF assms(1)])
  show rem: "remaining m' d = remaining m d"
    using assms by (cases d) (simp_all add: remaining_def)
  show "run_time tu m' d = run_time tu m d"
    using assms(1) unfolding run_time_def rem fd by (simp add: same_leaf_def Let_def)
  show "timing_fits tu m' = timing_fits tu m" by (simp add: timing_fits_def fd)
qed

lemma travelled_enough:
  assumes "r * max full 1 \<le> e * 255" "e * 255 < 2 ^ 64" "r \<le> 255"
    and "full = as_millis tu (full_duration m d)" "e = as_millis tu t"
  shows "r \<le> unat (travelled tu m d t)"
proof -
  have "r \<le> e * 255 div max full 1"
    using assms(1) by (simp add: less_eq_div_iff_mult_less_eq)
  with assms show ?thesis
    by (simp add: travelled_def Let_def mul_u64_exact unat_of_nat_u8)
qed

context time_units
begin

lemma run_time_travels:
  assumes "run_time tu m d = Some rt" "rt \<le> t" "timing_fits tu m"
    and "1 \<le> as_millis tu (end_stop_overrun m)" "as_millis tu t * 255 < 2 ^ 64"
  shows "unat (remaining m d) \<le> unat (travelled tu m d t)"
proof (rule travelled_enough [OF _ assms(5) _ refl refl])
  let ?full = "as_millis tu (full_duration m d)" and ?r = "unat (remaining m d)"
  have "?full * ?r div 255 + as_millis tu (end_stop_overrun m) \<le> as_millis tu t"
    using assms run_time_exact [OF assms(3,1)] by (intro as_millis_elapsed) simp
  then have e: "?full * ?r div 255 + 1 \<le> as_millis tu t" using assms(4) by linarith
  have "?full * ?r < 255 * (?full * ?r div 255 + 1)" by (simp add: dividend_less_times_div)
  also have "\<dots> \<le> 255 * as_millis tu t" using e by (rule mult_le_mono2)
  finally have "?full * ?r < 255 * as_millis tu t" .
  moreover have "?r \<le> 255" by (rule unat_u8_le)
  ultimately show "?r * max ?full 1 \<le> as_millis tu t * 255"
    using e by (cases "?full = 0") (auto simp: max_def mult.commute)
qed (rule unat_u8_le)

lemma settle_reaches_end:
  assumes "state m = Running d t0" "motor_settle tu h m = (h', m')"
    and "run_time tu m d = Some rt" "t0 + rt \<le> now h" "timing_fits tu m"
    and "1 \<le> as_millis tu (end_stop_overrun m)" "as_millis tu (now h - t0) * 255 < 2 ^ 64"
  shows "remaining m' d = 0"
proof -
  have "unat (remaining m d) \<le> unat (travelled tu m d (now h - t0))"
    using assms by (intro run_time_travels [OF assms(3)]) simp_all
  moreover have "unat (position m) \<le> 255" by (rule unat_u8_le)
  ultimately have "unat (remaining m' d) = 0"
    using motor_settle_running [OF assms(1,2)]
    by (cases d) (simp_all add: unat_remaining word_nat)
  then show ?thesis by (simp add: unat_eq_0)
qed

end

section \<open>The leaf as its client sees it\<close>

text \<open>
  What the gate controller relies on: starting a leaf energizes exactly the
  relay of that direction, stopping releases both, and letting time pass
  changes neither.
\<close>

datatype leaf_op = LeafStart direction | LeafStop | LeafAdvance ticks

primrec leaf_exec :: "time_ops \<Rightarrow> leaf_op \<Rightarrow> hw \<times> motor \<Rightarrow> hw \<times> motor" where
  "leaf_exec tu (LeafStart d) s = motor_start tu d (fst s) (snd s)"
| "leaf_exec tu LeafStop s = motor_stop tu (fst s) (snd s)"
| "leaf_exec tu (LeafAdvance t) s = (clock_advance t (fst s), snd s)"

definition energized :: "hw \<times> motor \<Rightarrow> direction option" where
  "energized s = (if levels (fst s) (open_pin (snd s)) then Some Opening
     else if levels (fst s) (close_pin (snd s)) then Some Closing else None)"

definition leaf_ok :: "hw \<times> motor \<Rightarrow> bool" where
  "leaf_ok s \<longleftrightarrow> hw_ok (fst s) \<and> motor_ok (fst s) (snd s)"

locale leaf_driver =
  fixes exec :: "leaf_op \<Rightarrow> 's \<Rightarrow> 's"
    and driven :: "'s \<Rightarrow> direction option"
    and good :: "'s \<Rightarrow> bool"
  assumes exec_good: "good s \<Longrightarrow> good (exec op s)"
    and driven_start: "good s \<Longrightarrow> driven (exec (LeafStart d) s) = Some d"
    and driven_stop: "good s \<Longrightarrow> driven (exec LeafStop s) = None"
    and driven_advance: "driven (exec (LeafAdvance t) s) = driven s"
begin

lemma fold_good: "good s \<Longrightarrow> good (fold exec ops s)"
  by (induction ops arbitrary: s) (simp_all add: exec_good)

lemma stop_last: "good s \<Longrightarrow> driven (fold exec (ops @ [LeafStop]) s) = None"
  by (simp add: fold_good driven_stop)

lemma start_last: "good s \<Longrightarrow> driven (fold exec (ops @ [LeafStart d, LeafAdvance t]) s) = Some d"
  by (simp add: fold_good driven_start driven_advance)

end

lemma clock_advance_motor_ok [simp]: "motor_ok h m \<Longrightarrow> motor_ok (clock_advance t h) m"
  by (auto simp: motor_ok_def trans_le_add1)

lemma energized_state:
  "leaf_ok s \<Longrightarrow> energized s = (case state (snd s) of Idle \<Rightarrow> None | Running d t \<Rightarrow> Some d)"
  by (auto simp: leaf_ok_def motor_ok_def energized_def split: mstate.splits)
    (metis direction.exhaust)+

lemma leaf_exec_ok:
  assumes "leaf_ok s"
  shows "leaf_ok (leaf_exec tu op s)"
proof -
  obtain h m where s: "s = (h, m)" by fastforce
  obtain h' m' where e: "leaf_exec tu op s = (h', m')" by fastforce
  have ok: "hw_ok h" "motor_ok h m" using assms s by (simp_all add: leaf_ok_def)
  have "hw_ok h' \<and> motor_ok h' m'"
  proof (cases op)
    case (LeafStart d)
    then have "motor_start tu d h m = (h', m')" using e s by simp
    then show ?thesis
      using ok by (blast intro: motor_start_ok foreign_write_hw_ok motor_start_foreign)
  next
    case LeafStop
    then have "motor_settle tu h m = (h', m')" using e s by (simp add: motor_stop_def)
    then show ?thesis
      using ok by (blast intro: motor_settle_ok foreign_write_hw_ok motor_settle_foreign)
  next
    case (LeafAdvance t)
    then show ?thesis using e s ok by auto
  qed
  then show ?thesis by (simp add: e leaf_ok_def)
qed

lemma leaf_exec_state:
  "state (snd (leaf_exec tu (LeafStart d) s)) = Running d (now (fst s))"
  "state (snd (leaf_exec tu LeafStop s)) = Idle"
  by (simp_all add: motor_stop_def)
    (metis motor_start_state motor_settle_state prod.collapse)+

lemma leaf_exec_same: "same_leaf (snd s) (snd (leaf_exec tu x s))"
  by (cases x) (simp_all add: motor_stop_def, metis motor_start_same prod.collapse,
      metis motor_settle_same prod.collapse)

lemma leaf_fold_same: "same_leaf (snd s) (snd (fold (leaf_exec tu) ops s))"
proof (induction ops arbitrary: s)
  case (Cons x ops)
  show ?case
    using same_leaf_trans [OF leaf_exec_same Cons.IH] by simp
qed simp

interpretation leaf: leaf_driver "leaf_exec tu" energized leaf_ok for tu
  by unfold_locales
    (simp_all add: leaf_exec_ok energized_state leaf_exec_state del: leaf_exec.simps(1,2),
      simp add: energized_def)

lemma motor_new_ok:
  assumes "hw_ok h" "op \<noteq> cp" "\<not> levels h op \<or> \<not> levels h cp" "never_both op cp (switches h)"
  shows "leaf_ok (motor_new tu h op cp tm ov pause pos)"
  using assms by (auto simp: leaf_ok_def motor_new_def motor_ok_def Let_def intro!: pin_set_never_both)

section \<open>Properties of one leaf\<close>

text \<open>
  The open and the close relay of a leaf are never energized together: from
  the initial state, over any sequence of starts, stops and delays, no point of
  the pin log has both pins high, the individual pin writes included.
\<close>

theorem relays_never_both:
  assumes "op \<noteq> cp"
  shows "never_both op cp
    (switches (fst (fold (leaf_exec tu) ops (motor_new tu hw_reset op cp tm ov pause pos))))"
proof -
  let ?s0 = "motor_new tu hw_reset op cp tm ov pause pos"
  have "leaf_ok ?s0"
    using assms by (intro motor_new_ok) (simp_all add: hw_reset_ok, simp_all add: hw_reset_def)
  then have "leaf_ok (fold (leaf_exec tu) ops ?s0)" by (rule leaf.fold_good)
  moreover have "same_leaf (snd ?s0) (snd (fold (leaf_exec tu) ops ?s0))"
    by (rule leaf_fold_same)
  ultimately show ?thesis
    by (auto simp: leaf_ok_def motor_ok_def same_leaf_def motor_new_def Let_def)
qed

theorem relays_never_both_witness:
  "never_both ''open'' ''close'' (switches (fst (fold (leaf_exec mhz_clock)
     [LeafStart Opening, LeafAdvance 5, LeafStart Closing, LeafStop]
     (motor_new mhz_clock hw_reset ''open'' ''close'' \<lparr>open_initial_delay = 0, open_duration = 10,
        close_initial_delay = 0, close_duration = 20\<rparr> 1 1 100))))"
  by (rule relays_never_both) simp

text \<open>
  A leaf that is started from standstill and stopped no earlier than its
  computed run time ends exactly at the end position of that direction,
  provided the end-stop overrun is at least one millisecond (which absorbs the
  rounding of the run time) and the durations stay within the \<open>u64\<close> range of
  the position arithmetic.
\<close>

theorem full_run_reaches_end:
  assumes "time_units tu" "state m = Idle" "run_time tu m d = Some rt" "rt \<le> t"
    and "timing_fits tu m" "1 \<le> as_millis tu (end_stop_overrun m)" "as_millis tu t * 255 < 2 ^ 64"
  shows "position (snd (fold (leaf_exec tu) [LeafStart d, LeafAdvance t, LeafStop] (h, m)))
    = (case d of Opening \<Rightarrow> 255 | Closing \<Rightarrow> 0)"
proof -
  obtain h1 m1 where st: "motor_start tu d h m = (h1, m1)" by fastforce
  note m1 = motor_start_state [OF st] motor_start_idle [OF assms(2) st] motor_start_same [OF st]
  obtain h2 m2 where sp: "motor_settle tu (clock_advance t h1) m1 = (h2, m2)" by fastforce
  note same = run_time_cong [OF m1(3)]
  have rt: "run_time tu m1 d = Some rt" and fits: "timing_fits tu m1"
    using same m1(2) assms(3,5) by simp_all
  have le: "now h + rt \<le> now (clock_advance t h1)" using m1(1) assms(4) by simp
  have fit: "as_millis tu (now (clock_advance t h1) - now h) * 255 < 2 ^ 64"
    using m1(1) assms(7) by simp
  have run: "state m1 = Running d (now h)" using m1(1) by simp
  have ov: "1 \<le> as_millis tu (end_stop_overrun m1)" using m1(3) assms(6) by (simp add: same_leaf_def)
  have "remaining m2 d = 0"
    by (rule time_units.settle_reaches_end [OF assms(1) run sp rt le fits ov fit])
  then show ?thesis
    using st sp by (cases d) (simp_all add: motor_stop_def remaining_zero)
qed

definition test_leaf :: motor where
  "test_leaf = \<lparr>open_pin = ''open'', close_pin = ''close'', position = 51,
     timing = \<lparr>open_initial_delay = 0, open_duration = from_secs mhz_clock 10,
       close_initial_delay = 0, close_duration = from_secs mhz_clock 20\<rparr>,
     end_stop_overrun = from_secs mhz_clock 1, reverse_pause = from_millis mhz_clock 500,
     state = Idle, stopped_at = None\<rparr>"

theorem full_run_reaches_end_witness:
  "run_time mhz_clock test_leaf Opening = Some 9000000 \<and>
   position (snd (fold (leaf_exec mhz_clock) [LeafStart Opening, LeafAdvance 9000000, LeafStop] (hw_reset, test_leaf))) = 255"
proof -
  have rt: "run_time mhz_clock test_leaf Opening = Some 9000000"
    by (simp add: run_time_def test_leaf_def mhz_clock_def remaining_def full_duration_def mul_u64_def)
  have "timing_fits mhz_clock test_leaf"
    by (auto simp: timing_fits_def test_leaf_def mhz_clock_def full_duration_def split: direction.splits)
  then show ?thesis
    using rt full_run_reaches_end [OF mhz.time_units_axioms _ rt order_refl, of hw_reset]
    by (simp add: test_leaf_def mhz_clock_def)
qed

text \<open>
  C36. The position estimate after a movement of \<open>t\<close> ticks: the travelled
  fraction of the direction's full duration in steps of 1/255, rounded down,
  added or subtracted and clamped to the range 0..255.
\<close>

theorem position_tracks_elapsed_time:
  assumes "state m = Idle" "as_millis tu t * 255 < 2 ^ 64"
  shows "unat (position (snd (fold (leaf_exec tu) [LeafStart d, LeafAdvance t, LeafStop] (h, m)))) =
    (let k = as_millis tu t * 255 div max (as_millis tu (full_duration m d)) 1 in
     case d of Opening \<Rightarrow> min 255 (unat (position m) + k) | Closing \<Rightarrow> unat (position m) - k)"
proof -
  obtain h1 m1 where st: "motor_start tu d h m = (h1, m1)" by fastforce
  note m1 = motor_start_state [OF st] motor_start_idle [OF assms(1) st]
    same_leaf_timing(1) [OF motor_start_same [OF st]]
  obtain h2 m2 where sp: "motor_settle tu (clock_advance t h1) m1 = (h2, m2)" by fastforce
  have "unat (travelled tu m1 d t)
      = min 255 (as_millis tu t * 255 div max (as_millis tu (full_duration m d)) 1)"
    using assms(2) m1 by (simp add: travelled_def Let_def mul_u64_exact unat_of_nat_u8)
  moreover have "unat (position m) \<le> 255" by (rule unat_u8_le)
  ultimately show ?thesis
    using motor_settle_running [of m1 d "now h", OF _ sp] m1 st sp
    by (cases d) (auto simp: motor_stop_def unat_saturating_add unat_saturating_sub Let_def min_def
        intro: order_trans)
qed

theorem position_tracks_elapsed_time_witness:
  "unat (position (snd (fold (leaf_exec mhz_clock) [LeafStart Closing, LeafAdvance 3000000, LeafStop]
     (hw_reset, test_leaf)))) = 51 - 38"
  using position_tracks_elapsed_time [of test_leaf mhz_clock 3000000 Closing hw_reset]
  by (simp add: test_leaf_def mhz_clock_def full_duration_def)

end
