(* ===== verification/Controls.thy ===== *)
theory Controls
  imports Motor
begin

text \<open>
  The state shared between the gate task and the rest of the firmware
  (\<open>Controls\<close> in \<open>gate-core/src/gate.rs\<close>): the command slot, the safety inputs
  and the published state, with every method that the other tasks call. The
  atomics of the source are plain fields and the signals are slots: the firmware
  runs all tasks on one executor, so a method runs without interruption.

  The lemmas state what the gate relies on: whenever an input forbids a
  movement, a wake-up is pending (locale \<open>wake_discipline\<close>), and while the
  wind lock is engaged the command slot never holds anything but an open.
\<close>

datatype gate_command = Open | Close | Stop | Impulse

datatype cover_state = CoverOpen | CoverOpening | CoverClosed | CoverClosing

record snapshot =
  leaf_a_position :: u8
  leaf_b_position :: u8
  snap_wind_locked :: bool

definition DIR_IDLE :: u8 where "DIR_IDLE = 0"
definition DIR_OPENING :: u8 where "DIR_OPENING = 1"
definition DIR_CLOSING :: u8 where "DIR_CLOSING = 2"

definition POS_CLOSED :: u8 where "POS_CLOSED = 0"
definition POS_PARTIAL :: u8 where "POS_PARTIAL = 1"
definition POS_OPEN :: u8 where "POS_OPEN = 2"

record controls =
  command :: "gate_command signal"
  barrier_changed :: "unit signal"
  wind_lock_reset :: "unit signal"
  current_direction :: u8
  last_direction :: u8
  position_class :: u8
  wind_locked :: bool
  barrier1_active :: bool
  barrier2_active :: bool
  barrier_bypass :: bool
  light_changed :: "unit signal"

definition Controls_new :: controls where
  "Controls_new = \<lparr>command = signal_new, barrier_changed = signal_new, wind_lock_reset = signal_new,
     current_direction = DIR_IDLE, last_direction = DIR_CLOSING, position_class = POS_CLOSED,
     wind_locked = False, barrier1_active = False, barrier2_active = False,
     barrier_bypass = False, light_changed = signal_new\<rparr>"

definition send :: "gate_command \<Rightarrow> controls \<Rightarrow> controls" where
  "send cmd c = c\<lparr>command := signal_set cmd (command c)\<rparr>"

definition controls_open :: "controls \<Rightarrow> controls" where
  "controls_open c = (if wind_locked c then c else send Open c)"

definition controls_close :: "controls \<Rightarrow> controls" where
  "controls_close c = (if wind_locked c then c else send Close c)"

definition controls_stop :: "controls \<Rightarrow> controls" where
  "controls_stop c = (if wind_locked c then c else send Stop c)"

definition impulse :: "controls \<Rightarrow> controls" where
  "impulse c = (if wind_locked c then c else send Impulse c)"

definition wind_trigger :: "controls \<Rightarrow> controls" where
  "wind_trigger c = send Open (c\<lparr>wind_locked := True\<rparr>)"

definition reset_wind_lock :: "controls \<Rightarrow> controls" where
  "reset_wind_lock c =
     (let c = c\<lparr>wind_locked := False\<rparr> in
      c\<lparr>wind_lock_reset := signal_set () (wind_lock_reset c)\<rparr>)"

definition barrier1_set :: "bool \<Rightarrow> controls \<Rightarrow> controls" where
  "barrier1_set active c =
     (let c = c\<lparr>barrier1_active := active\<rparr>;
          c = c\<lparr>barrier_changed := signal_set () (barrier_changed c)\<rparr>
      in if \<not> active \<and> wind_locked c then send Open c else c)"

definition barrier2_set :: "bool \<Rightarrow> controls \<Rightarrow> controls" where
  "barrier2_set active c =
     (let c = c\<lparr>barrier2_active := active\<rparr> in
      c\<lparr>barrier_changed := signal_set () (barrier_changed c)\<rparr>)"

definition set_barrier_bypass :: "bool \<Rightarrow> controls \<Rightarrow> controls" where
  "set_barrier_bypass active c =
     (let c = c\<lparr>barrier_bypass := active\<rparr>;
          c = c\<lparr>barrier_changed := signal_set () (barrier_changed c)\<rparr>
      in c\<lparr>light_changed := signal_set () (light_changed c)\<rparr>)"

definition warning_light_active :: "controls \<Rightarrow> bool" where
  "warning_light_active c \<longleftrightarrow> current_direction c \<noteq> DIR_IDLE \<or> barrier_bypass c"

definition cover_state :: "controls \<Rightarrow> cover_state" where
  "cover_state c =
     (if current_direction c = DIR_OPENING then CoverOpening
      else if current_direction c = DIR_CLOSING then CoverClosing
      else if position_class c = POS_CLOSED then CoverClosed
      else CoverOpen)"

definition blocked :: "controls \<Rightarrow> direction \<Rightarrow> string option" where
  "blocked c d =
     (let barriers_checked = \<not> barrier_bypass c in
      if barriers_checked \<and> barrier1_active c then Some ''light barrier 1 interrupted''
      else if barriers_checked \<and> d = Closing \<and> barrier2_active c
        then Some ''light barrier 2 interrupted''
      else if d = Closing \<and> wind_locked c then Some ''wind lock engaged''
      else None)"

definition resolve_impulse :: "controls \<Rightarrow> gate_command \<Rightarrow> gate_command" where
  "resolve_impulse c cmd =
     (if cmd \<noteq> Impulse then cmd
      else if position_class c = POS_CLOSED then Open
      else if position_class c = POS_OPEN then Close
      else if last_direction c = DIR_OPENING then Close else Open)"

definition direction_code :: "direction \<Rightarrow> u8" where
  "direction_code d = (case d of Opening \<Rightarrow> DIR_OPENING | Closing \<Rightarrow> DIR_CLOSING)"

definition set_direction :: "direction \<Rightarrow> controls \<Rightarrow> controls" where
  "set_direction d c =
     (let v = direction_code d;
          c = c\<lparr>current_direction := v\<rparr>;
          c = c\<lparr>last_direction := v\<rparr>
      in c\<lparr>light_changed := signal_set () (light_changed c)\<rparr>)"

definition command_for :: "direction \<Rightarrow> gate_command" where
  "command_for d = (case d of Opening \<Rightarrow> Open | Closing \<Rightarrow> Close)"

section \<open>The operations of the other tasks\<close>

datatype control_op = DoOpen | DoClose | DoStop | DoImpulse | DoWindTrigger | DoResetWindLock
  | DoBarrier1 bool | DoBarrier2 bool | DoBypass bool

primrec control_exec :: "control_op \<Rightarrow> controls \<Rightarrow> controls" where
  "control_exec DoOpen c = controls_open c"
| "control_exec DoClose c = controls_close c"
| "control_exec DoStop c = controls_stop c"
| "control_exec DoImpulse c = impulse c"
| "control_exec DoWindTrigger c = wind_trigger c"
| "control_exec DoResetWindLock c = reset_wind_lock c"
| "control_exec (DoBarrier1 v) c = barrier1_set v c"
| "control_exec (DoBarrier2 v) c = barrier2_set v c"
| "control_exec (DoBypass v) c = set_barrier_bypass v c"

lemmas control_defs = send_def controls_open_def controls_close_def controls_stop_def impulse_def
  wind_trigger_def reset_wind_lock_def barrier1_set_def barrier2_set_def set_barrier_bypass_def

lemmas dir_codes = DIR_IDLE_def DIR_OPENING_def DIR_CLOSING_def
lemmas pos_codes = POS_CLOSED_def POS_PARTIAL_def POS_OPEN_def

text \<open>The codes the \<open>AtomicU8\<close> fields may hold.\<close>

definition controls_ok :: "controls \<Rightarrow> bool" where
  "controls_ok c \<longleftrightarrow> current_direction c \<in> {DIR_IDLE, DIR_OPENING, DIR_CLOSING} \<and>
     last_direction c \<in> {DIR_OPENING, DIR_CLOSING} \<and>
     position_class c \<in> {POS_CLOSED, POS_PARTIAL, POS_OPEN}"

text \<open>While the wind lock is engaged, the command slot holds an open or nothing.\<close>

definition lock_respected :: "controls \<Rightarrow> bool" where
  "lock_respected c \<longleftrightarrow> (wind_locked c \<longrightarrow> command c = None \<or> command c = Some Open)"

definition woken :: "controls \<Rightarrow> bool" where
  "woken c \<longleftrightarrow> command c \<noteq> None \<or> barrier_changed c \<noteq> None"

section \<open>Lemmas\<close>

lemma direction_code_simps [simp]:
  "direction_code Opening = DIR_OPENING" "direction_code Closing = DIR_CLOSING"
  "direction_code d \<noteq> DIR_IDLE" "DIR_OPENING \<noteq> DIR_CLOSING" "DIR_CLOSING \<noteq> DIR_OPENING"
  "DIR_OPENING \<noteq> DIR_IDLE" "DIR_CLOSING \<noteq> DIR_IDLE"
  by (simp_all add: direction_code_def dir_codes split: direction.splits)

lemma command_for_simps [simp]:
  "command_for Opening = Open" "command_for Closing = Close"
  by (simp_all add: command_for_def)

lemma blocked_iff:
  "blocked c d \<noteq> None \<longleftrightarrow>
     (\<not> barrier_bypass c \<and> (barrier1_active c \<or> (d = Closing \<and> barrier2_active c)))
     \<or> (d = Closing \<and> wind_locked c)"
  by (auto simp: blocked_def Let_def)

lemma resolve_impulse_total: "resolve_impulse c cmd \<noteq> Impulse"
  by (auto simp: resolve_impulse_def)

lemma control_exec_unchanged [simp]:
  "current_direction (control_exec op c) = current_direction c"
  "last_direction (control_exec op c) = last_direction c"
  "position_class (control_exec op c) = position_class c"
  by (cases op; simp add: control_defs Let_def)+

lemma control_exec_ok [simp]: "controls_ok (control_exec op c) = controls_ok c"
  by (simp add: controls_ok_def)

lemma control_exec_lock_respected: "lock_respected c \<Longrightarrow> lock_respected (control_exec op c)"
  by (cases op) (auto simp: lock_respected_def control_defs Let_def)

lemma Controls_new_ok: "controls_ok Controls_new" "lock_respected Controls_new"
  by (simp_all add: controls_ok_def Controls_new_def lock_respected_def)

text \<open>
  The contract between the inputs and a running movement: an operation that
  makes a permitted movement forbidden also leaves a wake-up for it, and no
  operation withdraws one.
\<close>

locale wake_discipline =
  fixes exec :: "'op \<Rightarrow> 'c \<Rightarrow> 'c"
    and forbidden :: "'c \<Rightarrow> direction \<Rightarrow> bool"
    and awake :: "'c \<Rightarrow> bool"
  assumes forbids_awake: "\<not> forbidden c d \<Longrightarrow> forbidden (exec op c) d \<Longrightarrow> awake (exec op c)"
    and stays_awake: "awake c \<Longrightarrow> awake (exec op c)"
begin

lemma never_missed_step:
  "(forbidden c d \<longrightarrow> awake c) \<Longrightarrow> forbidden (exec op c) d \<longrightarrow> awake (exec op c)"
  using forbids_awake stays_awake by blast

lemma never_missed:
  "\<not> forbidden c d \<Longrightarrow> forbidden (fold exec ops c) d \<Longrightarrow> awake (fold exec ops c)"
proof -
  have "(forbidden c d \<longrightarrow> awake c) \<Longrightarrow> forbidden (fold exec ops c) d \<longrightarrow> awake (fold exec ops c)"
    by (induction ops arbitrary: c) (simp_all add: never_missed_step)
  then show "\<not> forbidden c d \<Longrightarrow> forbidden (fold exec ops c) d \<Longrightarrow> awake (fold exec ops c)"
    by blast
qed

end

interpretation inputs: wake_discipline control_exec "\<lambda>c d. blocked c d \<noteq> None" woken
proof (unfold_locales, goal_cases)
  case (1 c d op)
  then show ?case
    unfolding blocked_iff by (cases op) (auto simp: woken_def control_defs Let_def split: if_splits)
next
  case (2 c op)
  then show ?case by (cases op) (auto simp: woken_def control_defs Let_def)
qed

end
