(* ===== verification/Gate.thy ===== *)
theory Gate
  imports Controls
begin

text \<open>
  The gate controller (\<open>Gate\<close> in \<open>gate-core/src/gate.rs\<close>). The asynchronous
  \<open>step\<close> is a state machine whose states are its await points: \<open>Returned\<close>
  (the call of \<open>step\<close> is over, its snapshot is with the caller),
  \<open>AwaitCommand\<close> (the \<open>select\<close> of \<open>step\<close>) and \<open>Driving\<close> (the \<open>select4\<close> of
  \<open>drive\<close>, with the locals of that loop). \<open>gate_react\<close> is the code that runs
  from one await point to the next after a given wake-up; \<open>poll_gate\<close> polls the
  futures in the order of the source. The step relation \<open>gate_step\<close> lets any
  ready wake-up win, lets the other tasks call \<open>Controls\<close>, take the light's signal
  and write pins of their own at any time, and lets time pass, so its reachable
  states include every schedule of the executor.
\<close>

datatype phase = Waiting ticks | PhaseRunning ticks | Done

record drive_locals =
  direction_of :: direction
  a_phase :: phase
  b_phase :: phase
  moved :: bool

datatype gate_task = Returned snapshot | AwaitCommand | Driving drive_locals ticks

text \<open>
  \<open>notified\<close> records the calls of the \<open>notify\<close> callback with the shared state the
  callback could read; \<open>dev\<close> is the clock and the relay pins.
\<close>

record gate =
  controls :: controls
  leaf_a :: motor
  leaf_b :: motor
  pending :: "gate_command option"
  notified :: "controls list"
  dev :: hw
  task :: gate_task

definition notify :: "gate \<Rightarrow> gate" where
  "notify g = g\<lparr>notified := notified g @ [controls g]\<rparr>"

definition take_snapshot :: "gate \<Rightarrow> snapshot" where
  "take_snapshot g = \<lparr>leaf_a_position = position (leaf_a g), leaf_b_position = position (leaf_b g),
     snap_wind_locked = wind_locked (controls g)\<rparr>"

definition classify :: "snapshot \<Rightarrow> u8" where
  "classify s =
     (if leaf_a_position s = 0 \<and> leaf_b_position s = 0 then POS_CLOSED
      else if leaf_a_position s = 255 \<and> leaf_b_position s = 255 then POS_OPEN
      else POS_PARTIAL)"

definition gate_settle :: "gate \<Rightarrow> gate" where
  "gate_settle g =
     (let g = g\<lparr>controls := (controls g)\<lparr>current_direction := DIR_IDLE\<rparr>\<rparr>;
          snap = take_snapshot g;
          g = g\<lparr>controls := (controls g)\<lparr>position_class := classify snap\<rparr>\<rparr>;
          g = notify g
      in g\<lparr>task := Returned snap\<rparr>)"

definition Gate_new :: "controls \<Rightarrow> motor \<Rightarrow> motor \<Rightarrow> bool \<Rightarrow> hw \<Rightarrow> gate" where
  "Gate_new c ma mb initial_wind_locked h =
     gate_settle \<lparr>controls = c\<lparr>wind_locked := initial_wind_locked\<rparr>, leaf_a = ma, leaf_b = mb,
       pending = (if initial_wind_locked then Some Open else None), notified = [], dev = h,
       task = AwaitCommand\<rparr>"

definition plan :: "time_ops \<Rightarrow> motor \<Rightarrow> direction \<Rightarrow> ticks \<Rightarrow> phase" where
  "plan tu m d t =
     (if run_time tu m d = None then Done
      else Waiting (max (t + initial_delay m d) (ready_at m)))"

text \<open>The loop body of \<open>drive\<close> for one leaf: start when the wait is over, stop when the run is over.\<close>

definition leaf_start_pass ::
  "time_ops \<Rightarrow> direction \<Rightarrow> hw \<times> motor \<times> phase \<times> bool \<Rightarrow> hw \<times> motor \<times> phase \<times> bool" where
  "leaf_start_pass tu d x =
     (case x of (h, m, ph, mv) \<Rightarrow>
       (case ph of
          Waiting start_at \<Rightarrow>
            if start_at \<le> now h
            then (case run_time tu m d of
                    Some rt \<Rightarrow> (case motor_start tu d h m of
                        (h', m') \<Rightarrow> (h', m', PhaseRunning (now h + rt), True))
                  | None \<Rightarrow> (h, m, Done, mv))
            else x
        | _ \<Rightarrow> x))"

definition leaf_stop_pass ::
  "time_ops \<Rightarrow> hw \<times> motor \<times> phase \<times> bool \<Rightarrow> hw \<times> motor \<times> phase \<times> bool" where
  "leaf_stop_pass tu x =
     (case x of (h, m, ph, mv) \<Rightarrow>
       (case ph of
          PhaseRunning stop_at \<Rightarrow>
            if stop_at \<le> now h
            then (case motor_stop tu h m of (h', m') \<Rightarrow> (h', m', Done, mv))
            else x
        | _ \<Rightarrow> x))"

definition leaf_pass ::
  "time_ops \<Rightarrow> direction \<Rightarrow> hw \<times> motor \<times> phase \<times> bool \<Rightarrow> hw \<times> motor \<times> phase \<times> bool" where
  "leaf_pass tu d x = leaf_stop_pass tu (leaf_start_pass tu d x)"

definition deadline :: "phase \<Rightarrow> ticks option" where
  "deadline ph = (case ph of Waiting at \<Rightarrow> Some at | PhaseRunning at \<Rightarrow> Some at | Done \<Rightarrow> None)"

definition next_deadline :: "phase \<Rightarrow> phase \<Rightarrow> ticks option" where
  "next_deadline pa pb =
     (case deadline pa of
        None \<Rightarrow> deadline pb
      | Some x \<Rightarrow> (case deadline pb of None \<Rightarrow> Some x | Some y \<Rightarrow> Some (min x y)))"

definition stop_leaves :: "time_ops \<Rightarrow> gate \<Rightarrow> gate" where
  "stop_leaves tu g =
     (case motor_stop tu (dev g) (leaf_a g) of
        (h, ma) \<Rightarrow> (case motor_stop tu h (leaf_b g) of
          (h, mb) \<Rightarrow> g\<lparr>dev := h, leaf_a := ma, leaf_b := mb\<rparr>))"

text \<open>The end of \<open>step\<close>: remember an interrupting command and settle.\<close>

definition step_done :: "gate_command option \<Rightarrow> gate \<Rightarrow> gate" where
  "step_done result g = gate_settle (g\<lparr>pending := result\<rparr>)"

text \<open>After the loop of \<open>drive\<close>: stop both motors and use up the bypass if a motor ran.\<close>

definition drive_end :: "time_ops \<Rightarrow> drive_locals \<Rightarrow> gate_command option \<Rightarrow> gate \<Rightarrow> gate" where
  "drive_end tu l result g =
     (let g = stop_leaves tu g;
          g = (if moved l then g\<lparr>controls := (controls g)\<lparr>barrier_bypass := False\<rparr>\<rparr> else g)
      in step_done result g)"

text \<open>One pass of the loop of \<open>drive\<close>, up to the next await or the end of the movement.\<close>

definition drive_pass :: "time_ops \<Rightarrow> drive_locals \<Rightarrow> gate \<Rightarrow> gate" where
  "drive_pass tu l g =
     (case blocked (controls g) (direction_of l) of
        Some reason \<Rightarrow> drive_end tu l None g
      | None \<Rightarrow>
          (case leaf_pass tu (direction_of l) (dev g, leaf_a g, a_phase l, moved l) of
             (h, ma, pa, mv) \<Rightarrow>
               (case leaf_pass tu (direction_of l) (h, leaf_b g, b_phase l, mv) of
                  (h, mb, pb, mv) \<Rightarrow>
                    let g = g\<lparr>dev := h, leaf_a := ma, leaf_b := mb\<rparr>;
                        l = l\<lparr>a_phase := pa, b_phase := pb, moved := mv\<rparr>
                    in (case next_deadline pa pb of
                          None \<Rightarrow> drive_end tu l None g
                        | Some at \<Rightarrow> g\<lparr>task := Driving l at\<rparr>))))"

definition drive_begin :: "time_ops \<Rightarrow> direction \<Rightarrow> gate \<Rightarrow> gate" where
  "drive_begin tu d g =
     (case blocked (controls g) d of
        Some reason \<Rightarrow> step_done None g
      | None \<Rightarrow>
          let g = g\<lparr>controls := set_direction d (controls g)\<rparr>;
              g = notify g;
              t = now (dev g);
              l = \<lparr>direction_of = d, a_phase = plan tu (leaf_a g) d t,
                   b_phase = plan tu (leaf_b g) d t, moved = False\<rparr>
          in drive_pass tu l g)"

definition execute_command :: "time_ops \<Rightarrow> gate_command \<Rightarrow> gate \<Rightarrow> gate" where
  "execute_command tu cmd g =
     (case resolve_impulse (controls g) cmd of
        Open \<Rightarrow> drive_begin tu Opening g
      | Close \<Rightarrow> drive_begin tu Closing g
      | _ \<Rightarrow> step_done None (stop_leaves tu g))"

text \<open>The \<open>select4\<close> branch of \<open>drive\<close> that received a command.\<close>

definition drive_command :: "time_ops \<Rightarrow> drive_locals \<Rightarrow> gate_command \<Rightarrow> gate \<Rightarrow> gate" where
  "drive_command tu l cmd g =
     (if cmd = command_for (direction_of l) then drive_pass tu l g
      else if cmd = Stop \<or> cmd = Impulse then drive_end tu l None g
      else drive_end tu l (Some cmd) g)"

section \<open>Wake-ups\<close>

datatype wake = CallStep | TimerFired | CommandReady | BarrierReady | ResetReady

definition clear_command :: "gate \<Rightarrow> gate" where
  "clear_command g = g\<lparr>controls := (controls g)\<lparr>command := None\<rparr>\<rparr>"

definition clear_barrier :: "gate \<Rightarrow> gate" where
  "clear_barrier g = g\<lparr>controls := (controls g)\<lparr>barrier_changed := None\<rparr>\<rparr>"

definition clear_reset :: "gate \<Rightarrow> gate" where
  "clear_reset g = g\<lparr>controls := (controls g)\<lparr>wind_lock_reset := None\<rparr>\<rparr>"

text \<open>What the task does on a wake-up; \<open>None\<close> when that future is not ready or not awaited.\<close>

definition gate_react :: "time_ops \<Rightarrow> wake \<Rightarrow> gate \<Rightarrow> gate option" where
  "gate_react tu w g =
     (case task g of
        Returned snap \<Rightarrow>
          if w = CallStep
          then (case pending g of
                  Some cmd \<Rightarrow> Some (execute_command tu cmd (g\<lparr>pending := None\<rparr>))
                | None \<Rightarrow> Some (g\<lparr>task := AwaitCommand\<rparr>))
          else None
      | AwaitCommand \<Rightarrow>
          if w = CommandReady
          then (case signal_take (command (controls g)) of
                  Some (cmd, _) \<Rightarrow> Some (execute_command tu cmd (clear_command g))
                | None \<Rightarrow> None)
          else if w = ResetReady
          then (case signal_take (wind_lock_reset (controls g)) of
                  Some _ \<Rightarrow> Some (gate_settle (clear_reset g))
                | None \<Rightarrow> None)
          else None
      | Driving l at \<Rightarrow>
          (case w of
             TimerFired \<Rightarrow> if at \<le> now (dev g) then Some (drive_pass tu l g) else None
           | CommandReady \<Rightarrow> (case signal_take (command (controls g)) of
                 Some (cmd, _) \<Rightarrow> Some (drive_command tu l cmd (clear_command g))
               | None \<Rightarrow> None)
           | BarrierReady \<Rightarrow> (case signal_take (barrier_changed (controls g)) of
                 Some _ \<Rightarrow> Some (drive_pass tu l (clear_barrier g))
               | None \<Rightarrow> None)
           | ResetReady \<Rightarrow> (case signal_take (wind_lock_reset (controls g)) of
                 Some _ \<Rightarrow> Some (drive_pass tu l (notify (clear_reset g)))
               | None \<Rightarrow> None)
           | CallStep \<Rightarrow> None))"

text \<open>\<open>select\<close> and \<open>select4\<close> poll their futures in the order written.\<close>

definition poll_gate :: "time_ops \<Rightarrow> gate \<Rightarrow> gate option" where
  "poll_gate tu g =
     (let first = (\<lambda>x y. case x of None \<Rightarrow> y | Some g' \<Rightarrow> Some g') in
      first (gate_react tu TimerFired g)
        (first (gate_react tu CommandReady g)
          (first (gate_react tu BarrierReady g) (gate_react tu ResetReady g))))"

inductive gate_step :: "time_ops \<Rightarrow> gate \<Rightarrow> gate \<Rightarrow> bool" for tu :: time_ops where
  react: "gate_react tu w g = Some g' \<Longrightarrow> gate_step tu g g'"
| input: "gate_step tu g (g\<lparr>controls := control_exec op (controls g)\<rparr>)"
| elapse: "gate_step tu g (g\<lparr>dev := clock_advance t (dev g)\<rparr>)"
| light: "gate_step tu g (g\<lparr>controls := (controls g)\<lparr>light_changed := None\<rparr>\<rparr>)"
| other_pin: "p \<notin> pins (leaf_a g) \<union> pins (leaf_b g) \<Longrightarrow> gate_step tu g (g\<lparr>dev := pin_set tu p v (dev g)\<rparr>)"

inductive_cases gate_stepE: "gate_step tu g g'"

end
