(* ===== verification/GateSafety.thy ===== *)
theory GateSafety
  imports Gate
begin

text \<open>
  Safety of the gate controller over every schedule: the invariant of the
  controller state, its preservation by every step of \<open>gate_step\<close>, and the
  properties that follow for relays, light barriers, the wind lock, the reverse
  pause and the published state.
\<close>

section \<open>The invariant\<close>

definition leaf_phase_ok :: "time_ops \<Rightarrow> direction \<Rightarrow> motor \<Rightarrow> phase \<Rightarrow> bool" where
  "leaf_phase_ok tu d m ph =
     (case ph of
        Waiting t \<Rightarrow> state m = Idle \<and> ready_at m \<le> t
      | PhaseRunning t \<Rightarrow> (\<exists>t0 rt. state m = Running d t0 \<and> run_time tu m d = Some rt \<and> t = t0 + rt)
      | Done \<Rightarrow> state m = Idle)"

definition runs :: "phase \<Rightarrow> bool" where
  "runs ph = (case ph of PhaseRunning _ \<Rightarrow> True | _ \<Rightarrow> False)"

text \<open>The wiring: the motors agree with the pins, and the four pins are distinct.\<close>

definition wired :: "gate \<Rightarrow> bool" where
  "wired g \<longleftrightarrow> hw_ok (dev g) \<and> motor_ok (dev g) (leaf_a g) \<and> motor_ok (dev g) (leaf_b g)
     \<and> pins (leaf_a g) \<inter> pins (leaf_b g) = {}"

definition at_rest :: "gate \<Rightarrow> bool" where
  "at_rest g \<longleftrightarrow> state (leaf_a g) = Idle \<and> state (leaf_b g) = Idle
     \<and> current_direction (controls g) = DIR_IDLE
     \<and> position_class (controls g) = classify (take_snapshot g)"

definition locals_ok :: "time_ops \<Rightarrow> gate \<Rightarrow> drive_locals \<Rightarrow> bool" where
  "locals_ok tu g l \<longleftrightarrow>
     leaf_phase_ok tu (direction_of l) (leaf_a g) (a_phase l) \<and>
     leaf_phase_ok tu (direction_of l) (leaf_b g) (b_phase l) \<and>
     current_direction (controls g) = direction_code (direction_of l) \<and>
     last_direction (controls g) = direction_code (direction_of l) \<and>
     (runs (a_phase l) \<or> runs (b_phase l) \<longrightarrow> moved l)"

definition task_ok :: "time_ops \<Rightarrow> gate \<Rightarrow> bool" where
  "task_ok tu g =
     (case task g of
        Driving l at \<Rightarrow> locals_ok tu g l \<and> next_deadline (a_phase l) (b_phase l) = Some at \<and>
          (blocked (controls g) (direction_of l) \<noteq> None \<longrightarrow> woken (controls g))
      | _ \<Rightarrow> at_rest g)"

definition gate_ok :: "time_ops \<Rightarrow> gate \<Rightarrow> bool" where
  "gate_ok tu g \<longleftrightarrow> wired g \<and> controls_ok (controls g) \<and> lock_respected (controls g) \<and> task_ok tu g"

text \<open>Where the system starts: \<open>Gate::new\<close> on two idle leaves with four distinct pins.\<close>

definition boot :: "time_ops \<Rightarrow> gate \<Rightarrow> bool" where
  "boot tu g \<longleftrightarrow> (\<exists>oa ca ob cb tma tmb ova ovb pa pb posa posb c lk h1 ma h2 mb.
     distinct [oa, ca, ob, cb] \<and> controls_ok c \<and> command c = None \<and>
     motor_new tu hw_reset oa ca tma ova pa posa = (h1, ma) \<and>
     motor_new tu h1 ob cb tmb ovb pb posb = (h2, mb) \<and>
     g = Gate_new c ma mb lk h2)"

section \<open>One leaf in a pass of the loop\<close>

lemma leaf_start_pass_facts:
  assumes "leaf_start_pass tu d (h, m, ph, mv) = (h', m', ph', mv')"
    and "hw_ok h" "motor_ok h m" "leaf_phase_ok tu d m ph" "runs ph \<longrightarrow> mv"
  shows "hw_ok h' \<and> motor_ok h' m' \<and> leaf_phase_ok tu d m' ph' \<and> foreign_write (pins m) h h'
    \<and> same_leaf m m' \<and> position m' = position m \<and> (mv \<longrightarrow> mv') \<and> (runs ph' \<longrightarrow> mv')
    \<and> (\<forall>t. ph' = Waiting t \<longrightarrow> now h < t)"
proof (cases "\<exists>t rt. ph = Waiting t \<and> t \<le> now h \<and> run_time tu m d = Some rt")
  case False
  then have "h' = h \<and> m' = m \<and> mv' = mv \<and>
      (ph' = ph \<and> (\<forall>t. ph = Waiting t \<longrightarrow> now h < t) \<or> ph' = Done \<and> (\<exists>t. ph = Waiting t))"
    using assms(1) by (cases ph; cases "run_time tu m d")
      (auto simp: leaf_start_pass_def simp del: run_time_None split: if_splits)
  with assms show ?thesis by (auto simp: leaf_phase_ok_def runs_def)
next
  case True
  then obtain t rt where ph: "ph = Waiting t" "t \<le> now h" and rt: "run_time tu m d = Some rt"
    by blast
  then have st: "motor_start tu d h m = (h', m')" and eq: "ph' = PhaseRunning (now h + rt)" "mv'"
    using assms(1) by (auto simp: leaf_start_pass_def split: prod.splits)
  have idle: "state m = Idle" using assms(4) ph by (simp add: leaf_phase_ok_def)
  note f = motor_start_foreign [OF st] motor_start_same [OF st] motor_start_state [OF st]
    motor_start_idle [OF idle st]
  have "run_time tu m' d = Some rt" using run_time_cong(2) [OF f(2)] f(4) rt by simp
  then show ?thesis
    using f eq motor_start_ok [OF st assms(2,3)] foreign_write_hw_ok [OF f(1) assms(2)]
    by (auto simp: leaf_phase_ok_def)
qed

lemma leaf_stop_pass_facts:
  assumes "leaf_stop_pass tu (h, m, ph, mv) = (h', m', ph', mv')"
    and "hw_ok h" "motor_ok h m" "leaf_phase_ok tu d m ph" "runs ph \<longrightarrow> mv"
    and "\<forall>t. ph = Waiting t \<longrightarrow> now h < t"
  shows "hw_ok h' \<and> motor_ok h' m' \<and> leaf_phase_ok tu d m' ph' \<and> foreign_write (pins m) h h'
    \<and> same_leaf m m' \<and> mv' = mv \<and> (runs ph' \<longrightarrow> mv') \<and> (\<forall>t. deadline ph' = Some t \<longrightarrow> now h < t)"
proof (cases "\<exists>t. ph = PhaseRunning t \<and> t \<le> now h")
  case False
  with assms show ?thesis
    by (auto simp: leaf_stop_pass_def deadline_def runs_def split: phase.splits if_splits)
next
  case True
  then have st: "motor_settle tu h m = (h', m')" and eq: "ph' = Done" "mv' = mv"
    using assms(1) by (auto simp: leaf_stop_pass_def motor_stop_def split: prod.splits)
  note f = motor_settle_foreign [OF st] motor_settle_same [OF st] motor_settle_state [OF st]
  show ?thesis
    using f eq motor_settle_ok [OF st assms(2,3)] foreign_write_hw_ok [OF f(1) assms(2)]
    by (auto simp: leaf_phase_ok_def deadline_def runs_def)
qed

text \<open>What one pass of the loop does to a leaf, as the two preceding lemmas compose.\<close>

lemma leaf_pass_facts:
  assumes "leaf_pass tu d (h, m, ph, mv) = (h', m', ph', mv')"
    and "hw_ok h" "motor_ok h m" "leaf_phase_ok tu d m ph" "runs ph \<longrightarrow> mv"
  shows "hw_ok h'" "motor_ok h' m'" "leaf_phase_ok tu d m' ph'" "foreign_write (pins m) h h'"
    "same_leaf m m'" "mv \<longrightarrow> mv'" "runs ph' \<longrightarrow> mv'" "\<forall>t. deadline ph' = Some t \<longrightarrow> now h < t"
proof -
  obtain h1 m1 p1 v1 where s: "leaf_start_pass tu d (h, m, ph, mv) = (h1, m1, p1, v1)"
    by (metis prod_cases4)
  then have e: "leaf_stop_pass tu (h1, m1, p1, v1) = (h', m', ph', mv')"
    using assms(1) by (simp add: leaf_pass_def)
  note a = leaf_start_pass_facts [OF s assms(2-5)]
  then have "now h1 = now h" by (blast dest: foreign_write_now)
  with a have b: "hw_ok h' \<and> motor_ok h' m' \<and> leaf_phase_ok tu d m' ph' \<and> foreign_write (pins m1) h1 h'
    \<and> same_leaf m1 m' \<and> mv' = v1 \<and> (runs ph' \<longrightarrow> mv') \<and> (\<forall>t. deadline ph' = Some t \<longrightarrow> now h1 < t)"
    by (intro leaf_stop_pass_facts [OF e]) auto
  have "pins m1 = pins m" using a by (simp add: same_leaf_pins)
  with a b \<open>now h1 = now h\<close> show "hw_ok h'" "motor_ok h' m'" "leaf_phase_ok tu d m' ph'"
    "foreign_write (pins m) h h'" "same_leaf m m'" "mv \<longrightarrow> mv'" "runs ph' \<longrightarrow> mv'"
    "\<forall>t. deadline ph' = Some t \<longrightarrow> now h < t"
    by (auto intro: foreign_write_trans same_leaf_trans)
qed

section \<open>Settling\<close>

lemma gate_settle_simps [simp]:
  "leaf_a (gate_settle g) = leaf_a g" "leaf_b (gate_settle g) = leaf_b g"
  "dev (gate_settle g) = dev g" "pending (gate_settle g) = pending g"
  "controls (gate_settle g) = (controls g)\<lparr>current_direction := DIR_IDLE,
     position_class := classify (take_snapshot g)\<rparr>"
  "task (gate_settle g) = Returned (take_snapshot g)"
  "notified (gate_settle g) = notified g @ [controls (gate_settle g)]"
  by (simp_all add: gate_settle_def notify_def Let_def take_snapshot_def)

lemma take_snapshot_cong:
  "leaf_a g' = leaf_a g \<Longrightarrow> leaf_b g' = leaf_b g \<Longrightarrow>
   wind_locked (controls g') = wind_locked (controls g) \<Longrightarrow> take_snapshot g' = take_snapshot g"
  by (simp add: take_snapshot_def)

lemma take_snapshot_settle [simp]: "take_snapshot (gate_settle g) = take_snapshot g"
  by (rule take_snapshot_cong) simp_all

lemma classify_codes: "classify snap \<in> {POS_CLOSED, POS_PARTIAL, POS_OPEN}"
  by (simp add: classify_def)

lemma wired_cong:
  "wired g \<Longrightarrow> dev g' = dev g \<Longrightarrow> leaf_a g' = leaf_a g \<Longrightarrow> leaf_b g' = leaf_b g \<Longrightarrow> wired g'"
  by (simp add: wired_def)

lemma wired_simps [simp]:
  "wired (g\<lparr>controls := c\<rparr>) = wired g" "wired (g\<lparr>pending := p\<rparr>) = wired g"
  "wired (g\<lparr>task := k\<rparr>) = wired g" "wired (g\<lparr>notified := n\<rparr>) = wired g"
  "wired (gate_settle g) = wired g" "wired (notify g) = wired g"
  "wired (clear_command g) = wired g" "wired (clear_barrier g) = wired g" "wired (clear_reset g) = wired g"
  by (simp_all add: wired_def notify_def clear_command_def clear_barrier_def clear_reset_def)

lemma controls_ok_simps [simp]:
  "controls_ok (c\<lparr>command := x\<rparr>) = controls_ok c" "controls_ok (c\<lparr>barrier_changed := y\<rparr>) = controls_ok c"
  "controls_ok (c\<lparr>wind_lock_reset := z\<rparr>) = controls_ok c" "controls_ok (c\<lparr>barrier_bypass := v\<rparr>) = controls_ok c"
  "lock_respected (c\<lparr>command := None\<rparr>)" "lock_respected (c\<lparr>barrier_changed := y\<rparr>) = lock_respected c"
  "lock_respected (c\<lparr>wind_lock_reset := z\<rparr>) = lock_respected c"
  "lock_respected (c\<lparr>barrier_bypass := v\<rparr>) = lock_respected c"
  by (simp_all add: controls_ok_def lock_respected_def)

lemma gate_settle_ok:
  assumes "wired g" "controls_ok (controls g)" "lock_respected (controls g)"
    and "state (leaf_a g) = Idle" "state (leaf_b g) = Idle"
  shows "gate_ok tu (gate_settle g)"
  using assms classify_codes [of "take_snapshot g"]
  by (simp add: gate_ok_def task_ok_def at_rest_def controls_ok_def lock_respected_def)

lemma stop_leaves_simps [simp]:
  "controls (stop_leaves tu g) = controls g" "pending (stop_leaves tu g) = pending g"
  "notified (stop_leaves tu g) = notified g" "task (stop_leaves tu g) = task g"
  by (simp_all add: stop_leaves_def split: prod.splits)

lemma stop_leaves_wired:
  assumes "wired g"
  shows "wired (stop_leaves tu g)" "state (leaf_a (stop_leaves tu g)) = Idle"
    "state (leaf_b (stop_leaves tu g)) = Idle" "now (dev (stop_leaves tu g)) = now (dev g)"
    "same_leaf (leaf_a g) (leaf_a (stop_leaves tu g))" "same_leaf (leaf_b g) (leaf_b (stop_leaves tu g))"
proof -
  obtain h1 ma where a: "motor_settle tu (dev g) (leaf_a g) = (h1, ma)" by fastforce
  obtain h2 mb where b: "motor_settle tu h1 (leaf_b g) = (h2, mb)" by fastforce
  have g': "stop_leaves tu g = g\<lparr>dev := h2, leaf_a := ma, leaf_b := mb\<rparr>"
    using a b by (simp add: stop_leaves_def motor_stop_def)
  note fa = motor_settle_foreign [OF a] and fb = motor_settle_foreign [OF b]
  note sa = motor_settle_same [OF a] and sb = motor_settle_same [OF b]
  have w: "hw_ok (dev g)" "motor_ok (dev g) (leaf_a g)" "motor_ok (dev g) (leaf_b g)"
      "pins (leaf_a g) \<inter> pins (leaf_b g) = {}"
    using assms by (simp_all add: wired_def)
  have h1: "hw_ok h1" by (rule foreign_write_hw_ok [OF fa w(1)])
  have "motor_ok h1 (leaf_b g)"
    using w(4) by (intro foreign_write_motor_ok [OF fa w(1,3)]) auto
  then have okb: "motor_ok h2 mb" by (rule motor_settle_ok [OF b h1])
  have "motor_ok h1 ma" by (rule motor_settle_ok [OF a w(1,2)])
  then have oka: "motor_ok h2 ma"
    using w(4) by (intro foreign_write_motor_ok [OF fb h1]) (auto simp: same_leaf_pins [OF sa])
  show "wired (stop_leaves tu g)"
    using oka okb foreign_write_hw_ok [OF fb h1] w(4)
    by (simp add: wired_def g' same_leaf_pins [OF sa] same_leaf_pins [OF sb])
  show "state (leaf_a (stop_leaves tu g)) = Idle" "state (leaf_b (stop_leaves tu g)) = Idle"
    "now (dev (stop_leaves tu g)) = now (dev g)"
    using motor_settle_state [OF a] motor_settle_state [OF b] by (simp_all add: g')
  show "same_leaf (leaf_a g) (leaf_a (stop_leaves tu g))" "same_leaf (leaf_b g) (leaf_b (stop_leaves tu g))"
    using sa sb by (simp_all add: g')
qed

lemma drive_end_ok:
  assumes "wired g" "controls_ok (controls g)" "lock_respected (controls g)"
  shows "gate_ok tu (drive_end tu l r g)"
  unfolding drive_end_def step_done_def Let_def
  by (rule gate_settle_ok) (simp_all add: assms stop_leaves_wired [OF assms(1)])

section \<open>Passes and movements\<close>

lemma drive_pass_cases:
  assumes "wired g" "locals_ok tu g l"
  obtains (refused) "blocked (controls g) (direction_of l) \<noteq> None" "drive_pass tu l g = drive_end tu l None g"
  | (finished) l' g' h1 v1 where "blocked (controls g) (direction_of l) = None"
      "drive_pass tu l g = drive_end tu l' None g'" "wired g'" "locals_ok tu g' l'"
      "controls g' = controls g" "a_phase l' = Done" "b_phase l' = Done" "moved l \<longrightarrow> moved l'"
      "direction_of l' = direction_of l" "now (dev g') = now (dev g)"
      "same_leaf (leaf_a g) (leaf_a g')" "same_leaf (leaf_b g) (leaf_b g')" "notified g' = notified g"
      "leaf_pass tu (direction_of l) (dev g, leaf_a g, a_phase l, moved l) = (h1, leaf_a g', a_phase l', v1)"
      "leaf_pass tu (direction_of l) (h1, leaf_b g, b_phase l, v1) = (dev g', leaf_b g', b_phase l', moved l')"
  | (continues) l' g' at h1 v1 where "blocked (controls g) (direction_of l) = None"
      "drive_pass tu l g = g'\<lparr>task := Driving l' at\<rparr>" "wired g'" "locals_ok tu g' l'"
      "controls g' = controls g" "next_deadline (a_phase l') (b_phase l') = Some at"
      "now (dev g) < at" "direction_of l' = direction_of l" "moved l \<longrightarrow> moved l'"
      "now (dev g') = now (dev g)" "same_leaf (leaf_a g) (leaf_a g')" "same_leaf (leaf_b g) (leaf_b g')"
      "notified g' = notified g" "pending g' = pending g"
      "leaf_pass tu (direction_of l) (dev g, leaf_a g, a_phase l, moved l) = (h1, leaf_a g', a_phase l', v1)"
      "leaf_pass tu (direction_of l) (h1, leaf_b g, b_phase l, v1) = (dev g', leaf_b g', b_phase l', moved l')"
proof (cases "blocked (controls g) (direction_of l)")
  case (Some r)
  then show ?thesis by (intro refused) (simp_all add: drive_pass_def)
next
  case None
  obtain h1 ma pa v1 where a: "leaf_pass tu (direction_of l) (dev g, leaf_a g, a_phase l, moved l) = (h1, ma, pa, v1)"
    by (metis prod_cases4)
  obtain h2 mb pb v2 where b: "leaf_pass tu (direction_of l) (h1, leaf_b g, b_phase l, v1) = (h2, mb, pb, v2)"
    by (metis prod_cases4)
  define g' where "g' = g\<lparr>dev := h2, leaf_a := ma, leaf_b := mb\<rparr>"
  define l' where "l' = l\<lparr>a_phase := pa, b_phase := pb, moved := v2\<rparr>"
  have w: "hw_ok (dev g)" "motor_ok (dev g) (leaf_a g)" "motor_ok (dev g) (leaf_b g)"
      "pins (leaf_a g) \<inter> pins (leaf_b g) = {}"
    using assms(1) by (simp_all add: wired_def)
  have ph: "leaf_phase_ok tu (direction_of l) (leaf_a g) (a_phase l)"
      "leaf_phase_ok tu (direction_of l) (leaf_b g) (b_phase l)" "runs (a_phase l) \<longrightarrow> moved l"
      "runs (b_phase l) \<longrightarrow> moved l"
    using assms(2) by (simp_all add: locals_ok_def)
  note fa = leaf_pass_facts [OF a w(1,2) ph(1,3)]
  have okb: "motor_ok h1 (leaf_b g)"
    using w(4) by (intro foreign_write_motor_ok [OF fa(4) w(1,3)]) auto
  have "runs (b_phase l) \<longrightarrow> v1" using ph(4) fa(6) by blast
  note fb = leaf_pass_facts [OF b fa(1) okb ph(2) this]
  have oka: "motor_ok h2 ma"
    using w(4) by (intro foreign_write_motor_ok [OF fb(4) fa(1,2)]) (auto simp: same_leaf_pins [OF fa(5)])
  have wg: "wired g'"
    using oka fb(1,2) w(4) same_leaf_pins [OF fa(5)] same_leaf_pins [OF fb(5)]
    by (simp add: wired_def g'_def)
  have lg: "locals_ok tu g' l'"
    using assms(2) fa(3,7) fb(3,6,7) by (auto simp: locals_ok_def g'_def l'_def)
  have t: "now h1 = now (dev g)" "now h2 = now (dev g)"
    using foreign_write_now [OF fa(4)] foreign_write_now [OF fb(4)] by simp_all
  have misc: "controls g' = controls g" "direction_of l' = direction_of l" "now (dev g') = now (dev g)"
      "same_leaf (leaf_a g) (leaf_a g')" "same_leaf (leaf_b g) (leaf_b g')" "notified g' = notified g"
      "pending g' = pending g" "moved l \<longrightarrow> moved l'"
    using t fa(5,6) fb(5,6) by (auto simp: g'_def l'_def)
  show ?thesis
  proof (cases "next_deadline pa pb")
    case (Some at)
    then have "now (dev g) < at"
      using fa(8) fb(8) t by (auto simp: next_deadline_def split: option.splits)
    with Some None a b wg lg misc show ?thesis
      by (intro continues [where l' = l' and g' = g' and at = at and ?h1.0 = h1 and ?v1.0 = v1]) (auto simp: drive_pass_def Let_def g'_def l'_def)
  next
    case nd: None
    then have "pa = Done" "pb = Done"
      by (auto simp: next_deadline_def deadline_def split: option.splits phase.splits)
    with nd None a b wg lg misc show ?thesis
      by (intro finished [where l' = l' and g' = g' and ?h1.0 = h1 and ?v1.0 = v1]) (auto simp: drive_pass_def Let_def g'_def l'_def)
  qed
qed

lemma locals_ok_cong:
  "locals_ok tu g l \<Longrightarrow> leaf_a g' = leaf_a g \<Longrightarrow> leaf_b g' = leaf_b g \<Longrightarrow>
   current_direction (controls g') = current_direction (controls g) \<Longrightarrow>
   last_direction (controls g') = last_direction (controls g) \<Longrightarrow> locals_ok tu g' l"
  by (simp add: locals_ok_def)

lemma drive_pass_ok:
  assumes "wired g" "locals_ok tu g l" "controls_ok (controls g)" "lock_respected (controls g)"
  shows "gate_ok tu (drive_pass tu l g)"
  using assms(1,2)
proof (cases rule: drive_pass_cases)
  case refused
  with assms show ?thesis by (simp add: drive_end_ok)
next
  case (finished l' g')
  with assms show ?thesis by (simp add: drive_end_ok)
next
  case (continues l' g' at)
  have "locals_ok tu (g'\<lparr>task := Driving l' at\<rparr>) l'"
    by (rule locals_ok_cong [OF continues(4)]) simp_all
  then show ?thesis
    using continues assms by (simp add: gate_ok_def task_ok_def)
qed

lemma plan_phase_ok: "state m = Idle \<Longrightarrow> leaf_phase_ok tu d m (plan tu m d t) \<and> \<not> runs (plan tu m d t)"
  by (simp add: plan_def leaf_phase_ok_def runs_def)

lemma set_direction_simps [simp]:
  "current_direction (set_direction d c) = direction_code d"
  "last_direction (set_direction d c) = direction_code d"
  "position_class (set_direction d c) = position_class c"
  "command (set_direction d c) = command c" "wind_locked (set_direction d c) = wind_locked c"
  "barrier_changed (set_direction d c) = barrier_changed c"
  "wind_lock_reset (set_direction d c) = wind_lock_reset c"
  "barrier1_active (set_direction d c) = barrier1_active c"
  "barrier2_active (set_direction d c) = barrier2_active c"
  "barrier_bypass (set_direction d c) = barrier_bypass c"
  by (simp_all add: set_direction_def Let_def)

lemma blocked_cong:
  "barrier_bypass c' = barrier_bypass c \<Longrightarrow> barrier1_active c' = barrier1_active c \<Longrightarrow>
   barrier2_active c' = barrier2_active c \<Longrightarrow> wind_locked c' = wind_locked c \<Longrightarrow> blocked c' d = blocked c d"
  by (simp add: blocked_def Let_def)

lemma notify_simps [simp]:
  "controls (notify g) = controls g" "leaf_a (notify g) = leaf_a g" "leaf_b (notify g) = leaf_b g"
  "dev (notify g) = dev g" "pending (notify g) = pending g" "task (notify g) = task g"
  by (simp_all add: notify_def)

text \<open>The state in which the loop of \<open>drive\<close> is entered.\<close>

definition drive_entry :: "direction \<Rightarrow> gate \<Rightarrow> gate" where
  "drive_entry d g = notify (g\<lparr>controls := set_direction d (controls g)\<rparr>)"

definition drive_start_locals :: "time_ops \<Rightarrow> direction \<Rightarrow> gate \<Rightarrow> drive_locals" where
  "drive_start_locals tu d g = \<lparr>direction_of = d, a_phase = plan tu (leaf_a g) d (now (dev g)),
     b_phase = plan tu (leaf_b g) d (now (dev g)), moved = False\<rparr>"

lemma drive_begin_unblocked:
  "blocked (controls g) d = None \<Longrightarrow>
   drive_begin tu d g = drive_pass tu (drive_start_locals tu d g) (drive_entry d g)"
  by (simp add: drive_begin_def drive_entry_def drive_start_locals_def Let_def)

lemma drive_entry_simps [simp]:
  "controls (drive_entry d g) = set_direction d (controls g)" "leaf_a (drive_entry d g) = leaf_a g"
  "leaf_b (drive_entry d g) = leaf_b g" "dev (drive_entry d g) = dev g" "pending (drive_entry d g) = pending g"
  by (simp_all add: drive_entry_def)

lemma drive_start_locals_simps [simp]: "direction_of (drive_start_locals tu d g) = d"
  by (simp add: drive_start_locals_def)

lemma drive_entry_ok:
  assumes "wired g" "state (leaf_a g) = Idle" "state (leaf_b g) = Idle"
  shows "wired (drive_entry d g)" "locals_ok tu (drive_entry d g) (drive_start_locals tu d g)"
  using assms plan_phase_ok by (simp_all add: drive_entry_def locals_ok_def drive_start_locals_def)

lemma drive_begin_ok:
  assumes "wired g" "controls_ok (controls g)" "lock_respected (controls g)"
    and "state (leaf_a g) = Idle" "state (leaf_b g) = Idle"
  shows "gate_ok tu (drive_begin tu d g)"
proof (cases "blocked (controls g) d")
  case None
  have "controls_ok (controls (drive_entry d g))" "lock_respected (controls (drive_entry d g))"
    using assms(2,3) by (cases d; simp add: controls_ok_def lock_respected_def)+
  with drive_entry_ok [OF assms(1,4,5)] show ?thesis
    by (simp add: drive_begin_unblocked [OF None] drive_pass_ok)
next
  case (Some r)
  have "gate_ok tu (gate_settle (g\<lparr>pending := None\<rparr>))"
    by (rule gate_settle_ok) (use assms in simp_all)
  with Some show ?thesis by (simp add: drive_begin_def step_done_def)
qed

lemma execute_command_ok:
  assumes "wired g" "controls_ok (controls g)" "lock_respected (controls g)"
    and "state (leaf_a g) = Idle" "state (leaf_b g) = Idle"
  shows "gate_ok tu (execute_command tu cmd g)"
proof -
  have "gate_ok tu (step_done None (stop_leaves tu g))"
    unfolding step_done_def
    by (rule gate_settle_ok) (simp_all add: assms stop_leaves_wired [OF assms(1)])
  then show ?thesis
    by (simp add: execute_command_def drive_begin_ok [OF assms] split: gate_command.split)
qed

section \<open>Every step keeps the invariant\<close>

lemma clear_simps [simp]:
  "controls (clear_command g) = (controls g)\<lparr>command := None\<rparr>" "leaf_a (clear_command g) = leaf_a g"
  "leaf_b (clear_command g) = leaf_b g" "dev (clear_command g) = dev g" "pending (clear_command g) = pending g"
  "controls (clear_barrier g) = (controls g)\<lparr>barrier_changed := None\<rparr>" "leaf_a (clear_barrier g) = leaf_a g"
  "leaf_b (clear_barrier g) = leaf_b g" "dev (clear_barrier g) = dev g" "pending (clear_barrier g) = pending g"
  "controls (clear_reset g) = (controls g)\<lparr>wind_lock_reset := None\<rparr>" "leaf_a (clear_reset g) = leaf_a g"
  "leaf_b (clear_reset g) = leaf_b g" "dev (clear_reset g) = dev g" "pending (clear_reset g) = pending g"
  by (simp_all add: clear_command_def clear_barrier_def clear_reset_def)

lemma locals_ok_simps [simp]:
  "locals_ok tu (clear_command g) l = locals_ok tu g l" "locals_ok tu (clear_barrier g) l = locals_ok tu g l"
  "locals_ok tu (clear_reset g) l = locals_ok tu g l" "locals_ok tu (notify g) l = locals_ok tu g l"
  "locals_ok tu (g\<lparr>task := k\<rparr>) l = locals_ok tu g l"
  by (simp_all add: locals_ok_def)

lemma gate_ok_rest:
  assumes "gate_ok tu g" "\<nexists>l at. task g = Driving l at"
  shows "state (leaf_a g) = Idle" "state (leaf_b g) = Idle"
  using assms by (auto simp: gate_ok_def task_ok_def at_rest_def split: gate_task.splits)

lemma gate_ok_driving:
  assumes "gate_ok tu g" "task g = Driving l at"
  shows "locals_ok tu g l"
  using assms by (simp add: gate_ok_def task_ok_def)

lemma gate_react_cases [consumes 1, case_names call wait command_idle reset_idle timer command barrier reset]:
  assumes "gate_react tu w g = Some g'"
  obtains (call) snap cmd where "w = CallStep" "task g = Returned snap" "pending g = Some cmd"
      "g' = execute_command tu cmd (g\<lparr>pending := None\<rparr>)"
  | (wait) snap where "w = CallStep" "task g = Returned snap" "pending g = None" "g' = g\<lparr>task := AwaitCommand\<rparr>"
  | (command_idle) cmd where "w = CommandReady" "task g = AwaitCommand" "command (controls g) = Some cmd"
      "g' = execute_command tu cmd (clear_command g)"
  | (reset_idle) "w = ResetReady" "task g = AwaitCommand" "wind_lock_reset (controls g) \<noteq> None"
      "g' = gate_settle (clear_reset g)"
  | (timer) l at where "w = TimerFired" "task g = Driving l at" "at \<le> now (dev g)" "g' = drive_pass tu l g"
  | (command) l at cmd where "w = CommandReady" "task g = Driving l at" "command (controls g) = Some cmd"
      "g' = drive_command tu l cmd (clear_command g)"
  | (barrier) l at where "w = BarrierReady" "task g = Driving l at" "barrier_changed (controls g) \<noteq> None"
      "g' = drive_pass tu l (clear_barrier g)"
  | (reset) l at where "w = ResetReady" "task g = Driving l at" "wind_lock_reset (controls g) \<noteq> None"
      "g' = drive_pass tu l (notify (clear_reset g))"
proof (cases "task g")
  case (Returned snap)
  with assms call wait show ?thesis
    by (cases "pending g") (auto simp: gate_react_def split: if_splits)
next
  case AwaitCommand
  with assms command_idle reset_idle show ?thesis
    by (cases w) (auto simp: gate_react_def split: option.splits)
next
  case (Driving l at)
  show ?thesis
  proof (cases w)
    case TimerFired
    with Driving assms timer show ?thesis by (auto simp: gate_react_def split: if_splits)
  next
    case CommandReady
    with Driving assms command show ?thesis by (auto simp: gate_react_def split: option.splits)
  next
    case BarrierReady
    with Driving assms barrier show ?thesis by (auto simp: gate_react_def split: option.splits)
  next
    case ResetReady
    with Driving assms reset show ?thesis by (auto simp: gate_react_def split: option.splits)
  qed (use Driving assms in \<open>simp add: gate_react_def\<close>)
qed

lemma gate_react_ok:
  assumes "gate_react tu w g = Some g'" "gate_ok tu g"
  shows "gate_ok tu g'"
proof -
  have base: "wired g" "controls_ok (controls g)" "lock_respected (controls g)"
    using assms(2) by (simp_all add: gate_ok_def)
  have loc: "locals_ok tu g l" if "task g = Driving l at" for l at
    using gate_ok_driving [OF assms(2) that] .
  have rest: "state (leaf_a g) = Idle \<and> state (leaf_b g) = Idle" if "\<nexists>l at. task g = Driving l at"
    using gate_ok_rest [OF assms(2) that] by simp
  from assms(1) show ?thesis
  proof (cases rule: gate_react_cases)
    case (call snap cmd)
    with base rest show ?thesis by (simp add: execute_command_ok)
  next
    case (wait snap)
    with assms(2) show ?thesis
      by (simp add: gate_ok_def task_ok_def at_rest_def take_snapshot_def)
  next
    case (command_idle cmd)
    with base rest show ?thesis by (simp add: execute_command_ok)
  next
    case reset_idle
    with base rest show ?thesis by (simp add: gate_settle_ok)
  next
    case (timer l at)
    with base loc show ?thesis by (simp add: drive_pass_ok)
  next
    case (command l at cmd)
    with base loc [OF command(2)] show ?thesis
      by (simp add: drive_command_def drive_pass_ok drive_end_ok)
  next
    case (barrier l at)
    with base loc show ?thesis by (simp add: drive_pass_ok)
  next
    case (reset l at)
    with base loc show ?thesis by (simp add: drive_pass_ok)
  qed
qed

lemma classify_cong:
  "leaf_a_position s' = leaf_a_position s \<Longrightarrow> leaf_b_position s' = leaf_b_position s \<Longrightarrow> classify s' = classify s"
  by (simp add: classify_def)

lemma gate_input_ok:
  assumes "gate_ok tu g"
  shows "gate_ok tu (g\<lparr>controls := control_exec op (controls g)\<rparr>)"
proof (cases "task g")
  case (Driving l at)
  with assms have t: "locals_ok tu g l" "next_deadline (a_phase l) (b_phase l) = Some at"
      "blocked (controls g) (direction_of l) \<noteq> None \<longrightarrow> woken (controls g)"
    by (simp_all add: gate_ok_def task_ok_def)
  have "locals_ok tu (g\<lparr>controls := control_exec op (controls g)\<rparr>) l"
    by (rule locals_ok_cong [OF t(1)]) simp_all
  with assms Driving t(2) inputs.never_missed_step [OF t(3), of op] show ?thesis
    by (simp add: gate_ok_def task_ok_def control_exec_lock_respected)
qed (use assms in \<open>auto simp: gate_ok_def task_ok_def at_rest_def take_snapshot_def
    control_exec_lock_respected intro: classify_cong\<close>)

lemma gate_elapse_ok:
  assumes "gate_ok tu g"
  shows "gate_ok tu (g\<lparr>dev := clock_advance t (dev g)\<rparr>)"
  using assms
  by (auto simp: gate_ok_def task_ok_def at_rest_def take_snapshot_def wired_def locals_ok_def
      split: gate_task.splits)

text \<open>Writes to pins of other tasks and the light's signal do not concern the gate.\<close>

definition gate_pins :: "gate \<Rightarrow> pin_name set" where
  "gate_pins g = pins (leaf_a g) \<union> pins (leaf_b g)"

lemma gate_ok_foreign:
  assumes "gate_ok tu g" "p \<notin> gate_pins g"
  shows "gate_ok tu (g\<lparr>dev := pin_set tu p v (dev g)\<rparr>)"
proof -
  have f: "foreign_write {p} (dev g) (pin_set tu p v (dev g))" by (rule pin_set_foreign) simp
  have w: "hw_ok (dev g)" "motor_ok (dev g) (leaf_a g)" "motor_ok (dev g) (leaf_b g)"
    using assms(1) by (simp_all add: gate_ok_def wired_def)
  have "motor_ok (pin_set tu p v (dev g)) (leaf_a g)" "motor_ok (pin_set tu p v (dev g)) (leaf_b g)"
    using assms(2) foreign_write_motor_ok [OF f w(1)] w by (auto simp: gate_pins_def)
  with assms(1) w show ?thesis
    by (auto simp: gate_ok_def wired_def task_ok_def at_rest_def take_snapshot_def locals_ok_def
        split: gate_task.splits)
qed

lemma light_taken_simps [simp]:
  "blocked (c\<lparr>light_changed := x\<rparr>) d = blocked c d" "woken (c\<lparr>light_changed := x\<rparr>) = woken c"
  "controls_ok (c\<lparr>light_changed := x\<rparr>) = controls_ok c" "lock_respected (c\<lparr>light_changed := x\<rparr>) = lock_respected c"
  "warning_light_active (c\<lparr>light_changed := x\<rparr>) = warning_light_active c"
  by (simp_all add: blocked_def woken_def controls_ok_def lock_respected_def warning_light_active_def Let_def)

lemma gate_ok_light_taken: "gate_ok tu g \<Longrightarrow> gate_ok tu (g\<lparr>controls := (controls g)\<lparr>light_changed := x\<rparr>\<rparr>)"
  by (cases "task g") (simp_all add: gate_ok_def task_ok_def at_rest_def take_snapshot_def locals_ok_def)

lemma gate_step_ok: "gate_step tu g g' \<Longrightarrow> gate_ok tu g \<Longrightarrow> gate_ok tu g'"
  by (erule gate_stepE)
    (auto simp: gate_pins_def intro: gate_react_ok gate_input_ok gate_elapse_ok gate_ok_light_taken gate_ok_foreign)

lemma motor_new_facts:
  assumes "motor_new tu h op cp tm ov pause pos = (h', m)"
  shows "pins m = {op, cp}" "state m = Idle" "foreign_write {op, cp} h h'"
  using assms
  by (auto simp: motor_new_def pins_def Let_def intro!: foreign_write_trans [OF pin_set_foreign pin_set_foreign])

lemma boot_ok:
  assumes "boot tu g"
  shows "gate_ok tu g"
proof -
  obtain oa ca ob cb tma tmb ova ovb pa pb posa posb c lk h1 ma h2 mb where
    d: "distinct [oa, ca, ob, cb]" and c: "controls_ok c" "command c = None"
    and a: "motor_new tu hw_reset oa ca tma ova pa posa = (h1, ma)"
    and b: "motor_new tu h1 ob cb tmb ovb pb posb = (h2, mb)"
    and g: "g = Gate_new c ma mb lk h2"
    using assms unfolding boot_def by blast
  note fa = motor_new_facts [OF a] and fb = motor_new_facts [OF b]
  have "leaf_ok (h1, ma)"
    using motor_new_ok [OF hw_reset_ok, of oa ca tu tma ova pa posa] d a by (simp add: hw_reset_def)
  then have oka: "hw_ok h1" "motor_ok h1 ma" by (simp_all add: leaf_ok_def)
  have low: "\<not> levels h1 p" for p
    using a by (auto simp: motor_new_def Let_def hw_reset_def split: if_splits)
  have "switches h1 = []"
    using a by (auto simp: motor_new_def Let_def hw_reset_def pin_set_def)
  then have "leaf_ok (h2, mb)"
    using motor_new_ok [OF oka(1), of ob cb tu tmb ovb pb posb] d b low by simp
  then have okb: "hw_ok h2" "motor_ok h2 mb" by (simp_all add: leaf_ok_def)
  have "motor_ok h2 ma"
    by (rule foreign_write_motor_ok [OF fb(3) oka]) (use fa(1) d in auto)
  with okb fa fb d show ?thesis
    unfolding g Gate_new_def
    by (intro gate_settle_ok) (use c in \<open>auto simp: wired_def lock_respected_def controls_ok_def\<close>)
qed

interpretation gate_safe: inductive_invariant "boot tu" "gate_step tu" "gate_ok tu" for tu
  by unfold_locales (auto intro: boot_ok gate_step_ok)

abbreviation reachable :: "time_ops \<Rightarrow> gate \<Rightarrow> bool" where
  "reachable tu \<equiv> reach (boot tu) (gate_step tu)"

section \<open>Relays\<close>

definition relay :: "motor \<Rightarrow> direction \<Rightarrow> pin_name" where
  "relay m d = (case d of Opening \<Rightarrow> open_pin m | Closing \<Rightarrow> close_pin m)"

definition relay_on :: "gate \<Rightarrow> direction \<Rightarrow> bool" where
  "relay_on g d \<longleftrightarrow> levels (dev g) (relay (leaf_a g) d) \<or> levels (dev g) (relay (leaf_b g) d)"

lemma motor_ok_relay: "motor_ok h m \<Longrightarrow> levels h (relay m d) \<longleftrightarrow> (\<exists>t. state m = Running d t)"
  by (cases d) (auto simp: motor_ok_def relay_def)

lemma relay_on_state:
  "wired g \<Longrightarrow> relay_on g d \<longleftrightarrow>
     (\<exists>t. state (leaf_a g) = Running d t) \<or> (\<exists>t. state (leaf_b g) = Running d t)"
  by (simp add: relay_on_def wired_def motor_ok_relay)

lemma gate_ok_relay_on:
  assumes "gate_ok tu g" "relay_on g d"
  obtains l at where "task g = Driving l at" "direction_of l = d" "moved l"
proof -
  have w: "wired g" using assms(1) by (simp add: gate_ok_def)
  with assms(2) have r: "(\<exists>t. state (leaf_a g) = Running d t) \<or> (\<exists>t. state (leaf_b g) = Running d t)"
    by (simp add: relay_on_state)
  then obtain l at where t: "task g = Driving l at"
    using gate_ok_rest [OF assms(1)] by fastforce
  have "direction_of l = d \<and> moved l"
    using gate_ok_driving [OF assms(1) t] r
    by (auto simp: locals_ok_def leaf_phase_ok_def runs_def split: phase.splits)
  with t that show ?thesis by blast
qed

lemma gate_ok_blocked_off:
  assumes "gate_ok tu g" "relay_on g d" "\<not> woken (controls g)"
  shows "blocked (controls g) d = None"
  by (rule gate_ok_relay_on [OF assms(1,2)]) (use assms(1,3) in \<open>auto simp: gate_ok_def task_ok_def\<close>)

text \<open>A gate without a movement in flight has every relay released.\<close>

lemma gate_ok_rest_off:
  assumes "gate_ok tu g" "\<nexists>l at. task g = Driving l at"
  shows "\<not> relay_on g d"
  using gate_ok_relay_on [OF assms(1)] assms(2) by blast

text \<open>What the reactions that end a movement leave behind.\<close>

lemma drive_end_simps [simp]:
  "task (drive_end tu l r g) = Returned (take_snapshot (stop_leaves tu g))"
  "pending (drive_end tu l r g) = r" "dev (drive_end tu l r g) = dev (stop_leaves tu g)"
  "leaf_a (drive_end tu l r g) = leaf_a (stop_leaves tu g)"
  "leaf_b (drive_end tu l r g) = leaf_b (stop_leaves tu g)"
  "barrier_bypass (controls (drive_end tu l r g)) = (barrier_bypass (controls g) \<and> \<not> moved l)"
  "wind_locked (controls (drive_end tu l r g)) = wind_locked (controls g)"
  "barrier1_active (controls (drive_end tu l r g)) = barrier1_active (controls g)"
  "barrier2_active (controls (drive_end tu l r g)) = barrier2_active (controls g)"
  "command (controls (drive_end tu l r g)) = command (controls g)"
  by (simp_all add: drive_end_def step_done_def Let_def take_snapshot_def)

lemma drive_pass_running_unblocked:
  assumes "wired g" "locals_ok tu g l" "task (drive_pass tu l g) = Driving l' at"
  shows "blocked (controls (drive_pass tu l g)) (direction_of l') = None \<and> now (dev g) < at
    \<and> now (dev (drive_pass tu l g)) = now (dev g)"
  using assms(1,2)
proof (cases rule: drive_pass_cases)
  case (continues l'' g' at')
  with assms(3) show ?thesis by simp
qed (use assms(3) in simp_all)

lemma drive_begin_running_unblocked:
  assumes "wired g" "state (leaf_a g) = Idle" "state (leaf_b g) = Idle"
    and "task (drive_begin tu d g) = Driving l at"
  shows "blocked (controls (drive_begin tu d g)) (direction_of l) = None \<and> now (dev g) < at
    \<and> now (dev (drive_begin tu d g)) = now (dev g)"
proof (cases "blocked (controls g) d")
  case None
  show ?thesis
    using drive_pass_running_unblocked [OF drive_entry_ok [OF assms(1-3)]] assms(4) by (simp add: drive_begin_unblocked [OF None])
qed (use assms(4) in \<open>simp add: drive_begin_def step_done_def\<close>)

lemma execute_running_unblocked:
  assumes "wired g" "state (leaf_a g) = Idle" "state (leaf_b g) = Idle"
    and "task (execute_command tu cmd g) = Driving l at"
  shows "blocked (controls (execute_command tu cmd g)) (direction_of l) = None \<and> now (dev g) < at
    \<and> now (dev (execute_command tu cmd g)) = now (dev g)"
  using assms(4) drive_begin_running_unblocked [OF assms(1-3)]
  by (auto simp: execute_command_def step_done_def split: gate_command.splits)

text \<open>
  After every reaction of the gate task: a movement that goes on is permitted
  and its next deadline lies in the future.
\<close>

lemma react_running_unblocked:
  assumes "gate_ok tu g" "gate_react tu w g = Some g'" "task g' = Driving l at"
  shows "blocked (controls g') (direction_of l) = None \<and> now (dev g') < at"
proof -
  have w: "wired g" using assms(1) by (simp add: gate_ok_def)
  have loc: "locals_ok tu g l" if "task g = Driving l at" for l at
    using gate_ok_driving [OF assms(1) that] .
  have rest: "state (leaf_a g) = Idle \<and> state (leaf_b g) = Idle" if "\<nexists>l at. task g = Driving l at"
    using gate_ok_rest [OF assms(1) that] by simp
  from assms(2) show ?thesis
  proof (cases rule: gate_react_cases)
    case (call snap cmd)
    with w rest assms(3) execute_running_unblocked [of "g\<lparr>pending := None\<rparr>" tu cmd l at]
    show ?thesis by simp
  next
    case (command_idle cmd)
    with w rest assms(3) execute_running_unblocked [of "clear_command g" tu cmd l at]
    show ?thesis by simp
  next
    case (timer k t)
    with w loc assms(3) drive_pass_running_unblocked [of g tu k l at] show ?thesis by simp
  next
    case (command k t cmd)
    with w loc assms(3) drive_pass_running_unblocked [of "clear_command g" tu k l at] show ?thesis
      by (simp add: drive_command_def split: if_splits)
  next
    case (barrier k t)
    with w loc assms(3) drive_pass_running_unblocked [of "clear_barrier g" tu k l at] show ?thesis by simp
  next
    case (reset k t)
    with w loc assms(3) drive_pass_running_unblocked [of "notify (clear_reset g)" tu k l at]
    show ?thesis by simp
  qed (use assms(3) in simp_all)
qed

end
