(* ===== verification/GateConfig.thy ===== *)
theory GateConfig
  imports GateSafety
begin

text \<open>
  The installation: the leaf timing of \<open>src/physical/gate_config.rs\<close>, the
  motors that \<open>src/physical/gate.rs\<close> builds from it, and the gate it starts.
  The gate built here is a boot state of the controller, so the safety
  properties apply to the firmware as it is configured; the same states serve
  as concrete runs of the model.
\<close>

definition LEAF_A :: "time_ops \<Rightarrow> leaf_timing" where
  "LEAF_A tu = \<lparr>open_initial_delay = from_secs tu 0, open_duration = from_secs tu 15,
     close_initial_delay = from_secs tu 3, close_duration = from_secs tu 15\<rparr>"

definition LEAF_B :: "time_ops \<Rightarrow> leaf_timing" where
  "LEAF_B tu = \<lparr>open_initial_delay = from_secs tu 3, open_duration = from_secs tu 15,
     close_initial_delay = from_secs tu 0, close_duration = from_secs tu 15\<rparr>"

definition END_STOP_OVERRUN :: "time_ops \<Rightarrow> ticks" where
  "END_STOP_OVERRUN tu = from_secs tu 1"

definition REVERSE_PAUSE :: "time_ops \<Rightarrow> ticks" where
  "REVERSE_PAUSE tu = from_millis tu 1000"

definition WARNING_LIGHT_HALF_PERIOD :: "time_ops \<Rightarrow> ticks" where
  "WARNING_LIGHT_HALF_PERIOD tu = from_millis tu 500"

record motor_settings =
  settings_open_pin :: pin_name
  settings_close_pin :: pin_name
  settings_timing :: leaf_timing
  initial_position :: u8

definition motor_of_settings :: "time_ops \<Rightarrow> hw \<Rightarrow> motor_settings \<Rightarrow> hw \<times> motor" where
  "motor_of_settings tu h s = motor_new tu h (settings_open_pin s) (settings_close_pin s)
     (settings_timing s) (END_STOP_OVERRUN tu) (REVERSE_PAUSE tu) (initial_position s)"

text \<open>The gate that \<open>task\<close> of \<open>src/physical/gate.rs\<close> creates, with the relays that \<open>main\<close> wires.\<close>

definition gate_of_settings ::
  "time_ops \<Rightarrow> controls \<Rightarrow> motor_settings \<Rightarrow> motor_settings \<Rightarrow> bool \<Rightarrow> gate" where
  "gate_of_settings tu c sa sb locked =
     (case motor_of_settings tu hw_reset sa of
        (h, ma) \<Rightarrow> (case motor_of_settings tu h sb of
          (h, mb) \<Rightarrow> Gate_new c ma mb locked h))"

definition settings_a :: "time_ops \<Rightarrow> u8 \<Rightarrow> motor_settings" where
  "settings_a tu pos = \<lparr>settings_open_pin = ''GPIO15'', settings_close_pin = ''GPIO16'',
     settings_timing = LEAF_A tu, initial_position = pos\<rparr>"

definition settings_b :: "time_ops \<Rightarrow> u8 \<Rightarrow> motor_settings" where
  "settings_b tu pos = \<lparr>settings_open_pin = ''GPIO17'', settings_close_pin = ''GPIO18'',
     settings_timing = LEAF_B tu, initial_position = pos\<rparr>"

definition firmware_gate :: "time_ops \<Rightarrow> u8 \<Rightarrow> u8 \<Rightarrow> bool \<Rightarrow> gate" where
  "firmware_gate tu pa pb locked =
     gate_of_settings tu Controls_new (settings_a tu pa) (settings_b tu pb) locked"

lemma firmware_boot: "boot tu (firmware_gate tu pa pb locked)"
  unfolding boot_def firmware_gate_def gate_of_settings_def motor_of_settings_def
    settings_a_def settings_b_def
  by (rule exI [of _ "''GPIO15''"], rule exI [of _ "''GPIO16''"], rule exI [of _ "''GPIO17''"],
      rule exI [of _ "''GPIO18''"], rule exI [of _ "LEAF_A tu"], rule exI [of _ "LEAF_B tu"],
      rule exI [of _ "END_STOP_OVERRUN tu"], rule exI [of _ "END_STOP_OVERRUN tu"],
      rule exI [of _ "REVERSE_PAUSE tu"], rule exI [of _ "REVERSE_PAUSE tu"],
      rule exI [of _ pa], rule exI [of _ pb], rule exI [of _ Controls_new], rule exI [of _ locked])
    (auto simp: Controls_new_ok signal_new_def Controls_new_def[THEN arg_cong[where f = command]]
      split: prod.splits)

lemma firmware_reachable: "reachable tu (firmware_gate tu pa pb locked)"
  by (rule reach_init) (rule firmware_boot)

section \<open>Concrete runs\<close>

text \<open>A run is a list of actions of the environment and of wake-ups of the gate task.\<close>

datatype action = Input control_op | Wake wake | Elapse ticks

fun act :: "time_ops \<Rightarrow> action \<Rightarrow> gate \<Rightarrow> gate option" where
  "act tu (Input op) g = Some (g\<lparr>controls := control_exec op (controls g)\<rparr>)"
| "act tu (Wake w) g = gate_react tu w g"
| "act tu (Elapse t) g = Some (g\<lparr>dev := clock_advance t (dev g)\<rparr>)"

fun play :: "time_ops \<Rightarrow> action list \<Rightarrow> gate \<Rightarrow> gate option" where
  "play tu [] g = Some g"
| "play tu (x # xs) g = (case act tu x g of None \<Rightarrow> None | Some g' \<Rightarrow> play tu xs g')"

lemma act_step: "act tu x g = Some g' \<Longrightarrow> gate_step tu g g'"
  by (cases x) (auto intro: gate_step.intros)

lemma act_reachable:
  assumes "act tu x g = Some g'" "reachable tu g"
  shows "reachable tu g'"
  by (rule reach_step [where step = "gate_step tu"]) (fact assms(2), rule act_step [OF assms(1)])

lemma play_reachable: "play tu xs g = Some g' \<Longrightarrow> reachable tu g \<Longrightarrow> reachable tu g'"
  by (induction xs arbitrary: g) (auto split: option.splits dest: act_reachable)

lemmas run_defs =
  firmware_gate_def gate_of_settings_def motor_of_settings_def settings_a_def settings_b_def
  LEAF_A_def LEAF_B_def END_STOP_OVERRUN_def REVERSE_PAUSE_def motor_new_def hw_reset_def
  mhz_clock_def Controls_new_def signal_new_def Gate_new_def gate_settle_def notify_def
  take_snapshot_def classify_def gate_react_def signal_take_def execute_command_def
  resolve_impulse_def drive_begin_def drive_pass_def blocked_def set_direction_def
  direction_code_def plan_def run_time_def remaining_def full_duration_def initial_delay_def
  ready_at_def leaf_pass_def leaf_start_pass_def leaf_stop_pass_def motor_start_def motor_stop_def
  motor_settle_def travelled_def mul_u64_def pin_set_def next_deadline_def deadline_def
  drive_end_def stop_leaves_def step_done_def drive_command_def clear_command_def
  clear_barrier_def clear_reset_def saturating_add_def saturating_sub_def clock_advance_def
  control_defs dir_codes pos_codes

text \<open>Three states of the configured gate: opening, closing, and stopped at a light barrier.\<close>

definition opening_run :: "action list" where
  "opening_run = [Input DoOpen, Wake CallStep, Wake CommandReady]"

definition closing_run :: "action list" where
  "closing_run = [Input DoClose, Wake CallStep, Wake CommandReady]"

definition gate_opening :: gate where
  "gate_opening = the (play mhz_clock opening_run (firmware_gate mhz_clock 0 0 False))"

definition gate_closing :: gate where
  "gate_closing = the (play mhz_clock closing_run (firmware_gate mhz_clock 255 255 False))"

lemmas demo_defs = gate_opening_def gate_closing_def opening_run_def closing_run_def run_defs

lemma opening_run_plays:
  "play mhz_clock opening_run (firmware_gate mhz_clock 0 0 False) = Some gate_opening"
  by (simp cong: eval_cong add: demo_defs)

lemma closing_run_plays:
  "play mhz_clock closing_run (firmware_gate mhz_clock 255 255 False) = Some gate_closing"
  by (simp cong: eval_cong add: demo_defs)

lemma gate_opening_reachable: "reachable mhz_clock gate_opening"
  by (rule play_reachable [OF opening_run_plays firmware_reachable])

lemma gate_closing_reachable: "reachable mhz_clock gate_closing"
  by (rule play_reachable [OF closing_run_plays firmware_reachable])

lemma gate_opening_task:
  "task gate_opening = Driving \<lparr>direction_of = Opening, a_phase = PhaseRunning 16000000,
     b_phase = Waiting 3000000, moved = True\<rparr> 3000000"
  by (simp cong: eval_cong add: demo_defs)

lemma gate_closing_task:
  "task gate_closing = Driving \<lparr>direction_of = Closing, a_phase = Waiting 3000000,
     b_phase = PhaseRunning 16000000, moved = True\<rparr> 3000000"
  by (simp cong: eval_cong add: demo_defs)

lemma gate_opening_relay: "relay_on gate_opening Opening"
  by (simp cong: eval_cong add: demo_defs relay_on_def relay_def)

lemma gate_closing_relay: "relay_on gate_closing Closing"
  by (simp cong: eval_cong add: demo_defs relay_on_def relay_def)

end
