(* ===== verification/GateProps.thy ===== *)
theory GateProps
  imports GateConfig
begin

text \<open>
  The safety and behaviour properties of the gate controller, each stated over
  the reachable states of \<open>gate_step\<close> (every schedule of wake-ups, inputs and
  delays) and applied to a concrete run of the configured gate.
\<close>

lemma reachable_ok: "reachable tu g \<Longrightarrow> gate_ok tu g"
  by (rule gate_safe.reach_inv)

section \<open>Reactions of a running movement\<close>

text \<open>A pass before the next deadline changes nothing when the movement is permitted.\<close>

lemma leaf_pass_early:
  "\<forall>t. deadline ph = Some t \<longrightarrow> now h < t \<Longrightarrow> leaf_pass tu d (h, m, ph, mv) = (h, m, ph, mv)"
  by (cases ph) (simp_all add: leaf_pass_def leaf_start_pass_def leaf_stop_pass_def deadline_def)

lemma drive_pass_early:
  assumes "blocked (controls g) (direction_of l) = None"
    and "next_deadline (a_phase l) (b_phase l) = Some at" "now (dev g) < at"
  shows "drive_pass tu l g = g\<lparr>task := Driving l at\<rparr>"
proof -
  have early: "\<forall>t. deadline (a_phase l) = Some t \<longrightarrow> now (dev g) < t"
      "\<forall>t. deadline (b_phase l) = Some t \<longrightarrow> now (dev g) < t"
    using assms(2,3) by (auto simp: next_deadline_def split: option.splits)
  show ?thesis
    using assms(1,2) by (simp add: drive_pass_def leaf_pass_early [OF early(1)] leaf_pass_early [OF early(2)])
qed

lemma drive_end_off:
  assumes "wired g" "controls_ok (controls g)" "lock_respected (controls g)"
  shows "\<not> relay_on (drive_end tu l r g) d"
  by (rule gate_ok_rest_off [OF drive_end_ok [OF assms]]) simp

lemma blocked_cleared [simp]:
  "blocked (c\<lparr>command := x\<rparr>) d = blocked c d" "blocked (c\<lparr>barrier_changed := y\<rparr>) d = blocked c d"
  "blocked (c\<lparr>wind_lock_reset := z\<rparr>) d = blocked c d"
  by (simp_all add: blocked_def Let_def)

text \<open>Whatever wakes a movement that is not permitted any more ends it.\<close>

lemma react_blocked_ends:
  assumes "gate_ok tu g" "task g = Driving l at" "blocked (controls g) (direction_of l) \<noteq> None"
    and "gate_react tu w g = Some g'"
  shows "\<exists>r g0. g' = drive_end tu l r g0 \<and> wired g0 \<and> controls_ok (controls g0)
    \<and> lock_respected (controls g0)"
proof -
  have base: "wired g" "controls_ok (controls g)" "lock_respected (controls g)"
    using assms(1) by (simp_all add: gate_ok_def)
  have pass: "drive_pass tu l g0 = drive_end tu l None g0"
    if "blocked (controls g0) (direction_of l) \<noteq> None" for g0
    using that by (auto simp: drive_pass_def)
  from assms(4) show ?thesis
  proof (cases rule: gate_react_cases)
    case (timer k t)
    with assms(2,3) base pass show ?thesis by auto
  next
    case (command k t cmd)
    with assms(2,3) base pass [of "clear_command g"] show ?thesis
      by (auto simp: drive_command_def intro!: exI [of _ "clear_command g"])
  next
    case (barrier k t)
    with assms(2,3) base pass [of "clear_barrier g"] show ?thesis
      by (auto intro!: exI [of _ "clear_barrier g"])
  next
    case (reset k t)
    with assms(2,3) base pass [of "notify (clear_reset g)"] show ?thesis
      by (auto intro!: exI [of _ "notify (clear_reset g)"])
  qed (use assms(2) in simp_all)
qed

lemma react_permitted:
  assumes ok: "gate_ok tu g" and "gate_react tu w g = Some g'" "relay_on g' d"
  shows "blocked (controls g') d = None"
proof -
  have ok': "gate_ok tu g'" by (rule gate_react_ok [OF assms(2) ok])
  obtain l at where t: "task g' = Driving l at" "direction_of l = d"
    using gate_ok_relay_on [OF ok' assms(3)] .
  show ?thesis using react_running_unblocked [OF ok assms(2) t(1)] t(2) by simp
qed

text \<open>A movement is woken by a set signal, so \<open>poll_gate\<close> reacts.\<close>

lemma woken_poll:
  assumes "task g = Driving l at" "woken (controls g)"
  shows "\<exists>g'. poll_gate tu g = Some g'"
proof -
  have "gate_react tu CommandReady g \<noteq> None \<or> gate_react tu BarrierReady g \<noteq> None"
    using assms by (auto simp: woken_def gate_react_def signal_take_def)
  then show ?thesis by (auto simp: poll_gate_def split: option.splits)
qed

lemma poll_gate_react: "poll_gate tu g = Some g' \<Longrightarrow> \<exists>w. gate_react tu w g = Some g'"
  by (auto simp: poll_gate_def split: option.splits)

section \<open>Relays\<close>

text \<open>
  C1. In every reachable state the relays of a leaf have never been energized
  together, at no point of the pin log, and all energized relays of both leaves
  belong to the direction of the movement in flight.
\<close>

theorem gate_relays_exclusive:
  assumes "reachable tu g"
  shows "never_both (open_pin (leaf_a g)) (close_pin (leaf_a g)) (switches (dev g))
    \<and> never_both (open_pin (leaf_b g)) (close_pin (leaf_b g)) (switches (dev g))
    \<and> \<not> (relay_on g Opening \<and> relay_on g Closing)"
proof -
  note ok = reachable_ok [OF assms]
  have "\<not> (relay_on g Opening \<and> relay_on g Closing)"
    by (metis direction.distinct(1) gate_ok_relay_on [OF ok] gate_task.inject(2))
  with ok show ?thesis by (simp add: gate_ok_def wired_def motor_ok_def)
qed

theorem gate_relays_exclusive_witness:
  "relay_on gate_opening Opening \<and> \<not> relay_on gate_opening Closing"
  using gate_relays_exclusive [OF gate_opening_reachable] gate_opening_relay by simp

text \<open>
  C21. Whenever no movement is in flight (the gate waits for a command or has
  just settled), all four relays are released, and the published cover state is
  \<open>closed\<close> exactly when both leaves are fully closed, \<open>open\<close> otherwise.
\<close>

theorem rest_is_released_and_published:
  assumes "reachable tu g" "\<nexists>l at. task g = Driving l at"
  shows "\<not> relay_on g Opening \<and> \<not> relay_on g Closing \<and>
    cover_state (controls g) =
      (if position (leaf_a g) = 0 \<and> position (leaf_b g) = 0 then CoverClosed else CoverOpen)"
proof -
  note ok = reachable_ok [OF assms(1)]
  have "at_rest g" using ok assms(2) by (auto simp: gate_ok_def task_ok_def split: gate_task.splits)
  then have "cover_state (controls g) =
      (if position (leaf_a g) = 0 \<and> position (leaf_b g) = 0 then CoverClosed else CoverOpen)"
    by (simp add: at_rest_def cover_state_def classify_def take_snapshot_def dir_codes pos_codes)
  with gate_ok_rest_off [OF ok assms(2)] show ?thesis by simp
qed

theorem rest_is_released_and_published_witness:
  "cover_state (controls (firmware_gate mhz_clock 0 40 False)) = CoverOpen"
  using rest_is_released_and_published [OF firmware_reachable [of mhz_clock 0 40 False]]
  by (simp cong: eval_cong add: run_defs)

section \<open>Light barriers and wind lock\<close>

text \<open>
  C2. A light barrier or the wind lock that forbids the movement in flight is
  never missed: a wake-up is pending, polling the gate task reacts, and whatever
  future wins the \<open>select4\<close>, the reaction releases every relay.
\<close>

theorem blocked_movement_stops:
  assumes "reachable tu g" "relay_on g d" "blocked (controls g) d \<noteq> None"
  shows "(\<exists>g'. poll_gate tu g = Some g') \<and>
    (\<forall>w g'. gate_react tu w g = Some g' \<longrightarrow> \<not> relay_on g' Opening \<and> \<not> relay_on g' Closing)"
proof -
  note ok = reachable_ok [OF assms(1)]
  obtain l at where t: "task g = Driving l at" "direction_of l = d"
    using gate_ok_relay_on [OF ok assms(2)] .
  have "woken (controls g)" using ok t assms(3) by (simp add: gate_ok_def task_ok_def)
  moreover have "\<not> relay_on g' d'" if "gate_react tu w g = Some g'" for w g' d'
    using react_blocked_ends [OF ok t(1) _ that] t(2) assms(3) drive_end_off by auto
  ultimately show ?thesis using woken_poll [OF t(1)] by blast
qed

text \<open>
  C9. No reaction of the gate task energizes, or leaves energized, a relay
  towards a direction that is blocked at that moment.
\<close>

theorem energized_only_if_permitted:
  assumes "reachable tu g" "gate_react tu w g = Some g'" "relay_on g' d"
  shows "blocked (controls g') d = None"
  by (rule react_permitted [OF reachable_ok [OF assms(1)] assms(2,3)])

text \<open>A closing gate whose barrier 2 is interrupted in mid travel.\<close>

definition gate_interrupted :: gate where
  "gate_interrupted = the (play mhz_clock [Elapse 2000000, Input (DoBarrier2 True)] gate_closing)"

lemma gate_interrupted_plays:
  "play mhz_clock [Elapse 2000000, Input (DoBarrier2 True)] gate_closing = Some gate_interrupted"
  by (simp add: gate_interrupted_def)

lemma gate_interrupted_reachable: "reachable mhz_clock gate_interrupted"
  by (rule play_reachable [OF gate_interrupted_plays gate_closing_reachable])

lemma gate_interrupted_facts:
  "relay_on gate_interrupted Closing" "blocked (controls gate_interrupted) Closing \<noteq> None"
  "barrier_changed (controls gate_interrupted) \<noteq> None"
  by (simp_all cong: eval_cong add: gate_interrupted_def demo_defs relay_on_def relay_def)

theorem blocked_movement_stops_witness:
  "relay_on gate_interrupted Closing \<and> (\<exists>g'. poll_gate mhz_clock gate_interrupted = Some g'
      \<and> \<not> relay_on g' Opening \<and> \<not> relay_on g' Closing)"
  using blocked_movement_stops [OF gate_interrupted_reachable gate_interrupted_facts(1,2)]
    gate_interrupted_facts(1) poll_gate_react by blast

theorem energized_only_if_permitted_witness:
  "\<exists>g'. gate_react mhz_clock TimerFired (gate_opening\<lparr>dev := clock_advance 3000000 (dev gate_opening)\<rparr>)
      = Some g' \<and> relay_on g' Opening \<and> blocked (controls g') Opening = None"
proof -
  let ?g = "gate_opening\<lparr>dev := clock_advance 3000000 (dev gate_opening)\<rparr>"
  have r: "reachable mhz_clock ?g"
    by (rule act_reachable [OF _ gate_opening_reachable, where x = "Elapse 3000000"]) simp
  obtain g' where g': "gate_react mhz_clock TimerFired ?g = Some g'"
    by (simp add: gate_react_def gate_opening_task)
  moreover have "relay_on g' Opening"
    using g' by (auto cong: eval_cong simp: demo_defs relay_on_def relay_def)
  ultimately show ?thesis
    using energized_only_if_permitted [OF r g'] by blast
qed

text \<open>
  C10. While the wind lock is engaged, open, close, stop and impulse requests
  leave the shared state untouched, the command slot holds an open or nothing,
  and no reaction of the gate task energizes a close relay, not even with the
  barrier bypass armed.
\<close>

theorem wind_lock_holds:
  assumes "reachable tu g" "wind_locked (controls g)"
  shows "(\<forall>op \<in> {DoOpen, DoClose, DoStop, DoImpulse}. control_exec op (controls g) = controls g)
    \<and> command (controls g) \<in> {None, Some Open}
    \<and> (\<forall>w g'. gate_react tu w g = Some g' \<longrightarrow> wind_locked (controls g') \<longrightarrow> \<not> relay_on g' Closing)"
proof (intro conjI allI impI)
  note ok = reachable_ok [OF assms(1)]
  show "\<forall>op \<in> {DoOpen, DoClose, DoStop, DoImpulse}. control_exec op (controls g) = controls g"
    using assms(2) by (simp add: control_defs)
  show "command (controls g) \<in> {None, Some Open}"
    using ok assms(2) by (auto simp: gate_ok_def lock_respected_def)
  show "\<not> relay_on g' Closing" if "gate_react tu w g = Some g'" "wind_locked (controls g')" for w g'
    using react_permitted [OF ok that(1), of Closing] that(2)
    by (auto simp: blocked_def Let_def split: if_splits)
qed

theorem wind_lock_holds_witness:
  "command (controls (firmware_gate mhz_clock 9 9 True)) \<in> {None, Some Open} \<and>
   controls_close (controls (firmware_gate mhz_clock 9 9 True)) = controls (firmware_gate mhz_clock 9 9 True)"
proof -
  have "wind_locked (controls (firmware_gate mhz_clock 9 9 True))" by (simp cong: eval_cong add: run_defs)
  from wind_lock_holds [OF firmware_reachable this] show ?thesis by simp
qed

section \<open>Commands during a movement\<close>

text \<open>
  A stop or an impulse that reaches a running movement ends it at once:
  the same reaction releases every relay, nothing is left to execute, and the
  gate has settled.
\<close>

theorem stop_and_impulse_halt:
  assumes "reachable tu g" "task g = Driving l at"
    and "command (controls g) = Some cmd" "cmd = Stop \<or> cmd = Impulse"
  shows "\<exists>g' snap. gate_react tu CommandReady g = Some g' \<and> task g' = Returned snap \<and> pending g' = None
    \<and> \<not> relay_on g' Opening \<and> \<not> relay_on g' Closing \<and> now (dev g') = now (dev g)"
proof -
  have base: "wired g" "controls_ok (controls g)" "lock_respected (controls g)"
    using reachable_ok [OF assms(1)] by (simp_all add: gate_ok_def)
  let ?g' = "drive_end tu l None (clear_command g)"
  have "cmd \<noteq> command_for (direction_of l)"
    using assms(4) by (cases "direction_of l") auto
  then have "gate_react tu CommandReady g = Some ?g'"
    using assms(2-4) by (auto simp: gate_react_def signal_take_def drive_command_def)
  moreover have "\<not> relay_on ?g' d" for d
    using base by (intro drive_end_off) simp_all
  moreover have "now (dev ?g') = now (dev g)"
    using stop_leaves_wired(4) [of "clear_command g" tu] base by simp
  ultimately show ?thesis by auto
qed

theorem stop_and_impulse_halt_witness:
  "\<exists>g' snap. gate_react mhz_clock CommandReady
       (gate_opening\<lparr>controls := control_exec DoImpulse (controls gate_opening)\<rparr>) = Some g'
     \<and> task g' = Returned snap \<and> \<not> relay_on g' Opening"
proof -
  let ?g = "gate_opening\<lparr>controls := control_exec DoImpulse (controls gate_opening)\<rparr>"
  have "reachable mhz_clock ?g"
    by (rule act_reachable [OF _ gate_opening_reachable, where x = "Input DoImpulse"]) simp
  moreover have "command (controls ?g) = Some Impulse" by (simp cong: eval_cong add: demo_defs)
  ultimately show ?thesis
    using stop_and_impulse_halt [of mhz_clock ?g _ _ Impulse] gate_opening_task by auto
qed

text \<open>
  A command for the opposite direction ends the running movement with
  every relay released and is handed back as the pending command, which the next
  call of \<open>step\<close> executes without waiting for another one.
\<close>

theorem opposite_command_is_executed_next:
  assumes "reachable tu g" "task g = Driving l at" "direction_of l \<noteq> d"
    and "command (controls g) = Some (command_for d)"
  shows "\<exists>g'. gate_react tu CommandReady g = Some g' \<and> pending g' = Some (command_for d)
    \<and> \<not> relay_on g' Opening \<and> \<not> relay_on g' Closing
    \<and> gate_react tu CallStep g' = Some (drive_begin tu d (g'\<lparr>pending := None\<rparr>))"
proof -
  have base: "wired g" "controls_ok (controls g)" "lock_respected (controls g)"
    using reachable_ok [OF assms(1)] by (simp_all add: gate_ok_def)
  let ?g' = "drive_end tu l (Some (command_for d)) (clear_command g)"
  have "command_for d \<noteq> command_for (direction_of l)" "command_for d \<noteq> Stop" "command_for d \<noteq> Impulse"
    using assms(3) by (cases d; cases "direction_of l"; simp)+
  then have "gate_react tu CommandReady g = Some ?g'"
    using assms(2,4) by (simp add: gate_react_def signal_take_def drive_command_def)
  moreover have "\<not> relay_on ?g' d'" for d'
    using base by (intro drive_end_off) simp_all
  moreover have "gate_react tu CallStep ?g' = Some (drive_begin tu d (?g'\<lparr>pending := None\<rparr>))"
    by (cases d) (simp_all add: gate_react_def execute_command_def resolve_impulse_def)
  ultimately show ?thesis by auto
qed

theorem opposite_command_is_executed_next_witness:
  "\<exists>g'. gate_react mhz_clock CommandReady
       (gate_opening\<lparr>controls := control_exec DoClose (controls gate_opening)\<rparr>) = Some g'
     \<and> pending g' = Some Close \<and> \<not> relay_on g' Opening"
proof -
  let ?g = "gate_opening\<lparr>controls := control_exec DoClose (controls gate_opening)\<rparr>"
  have "reachable mhz_clock ?g"
    by (rule act_reachable [OF _ gate_opening_reachable, where x = "Input DoClose"]) simp
  moreover have "command (controls ?g) = Some (command_for Closing)" by (simp cong: eval_cong add: demo_defs)
  ultimately show ?thesis
    using opposite_command_is_executed_next [of mhz_clock ?g _ _ Closing] gate_opening_task by auto
qed

text \<open>
  A further command for the direction in which the gate already moves is
  absorbed: relays, leaf phases, next deadline and pin log stay exactly as they
  are, and so they do when the wind lock is reset during the movement, which
  only announces the new state once.
\<close>

theorem same_direction_does_not_interrupt:
  assumes "reachable tu g" "task g = Driving l at" "now (dev g) < at"
    and "blocked (controls g) (direction_of l) = None"
  shows "(command (controls g) = Some (command_for (direction_of l)) \<longrightarrow>
      gate_react tu CommandReady g = Some (clear_command g))
    \<and> (wind_lock_reset (controls g) \<noteq> None \<longrightarrow>
      gate_react tu ResetReady g = Some (notify (clear_reset g)))"
proof -
  have nd: "next_deadline (a_phase l) (b_phase l) = Some at"
    using reachable_ok [OF assms(1)] assms(2) by (simp add: gate_ok_def task_ok_def)
  have c: "drive_pass tu l (clear_command g) = clear_command g"
    using drive_pass_early [of "clear_command g" l at tu] nd assms(2-4) by (simp add: clear_command_def)
  have r: "drive_pass tu l (notify (clear_reset g)) = notify (clear_reset g)"
    using drive_pass_early [of "notify (clear_reset g)" l at tu] nd assms(2-4)
    by (simp add: clear_reset_def notify_def)
  show ?thesis
    using assms(2) c r
    by (auto simp: gate_react_def signal_take_def drive_command_def split: option.split)
qed

theorem same_direction_does_not_interrupt_witness:
  "gate_react mhz_clock CommandReady
     (gate_opening\<lparr>controls := control_exec DoOpen (controls gate_opening)\<rparr>) =
   Some (clear_command (gate_opening\<lparr>controls := control_exec DoOpen (controls gate_opening)\<rparr>))"
proof -
  let ?g = "gate_opening\<lparr>controls := control_exec DoOpen (controls gate_opening)\<rparr>"
  have r: "reachable mhz_clock ?g"
    by (rule act_reachable [OF _ gate_opening_reachable, where x = "Input DoOpen"]) simp
  have "command (controls ?g) = Some Open" "now (dev ?g) < 3000000" "blocked (controls ?g) Opening = None"
    by (simp_all cong: eval_cong add: demo_defs)
  then show ?thesis
    using same_direction_does_not_interrupt [OF r] gate_opening_task by simp
qed

section \<open>The reverse pause\<close>

definition leaf_pause :: "ticks \<Rightarrow> motor \<Rightarrow> motor \<Rightarrow> bool" where
  "leaf_pause t m m' \<longleftrightarrow> state m' = Idle \<or> m' = m \<or> state m = Idle \<and> ready_at m \<le> t"

definition pause_respected :: "gate \<Rightarrow> gate \<Rightarrow> bool" where
  "pause_respected g g' \<longleftrightarrow>
     leaf_pause (now (dev g)) (leaf_a g) (leaf_a g') \<and> leaf_pause (now (dev g)) (leaf_b g) (leaf_b g')"

lemma leaf_pass_pause:
  assumes "leaf_pass tu d (h, m, ph, mv) = (h', m', ph', mv')" "leaf_phase_ok tu d m ph"
  shows "leaf_pause (now h) m m'"
proof (cases ph)
  case (Waiting t)
  with assms show ?thesis
    by (cases "t \<le> now h") (auto simp: leaf_pass_def leaf_start_pass_def leaf_stop_pass_def leaf_phase_ok_def
        leaf_pause_def)
next
  case (PhaseRunning t)
  with assms show ?thesis
    by (auto simp: leaf_pass_def leaf_start_pass_def leaf_stop_pass_def leaf_pause_def motor_stop_def
        split: if_splits prod.splits dest: motor_settle_state)
qed (use assms in \<open>auto simp: leaf_pass_def leaf_start_pass_def leaf_stop_pass_def leaf_pause_def\<close>)

lemma pause_respected_ended: "wired g \<Longrightarrow> pause_respected g0 (drive_end tu l r g)"
  by (simp add: pause_respected_def leaf_pause_def stop_leaves_wired)

lemma drive_pass_pause:
  assumes "wired g" "locals_ok tu g l"
  shows "pause_respected g (drive_pass tu l g)"
  using assms
proof (cases rule: drive_pass_cases)
  case (continues l' g' at)
  obtain h1 ma pa v1 where a: "leaf_pass tu (direction_of l) (dev g, leaf_a g, a_phase l, moved l) = (h1, ma, pa, v1)"
    by (metis prod_cases4)
  obtain h2 mb pb v2 where b: "leaf_pass tu (direction_of l) (h1, leaf_b g, b_phase l, v1) = (h2, mb, pb, v2)"
    by (metis prod_cases4)
  have "next_deadline pa pb \<noteq> None"
    using continues(1,2) a b by (intro notI) (auto simp: drive_pass_def step_done_def drive_end_def
        Let_def dest!: arg_cong [of _ _ task])
  then have eq: "leaf_a (drive_pass tu l g) = ma" "leaf_b (drive_pass tu l g) = mb"
    using continues(1) a b by (auto simp: drive_pass_def Let_def)
  have "foreign_write (pins (leaf_a g)) (dev g) h1"
    using leaf_pass_facts(4) [OF a] assms by (simp add: wired_def locals_ok_def)
  then have "now h1 = now (dev g)" by (rule foreign_write_now)
  then show ?thesis
    using leaf_pass_pause [OF a] leaf_pass_pause [OF b] assms(2) eq
    by (simp add: pause_respected_def locals_ok_def)
qed (simp_all add: assms pause_respected_ended)

lemma pause_respected_cong:
  "pause_respected g g' \<Longrightarrow> leaf_a g0 = leaf_a g \<Longrightarrow> leaf_b g0 = leaf_b g \<Longrightarrow> now (dev g0) = now (dev g) \<Longrightarrow>
   pause_respected g0 g'"
  by (simp add: pause_respected_def)

lemma pause_respected_same: "leaf_a g' = leaf_a g \<Longrightarrow> leaf_b g' = leaf_b g \<Longrightarrow> pause_respected g g'"
  by (simp add: pause_respected_def leaf_pause_def)

lemma execute_pause:
  assumes "wired g" "state (leaf_a g) = Idle" "state (leaf_b g) = Idle"
  shows "pause_respected g (execute_command tu cmd g)"
proof -
  have "pause_respected g (drive_begin tu d g)" for d
  proof (cases "blocked (controls g) d")
    case None
    have "pause_respected (drive_entry d g) (drive_pass tu (drive_start_locals tu d g) (drive_entry d g))"
      by (rule drive_pass_pause [OF drive_entry_ok [OF assms]])
    then show ?thesis by (simp add: drive_begin_unblocked [OF None] pause_respected_def)
  next
    case (Some r)
    then show ?thesis
      by (intro pause_respected_same) (simp_all add: drive_begin_def step_done_def)
  qed
  moreover have "pause_respected g (step_done None (stop_leaves tu g))"
    using stop_leaves_wired [OF assms(1)] by (simp add: pause_respected_def leaf_pause_def step_done_def)
  ultimately show ?thesis by (simp add: execute_command_def split: gate_command.split)
qed

lemma react_pause:
  assumes "gate_ok tu g" "gate_react tu w g = Some g'"
  shows "pause_respected g g'"
proof -
  have w: "wired g" using assms(1) by (simp add: gate_ok_def)
  have loc: "locals_ok tu g l" if "task g = Driving l at" for l at
    using gate_ok_driving [OF assms(1) that] .
  have rest: "state (leaf_a g) = Idle \<and> state (leaf_b g) = Idle" if "\<nexists>l at. task g = Driving l at"
    using gate_ok_rest [OF assms(1) that] by simp
  from assms(2) show ?thesis
  proof (cases rule: gate_react_cases)
    case (call snap cmd)
    with w rest execute_pause [of "g\<lparr>pending := None\<rparr>" tu cmd] show ?thesis
      by (simp add: pause_respected_def)
  next
    case (command_idle cmd)
    with w rest execute_pause [of "clear_command g" tu cmd] show ?thesis by (simp add: pause_respected_def)
  next
    case (timer l at)
    with w loc drive_pass_pause [of g tu l] show ?thesis by simp
  next
    case (command l at cmd)
    with w loc drive_pass_pause [of "clear_command g" tu l] show ?thesis
      by (simp add: drive_command_def pause_respected_ended) (simp add: pause_respected_def)
  next
    case (barrier l at)
    with w loc drive_pass_pause [of "clear_barrier g" tu l] show ?thesis by (simp add: pause_respected_def)
  next
    case (reset l at)
    with w loc drive_pass_pause [of "notify (clear_reset g)" tu l] show ?thesis
      by (simp add: pause_respected_def)
  qed (simp_all add: pause_respected_same)
qed

lemma leaf_pause_relay:
  assumes "leaf_pause t m m'" "motor_ok h m" "motor_ok h' m'"
    and "\<not> levels h (relay m d)" "levels h' (relay m' d)" "stopped_at m = Some t0"
  shows "t0 + reverse_pause m \<le> t"
  using assms by (auto simp: leaf_pause_def motor_ok_relay ready_at_def)

text \<open>
  C22. The reverse pause: in every reachable state, a step that energizes a relay
  of a leaf happens no earlier than \<open>reverse_pause\<close> after that leaf was last
  stopped, whichever direction it ran in before.
\<close>

theorem reverse_pause_respected:
  assumes "reachable tu g" "gate_step tu g g'" "leaf \<in> {leaf_a, leaf_b}"
    and "\<not> levels (dev g) (relay (leaf g) d)" "levels (dev g') (relay (leaf g') d)"
    and "stopped_at (leaf g) = Some t"
  shows "t + reverse_pause (leaf g) \<le> now (dev g)"
proof -
  note ok = reachable_ok [OF assms(1)]
  have ok': "gate_ok tu g'" by (rule gate_step_ok [OF assms(2) ok])
  have m: "motor_ok (dev g) (leaf g)" "motor_ok (dev g') (leaf g')"
    using ok ok' assms(3) by (auto simp: gate_ok_def wired_def)
  have "pause_respected g g'"
    using assms(2) by (rule gate_stepE) (auto intro: react_pause [OF ok] pause_respected_same)
  then have "leaf_pause (now (dev g)) (leaf g) (leaf g')"
    using assms(3) by (auto simp: pause_respected_def)
  then show ?thesis by (rule leaf_pause_relay [OF _ m assms(4-6)])
qed

text \<open>Leaf A is reversed after five seconds of opening and waits before it closes.\<close>

definition gate_reversing :: gate where
  "gate_reversing = the (play mhz_clock [Elapse 5000000, Input DoClose, Wake CommandReady, Wake CallStep,
     Elapse 3000000] gate_opening)"

lemma gate_reversing_plays:
  "play mhz_clock [Elapse 5000000, Input DoClose, Wake CommandReady, Wake CallStep, Elapse 3000000]
     gate_opening = Some gate_reversing"
  by (simp add: gate_reversing_def) (simp cong: eval_cong add: demo_defs)

theorem reverse_pause_respected_witness:
  "stopped_at (leaf_a gate_reversing) = Some 5000000 \<and>
   5000000 + reverse_pause (leaf_a gate_reversing) \<le> now (dev gate_reversing)"
proof -
  have r: "reachable mhz_clock gate_reversing"
    by (rule play_reachable [OF gate_reversing_plays gate_opening_reachable])
  obtain g' where g': "gate_react mhz_clock TimerFired gate_reversing = Some g'"
      "levels (dev g') (relay (leaf_a g') Closing)"
    by (simp cong: eval_cong add: gate_reversing_def demo_defs relay_def)
  have s: "stopped_at (leaf_a gate_reversing) = Some 5000000"
      "\<not> levels (dev gate_reversing) (relay (leaf_a gate_reversing) Closing)"
    by (simp_all cong: eval_cong add: gate_reversing_def demo_defs relay_def)
  show ?thesis
    using reverse_pause_respected [OF r gate_step.react [OF g'(1)], of leaf_a Closing] g'(2) s by simp
qed

section \<open>The barrier bypass\<close>

lemma drive_pass_bypass:
  assumes "wired g" "locals_ok tu g l" "moved l" "task (drive_pass tu l g) = Returned snap"
  shows "\<not> barrier_bypass (controls (drive_pass tu l g))"
  using assms(1,2)
proof (cases rule: drive_pass_cases)
  case (finished l' g')
  with assms(3) show ?thesis by simp
qed (use assms(3,4) in simp_all)



text \<open>
  A command for an end position the gate is already in moves nothing: no
  relay switches, the gate settles at once, and an armed bypass stays armed.
\<close>

theorem nothing_to_move_keeps_bypass:
  assumes "state (leaf_a g) = Idle" "state (leaf_b g) = Idle"
    and "remaining (leaf_a g) d = 0" "remaining (leaf_b g) d = 0"
  shows "switches (dev (drive_begin tu d g)) = switches (dev g)
    \<and> barrier_bypass (controls (drive_begin tu d g)) = barrier_bypass (controls g)
    \<and> task (drive_begin tu d g) = Returned (take_snapshot g)"
proof (cases "blocked (controls g) d")
  case None
  have noop: "leaf_pass tu d (h, m, Done, False) = (h, m, Done, False)" for h m
    by (rule leaf_pass_early) (simp add: deadline_def)
  have stop: "stop_leaves tu g' = g'" if "state (leaf_a g') = Idle" "state (leaf_b g') = Idle" for g'
    using that by (simp add: stop_leaves_def motor_stop_def)
  have "drive_begin tu d g = drive_end tu (drive_start_locals tu d g) None (drive_entry d g)"
    using None assms(3,4)
    by (simp add: drive_begin_unblocked drive_pass_def drive_start_locals_def plan_def noop
        next_deadline_def deadline_def blocked_cong [of "set_direction d (controls g)" "controls g"])
      (simp add: drive_end_def step_done_def gate_settle_def notify_def take_snapshot_def
        stop_leaves_def motor_stop_def assms drive_entry_def)
  then show ?thesis
    using assms(1,2) stop [of "drive_entry d g"]
    by (simp add: drive_start_locals_def take_snapshot_def)
qed (simp add: drive_begin_def step_done_def take_snapshot_def)

theorem nothing_to_move_keeps_bypass_witness:
  "barrier_bypass (controls (drive_begin mhz_clock Opening
     ((firmware_gate mhz_clock 255 255 False)\<lparr>controls := Controls_new\<lparr>barrier_bypass := True\<rparr>\<rparr>)))"
  using nothing_to_move_keeps_bypass
    [of "(firmware_gate mhz_clock 255 255 False)\<lparr>controls := Controls_new\<lparr>barrier_bypass := True\<rparr>\<rparr>"
      Opening mhz_clock]
  by (simp cong: eval_cong add: run_defs)

section \<open>Impulses\<close>

text \<open>
  What a push button press means while the gate stands still: open if both
  leaves are closed, close if both are open, otherwise the opposite of the last
  movement's direction; it never stays an impulse.
\<close>

theorem impulse_at_rest:
  assumes "reachable tu g" "\<nexists>l at. task g = Driving l at"
  shows "resolve_impulse (controls g) Impulse =
    (if position (leaf_a g) = 0 \<and> position (leaf_b g) = 0 then Open
     else if position (leaf_a g) = 255 \<and> position (leaf_b g) = 255 then Close
     else if last_direction (controls g) = DIR_OPENING then Close else Open)"
proof -
  have "position_class (controls g) = classify (take_snapshot g)"
    using reachable_ok [OF assms(1)] assms(2)
    by (auto simp: gate_ok_def task_ok_def at_rest_def split: gate_task.splits)
  then show ?thesis
    by (simp add: resolve_impulse_def classify_def take_snapshot_def pos_codes)
qed

theorem impulse_at_rest_witness:
  "resolve_impulse (controls (firmware_gate mhz_clock 255 255 False)) Impulse = Close"
  using impulse_at_rest [OF firmware_reachable [of mhz_clock 255 255 False]] by (simp cong: eval_cong add: run_defs)

end
