(* ===== verification/Bytes.thy ===== *)
theory Bytes
  imports Prelude
begin

text \<open>
  Byte slices, strings and fallible code as Rust has them. A slice is a list of
  bytes; \<open>get\<close> is fallible and indexing panics, and the two are told apart: an
  \<open>outcome\<close> is a value, an error value or a panic. A \<open>str\<close> is the list of its
  UTF-8 bytes; \<open>from_utf8\<close> accepts exactly the byte sequences of RFC 3629.
  Code that writes into a \<open>&mut [u8]\<close> is a \<open>writer\<close>, a function of the buffer that
  returns its outcome together with the buffer as it leaves it.
\<close>

unbundle bit_operations_syntax

section \<open>Outcomes\<close>

datatype ('e, 'a) outcome = Ok 'a | Err 'e | Panic

primrec and_then :: "('e, 'a) outcome \<Rightarrow> ('a \<Rightarrow> ('e, 'b) outcome) \<Rightarrow> ('e, 'b) outcome" where
  "and_then (Ok v) f = f v"
| "and_then (Err e) f = Err e"
| "and_then Panic f = Panic"

definition ok_or :: "'a option \<Rightarrow> 'e \<Rightarrow> ('e, 'a) outcome" where
  "ok_or x e = (case x of Some v \<Rightarrow> Ok v | None \<Rightarrow> Err e)"

text \<open>Indexing and \<open>unwrap\<close>: absence is a panic.\<close>

definition or_panic :: "'a option \<Rightarrow> ('e, 'a) outcome" where
  "or_panic x = (case x of Some v \<Rightarrow> Ok v | None \<Rightarrow> Panic)"

lemma ok_or_simps [simp]: "ok_or (Some v) e = Ok v" "ok_or None e = Err e"
  by (simp_all add: ok_or_def)

lemma or_panic_simps [simp]: "or_panic (Some v) = Ok v" "or_panic None = Panic"
  by (simp_all add: or_panic_def)

lemma and_then_Ok_iff: "and_then x f = Ok v \<longleftrightarrow> (\<exists>u. x = Ok u \<and> f u = Ok v)"
  by (cases x) auto

lemma and_then_assoc: "and_then (and_then x f) g = and_then x (\<lambda>v. and_then (f v) g)"
  by (cases x) auto

section \<open>Slices\<close>

definition get :: "'a list \<Rightarrow> nat \<Rightarrow> 'a option" where
  "get xs i = (if i < length xs then Some (xs ! i) else None)"

definition get_range :: "'a list \<Rightarrow> nat \<Rightarrow> nat \<Rightarrow> 'a list option" where
  "get_range xs a b = (if a \<le> b \<and> b \<le> length xs then Some (take (b - a) (drop a xs)) else None)"

definition get_from :: "'a list \<Rightarrow> nat \<Rightarrow> 'a list option" where
  "get_from xs a = (if a \<le> length xs then Some (drop a xs) else None)"

lemma get_append [simp]: "get (xs @ ys) (length xs + i) = get ys i"
  by (simp add: get_def)

lemma get_append0 [simp]: "get (xs @ y # ys) (length xs) = Some y"
  by (simp add: get_def)

lemma get_Cons_0 [simp]: "get (x # xs) 0 = Some x"
  by (simp add: get_def)

lemma get_Cons_Suc [simp]: "get (x # xs) (Suc i) = get xs i"
  by (simp add: get_def)

lemma get_Nil [simp]: "get [] i = None"
  by (simp add: get_def)

lemma get_range_append [simp]:
  "get_range (xs @ ys @ zs) (length xs) (length xs + length ys) = Some ys"
  by (simp add: get_range_def)

lemma get_range_middle:
  "length xs = a \<Longrightarrow> length ys = n \<Longrightarrow> get_range (xs @ ys @ zs) a (a + n) = Some ys"
  using get_range_append [of xs ys zs] by simp

lemma get_from_append [simp]: "get_from (xs @ ys) (length xs) = Some ys"
  by (simp add: get_from_def)

section \<open>Strings\<close>

type_synonym str = bytes

definition lit :: "string \<Rightarrow> str" where
  "lit s = map of_char s"

lemma unat_of_char_u8: "unat (of_char c :: u8) = of_char c"
proof -
  have "(of_char c :: u8) = of_nat (of_char c)" by (simp add: of_nat_of_char)
  moreover have "of_char c \<le> (255::nat)" using nat_of_char_less_256 [of c] by linarith
  ultimately show ?thesis by (simp add: unat_of_nat_u8)
qed

lemma of_char_u8_inj: "inj (of_char :: char \<Rightarrow> u8)"
  by (rule injI) (metis unat_of_char_u8 of_char_eq_iff)

lemma lit_eq_iff [simp]: "lit s = lit t \<longleftrightarrow> s = t"
  by (simp add: lit_def inj_map_eq_map [OF of_char_u8_inj])

lemma length_lit [simp]: "length (lit s) = length s"
  by (simp add: lit_def)

lemma lit_Nil [simp]: "lit [] = []"
  by (simp add: lit_def)

lemma lit_append: "lit (s @ t) = lit s @ lit t"
  by (simp add: lit_def)

section \<open>UTF-8\<close>

definition in_range :: "u8 \<Rightarrow> u8 \<Rightarrow> u8 \<Rightarrow> bool" where
  "in_range lo hi b \<longleftrightarrow> lo \<le> b \<and> b \<le> hi"

text \<open>A continuation byte.\<close>

abbreviation cont :: "u8 \<Rightarrow> bool" where
  "cont \<equiv> in_range 0x80 0xBF"

text \<open>
  The well-formed sequences: no overlong forms, no surrogates, nothing above
  \<open>U+10FFFF\<close>. \<open>utf8_char\<close> is the length of the character at the front of the list.
\<close>

fun utf8_char :: "bytes \<Rightarrow> nat option" where
  "utf8_char [] = None"
| "utf8_char (b # bs) =
     (if b < 0x80 then Some 1
      else if in_range 0xC2 0xDF b then (case bs of b1 # _ \<Rightarrow> if cont b1 then Some 2 else None | _ \<Rightarrow> None)
      else if in_range 0xE0 0xEF b then
        (case bs of
           b1 # b2 # _ \<Rightarrow>
             if (if b = 0xE0 then in_range 0xA0 0xBF b1 else if b = 0xED then in_range 0x80 0x9F b1 else cont b1)
               \<and> cont b2 then Some 3 else None
         | _ \<Rightarrow> None)
      else if in_range 0xF0 0xF4 b then
        (case bs of
           b1 # b2 # b3 # _ \<Rightarrow>
             if (if b = 0xF0 then in_range 0x90 0xBF b1 else if b = 0xF4 then in_range 0x80 0x8F b1 else cont b1)
               \<and> cont b2 \<and> cont b3 then Some 4 else None
         | _ \<Rightarrow> None)
      else None)"

lemma utf8_char_pos: "utf8_char bs = Some n \<Longrightarrow> 0 < n \<and> n \<le> length bs"
  by (cases bs) (auto split: if_splits list.splits)

function utf8_valid :: "bytes \<Rightarrow> bool" where
  "utf8_valid bs = (bs = [] \<or> (case utf8_char bs of None \<Rightarrow> False | Some n \<Rightarrow> utf8_valid (drop n bs)))"
  by auto
termination by (relation "measure length") (auto dest!: utf8_char_pos)

declare utf8_valid.simps [simp del]

definition from_utf8 :: "bytes \<Rightarrow> str option" where
  "from_utf8 bs = (if utf8_valid bs then Some bs else None)"

lemma utf8_valid_Nil [simp]: "utf8_valid []"
  by (subst utf8_valid.simps) simp

lemma utf8_char_append: "utf8_char bs = Some n \<Longrightarrow> utf8_char (bs @ cs) = Some n"
  by (cases bs) (auto split: if_splits list.splits)

lemma utf8_valid_append: "utf8_valid bs \<Longrightarrow> utf8_valid cs \<Longrightarrow> utf8_valid (bs @ cs)"
proof (induction bs rule: utf8_valid.induct)
  case (1 bs)
  show ?case
  proof (cases "bs = []")
    case False
    then obtain n where n: "utf8_char bs = Some n" "utf8_valid (drop n bs)"
      using 1(2) by (subst (asm) utf8_valid.simps) (auto split: option.splits)
    have "utf8_valid (drop n bs @ cs)" by (rule 1(1) [OF n 1(3)])
    then show ?thesis
      using n(1) utf8_char_pos [OF n(1)] utf8_char_append [OF n(1), of cs]
      by (subst utf8_valid.simps) simp
  qed (use 1 in simp)
qed

lemma utf8_valid_ascii: "\<forall>b\<in>set bs. b < 0x80 \<Longrightarrow> utf8_valid bs"
  by (induction bs) (simp, subst utf8_valid.simps, simp)

section \<open>Big-endian 16-bit numbers\<close>

definition to_be_bytes :: "u16 \<Rightarrow> bytes" where
  "to_be_bytes w = [ucast (drop_bit 8 w), ucast w]"

definition from_be_bytes :: "bytes \<Rightarrow> u16 option" where
  "from_be_bytes bs = (case bs of [hi, lo] \<Rightarrow> Some (push_bit 8 (ucast hi) OR ucast lo) | _ \<Rightarrow> None)"

lemma length_to_be_bytes [simp]: "length (to_be_bytes w) = 2"
  by (simp add: to_be_bytes_def)

lemma be_bytes_roundtrip [simp]: "from_be_bytes (to_be_bytes w) = Some w"
proof -
  have "push_bit 8 (ucast (ucast (drop_bit 8 w) :: u8)) OR ucast (ucast w :: u8) = w"
    by (rule bit_word_eqI) (auto simp: bit_simps)
  then show ?thesis by (simp add: to_be_bytes_def from_be_bytes_def)
qed

lemma unat_u16_of_nat: "n \<le> 65535 \<Longrightarrow> unat (of_nat n :: u16) = n"
  by (simp add: unat_of_nat)

section \<open>Writing into a buffer\<close>

type_synonym ('e, 'a) writer = "bytes \<Rightarrow> ('e, 'a) outcome \<times> bytes"

definition ret :: "'a \<Rightarrow> ('e, 'a) writer" where
  "ret v b = (Ok v, b)"

definition fail :: "'e \<Rightarrow> ('e, 'a) writer" where
  "fail e b = (Err e, b)"

definition seq :: "('e, 'a) writer \<Rightarrow> ('a \<Rightarrow> ('e, 'b) writer) \<Rightarrow> ('e, 'b) writer" where
  "seq m f b =
     (case m b of
        (Ok v, b') \<Rightarrow> f v b'
      | (Err e, b') \<Rightarrow> (Err e, b')
      | (Panic, b') \<Rightarrow> (Panic, b'))"

text \<open>\<open>buf[i] = v\<close> and \<open>buf[a..a + n].copy_from_slice(xs)\<close> panic outside the buffer.\<close>

definition overwrite :: "nat \<Rightarrow> bytes \<Rightarrow> bytes \<Rightarrow> bytes" where
  "overwrite a xs b = take a b @ xs @ drop (a + length xs) b"

definition put :: "nat \<Rightarrow> u8 \<Rightarrow> ('e, unit) writer" where
  "put i v b = (if i < length b then (Ok (), b[i := v]) else (Panic, b))"

definition put_slice :: "nat \<Rightarrow> bytes \<Rightarrow> ('e, unit) writer" where
  "put_slice a xs b = (if a + length xs \<le> length b then (Ok (), overwrite a xs b) else (Panic, b))"

text \<open>The same through \<open>get_mut\<close>, with an error value instead of the panic.\<close>

definition try_put :: "'e \<Rightarrow> nat \<Rightarrow> u8 \<Rightarrow> ('e, unit) writer" where
  "try_put e i v b = (if i < length b then (Ok (), b[i := v]) else (Err e, b))"

definition try_put_slice :: "'e \<Rightarrow> nat \<Rightarrow> bytes \<Rightarrow> ('e, unit) writer" where
  "try_put_slice e a xs b = (if a + length xs \<le> length b then (Ok (), overwrite a xs b) else (Err e, b))"

text \<open>Running a writer on the sub-slice \<open>&mut buf[a..]\<close>.\<close>

definition on_tail :: "nat \<Rightarrow> ('e, 'a) writer \<Rightarrow> ('e, 'a) writer" where
  "on_tail a m b =
     (if a \<le> length b then (case m (drop a b) of (r, t) \<Rightarrow> (r, take a b @ t)) else (Panic, b))"

text \<open>\<open>slice::copy_within(from..to, dest)\<close>.\<close>

definition copy_within :: "nat \<Rightarrow> nat \<Rightarrow> nat \<Rightarrow> ('e, unit) writer" where
  "copy_within from to dest b =
     (if from \<le> to \<and> to \<le> length b \<and> dest + (to - from) \<le> length b
      then (Ok (), overwrite dest (take (to - from) (drop from b)) b) else (Panic, b))"

lemma length_overwrite [simp]: "a + length xs \<le> length b \<Longrightarrow> length (overwrite a xs b) = length b"
  by (simp add: overwrite_def)

lemma overwrite_at [simp]:
  "length p = a \<Longrightarrow> length old = length xs \<Longrightarrow> overwrite a xs (p @ old @ s) = p @ xs @ s"
  by (simp add: overwrite_def)

lemma overwrite_overwrite:
  "a + length xs + length ys \<le> length b \<Longrightarrow>
   overwrite (a + length xs) ys (overwrite a xs b) = overwrite a (xs @ ys) b"
  by (simp add: overwrite_def algebra_simps)

lemma drop_overwrite: "a \<le> length b \<Longrightarrow> drop a (overwrite a xs b) = xs @ drop (a + length xs) b"
  by (simp add: overwrite_def)

lemma take_overwrite: "a \<le> length b \<Longrightarrow> take a (overwrite a xs b) = take a b"
  by (simp add: overwrite_def)

lemma on_tail_overwrite:
  "a \<le> length b \<Longrightarrow> m (drop a b) = (r, overwrite 0 xs (drop a b)) \<Longrightarrow>
   on_tail a m b = (r, overwrite a xs b)"
  by (simp add: on_tail_def overwrite_def add.commute)

lemma update_eq_overwrite: "i < length b \<Longrightarrow> b[i := v] = overwrite i [v] b"
  by (simp add: overwrite_def upd_conv_take_nth_drop)

end
