(* ===== verification/AppConfig.thy ===== *)
theory AppConfig
  imports Bytes
begin

text \<open>
  The provisioned configuration (\<open>app-core/src/config.rs\<close>), the setup page
  (\<open>app-core/src/provisioning.rs\<close>) and the handler of a submitted form
  (\<open>src/infra/provisioning_http.rs\<close>). Field values are \<open>str\<close> values, so \<open>len\<close>
  counts bytes as in the source; the page itself is ASCII text, a \<open>string\<close>.
\<close>

definition MAX_SSID_LEN :: nat where "MAX_SSID_LEN = 32"
definition MAX_PSK_LEN :: nat where "MAX_PSK_LEN = 64"
definition MAX_HOST_LEN :: nat where "MAX_HOST_LEN = 128"
definition MAX_CRED_LEN :: nat where "MAX_CRED_LEN = 64"

lemmas limit_defs = MAX_SSID_LEN_def MAX_PSK_LEN_def MAX_HOST_LEN_def MAX_CRED_LEN_def

record AppConfig =
  wifi_ssid :: str
  wifi_password :: str
  mqtt_host :: str
  mqtt_port :: u16
  mqtt_username :: "str option"
  mqtt_password :: "str option"

record SubmittedForm =
  form_ssid :: str
  form_wifi_password :: str
  form_mqtt_host :: str
  form_mqtt_port :: u16
  form_mqtt_username :: str
  form_mqtt_password :: str

definition then_some :: "bool \<Rightarrow> 'a \<Rightarrow> 'a option" where
  "then_some b x = (if b then Some x else None)"

definition into_config :: "SubmittedForm \<Rightarrow> (string, AppConfig) outcome" where
  "into_config f =
     (if form_ssid f = [] then Err ''SSID must not be empty''
      else if MAX_SSID_LEN < length (form_ssid f) then Err ''SSID is too long''
      else if MAX_PSK_LEN < length (form_wifi_password f) then Err ''Wi-Fi password is too long''
      else if form_mqtt_host f = [] then Err ''MQTT host must not be empty''
      else if MAX_HOST_LEN < length (form_mqtt_host f) then Err ''MQTT host is too long''
      else if MAX_CRED_LEN < length (form_mqtt_username f) \<or> MAX_CRED_LEN < length (form_mqtt_password f)
        then Err ''MQTT credentials are too long''
      else Ok \<lparr>wifi_ssid = form_ssid f, wifi_password = form_wifi_password f, mqtt_host = form_mqtt_host f,
        mqtt_port = form_mqtt_port f,
        mqtt_username = then_some (form_mqtt_username f \<noteq> []) (form_mqtt_username f),
        mqtt_password = then_some (form_mqtt_password f \<noteq> []) (form_mqtt_password f)\<rparr>)"

section \<open>The setup page\<close>

text \<open>Decimal formatting of a \<open>usize\<close>.\<close>

fun show_nat :: "nat \<Rightarrow> string" where
  "show_nat n = (if n < 10 then [char_of (48 + n)] else show_nat (n div 10) @ [char_of (48 + n mod 10)])"

definition form_page :: "string option \<Rightarrow> string" where
  "form_page error =
     (let page = ''<!doctype html><html><head><meta charset=\"utf-8\">'' @
            ''<meta name=\"viewport\" content=\"width=device-width, initial-scale=1\">'' @
            ''<title>mqtt_gate setup</title></head><body>'' @
            ''<h1>mqtt_gate setup</h1>'';
          page = (case error of
              Some e \<Rightarrow> page @ ''<p style=\"color:red\">'' @ e @ ''</p>''
            | None \<Rightarrow> page)
      in page @
        ''<form method=\"post\" action=\"/\">'' @
        ''<label>Wi-Fi SSID<br><input name=\"ssid\" required maxlength=\"'' @ show_nat MAX_SSID_LEN @ ''\"></label><br>'' @
        ''<label>Wi-Fi password<br><input name=\"wifi_password\" type=\"password\" maxlength=\"'' @ show_nat MAX_PSK_LEN @ ''\"></label><br>'' @
        ''<label>MQTT host<br><input name=\"mqtt_host\" required maxlength=\"'' @ show_nat MAX_HOST_LEN @ ''\"></label><br>'' @
        ''<label>MQTT port<br><input name=\"mqtt_port\" type=\"number\" value=\"1883\" required></label><br>'' @
        ''<label>MQTT username (optional)<br><input name=\"mqtt_username\" maxlength=\"'' @ show_nat MAX_CRED_LEN @ ''\"></label><br>'' @
        ''<label>MQTT password (optional)<br><input name=\"mqtt_password\" type=\"password\" maxlength=\"'' @ show_nat MAX_CRED_LEN @ ''\"></label><br>'' @
        ''<button type=\"submit\">Save &amp; reboot</button>'' @
        ''</form></body></html>'')"

definition SAVED_PAGE :: string where
  "SAVED_PAGE = ''<!doctype html><html><body><p>Saved. Rebooting into station mode...</p></body></html>''"

section \<open>Handling a submission\<close>

text \<open>\<open>CONFIG_SUBMITTED\<close> is the slot that \<open>main\<close> waits on; the handler answers with a page.\<close>

definition index :: string where
  "index = form_page None"

definition submit :: "SubmittedForm \<Rightarrow> AppConfig signal \<Rightarrow> string \<times> AppConfig signal" where
  "submit form submitted =
     (case into_config form of
        Ok cfg \<Rightarrow> (SAVED_PAGE, signal_set cfg submitted)
      | Err error \<Rightarrow> (form_page (Some error), submitted)
      | Panic \<Rightarrow> ('''', submitted))"

section \<open>Validity\<close>

definition form_valid :: "SubmittedForm \<Rightarrow> bool" where
  "form_valid f \<longleftrightarrow> form_ssid f \<noteq> [] \<and> length (form_ssid f) \<le> 32 \<and> length (form_wifi_password f) \<le> 64 \<and>
     form_mqtt_host f \<noteq> [] \<and> length (form_mqtt_host f) \<le> 128 \<and>
     length (form_mqtt_username f) \<le> 64 \<and> length (form_mqtt_password f) \<le> 64"

text \<open>What the rest of the firmware relies on of a stored configuration.\<close>

definition config_ok :: "AppConfig \<Rightarrow> bool" where
  "config_ok c \<longleftrightarrow> wifi_ssid c \<noteq> [] \<and> length (wifi_ssid c) \<le> 32 \<and> length (wifi_password c) \<le> 64 \<and>
     mqtt_host c \<noteq> [] \<and> length (mqtt_host c) \<le> 128 \<and>
     (case mqtt_username c of None \<Rightarrow> True | Some u \<Rightarrow> u \<noteq> [] \<and> length u \<le> 64) \<and>
     (case mqtt_password c of None \<Rightarrow> True | Some p \<Rightarrow> p \<noteq> [] \<and> length p \<le> 64)"

text \<open>The form that shows a configuration.\<close>

definition form_of :: "AppConfig \<Rightarrow> SubmittedForm" where
  "form_of c = \<lparr>form_ssid = wifi_ssid c, form_wifi_password = wifi_password c, form_mqtt_host = mqtt_host c,
     form_mqtt_port = mqtt_port c,
     form_mqtt_username = (case mqtt_username c of Some u \<Rightarrow> u | None \<Rightarrow> []),
     form_mqtt_password = (case mqtt_password c of Some p \<Rightarrow> p | None \<Rightarrow> [])\<rparr>"

lemma into_config_Ok: "into_config f = Ok c \<longleftrightarrow> form_valid f \<and> form_of c = f \<and> config_ok c"
proof
  assume "into_config f = Ok c"
  then show "form_valid f \<and> form_of c = f \<and> config_ok c"
    by (auto simp: into_config_def form_valid_def form_of_def config_ok_def then_some_def limit_defs
        split: if_splits)
next
  assume a: "form_valid f \<and> form_of c = f \<and> config_ok c"
  then show "into_config f = Ok c"
    by (auto simp: into_config_def form_valid_def form_of_def config_ok_def then_some_def limit_defs
        split: option.splits)
qed

lemma into_config_valid: "form_valid f \<Longrightarrow> \<exists>c. into_config f = Ok c"
  by (auto simp: into_config_def form_valid_def limit_defs)

lemma into_config_Panic [simp]: "into_config f \<noteq> Panic"
  by (simp add: into_config_def)

text \<open>
  A submission is accepted iff all its fields are within the limits, and
  then the stored configuration is the one that this form shows: blank optional
  fields are absent, everything else is unchanged.
\<close>

theorem submission_accepted_iff_valid:
  "(\<exists>c. into_config f = Ok c) = form_valid f \<and>
   (into_config f = Ok c) = (form_valid f \<and> form_of c = f \<and> config_ok c)"
  using into_config_Ok into_config_valid by blast

text \<open>
  The handler signals exactly the accepted configurations: a rejected form
  leaves the slot alone and is answered with the form and the error text, an
  accepted one fills the slot with the configuration that this form shows.
\<close>

theorem submit_outcome:
  "if form_valid f
   then fst (submit f s) = SAVED_PAGE \<and> (\<exists>c. snd (submit f s) = Some c \<and> form_of c = f \<and> config_ok c)
   else snd (submit f s) = s \<and> (\<exists>e. into_config f = Err e \<and> fst (submit f s) = form_page (Some e))"
proof (cases "into_config f")
  case (Ok c)
  then show ?thesis using into_config_Ok [of f c] by (simp add: submit_def)
next
  case (Err e)
  then have "\<not> form_valid f" using into_config_valid [of f] by auto
  with Err show ?thesis by (simp add: submit_def)
qed simp

end
