(* ===== verification/FlashStore.thy ===== *)
theory FlashStore
  imports AppConfig
begin

text \<open>
  The two flash records (\<open>app-core/src/storage.rs\<close>) and the functions that find
  the partition and operate on it (\<open>src/infra/storage.rs\<close>). The log-structured map
  (\<open>sequential_storage\<close>), its value encoding (\<open>postcard\<close>) and the partition table
  are not part of the repository: they are the parameter \<open>flash_ops\<close> over an
  arbitrary flash device, and the documented behaviour the code relies on is the
  locale \<open>flash_store\<close>.
\<close>

definition CONFIG_KEY :: u8 where "CONFIG_KEY = 1"
definition GATE_STATE_KEY :: u8 where "GATE_STATE_KEY = 2"

record GateState =
  state_leaf_a :: u8
  state_leaf_b :: u8
  state_wind_locked :: bool

definition GateState_default :: GateState where
  "GateState_default = \<lparr>state_leaf_a = 0, state_leaf_b = 0, state_wind_locked = False\<rparr>"

text \<open>
  \<open>'d\<close>: flash device, \<open>'p\<close>: partition-table errors, \<open>'x\<close>: errors of the map.
  \<open>find_partition\<close> tells whether the data partition exists; \<open>fetch\<close> of a value that
  does not decode is an error of the map.
\<close>

record ('d, 'p, 'x) flash_ops =
  find_partition :: "'d \<Rightarrow> 'p + bool"
  fetch_item :: "u8 \<Rightarrow> 'd \<Rightarrow> 'x + bytes option"
  store_item :: "u8 \<Rightarrow> bytes \<Rightarrow> 'd \<Rightarrow> ('x + unit) \<times> 'd"
  remove_item :: "u8 \<Rightarrow> 'd \<Rightarrow> ('x + unit) \<times> 'd"
  config_to_bytes :: "AppConfig \<Rightarrow> bytes"
  config_from_bytes :: "bytes \<Rightarrow> 'x + AppConfig"
  state_to_bytes :: "GateState \<Rightarrow> bytes"
  state_from_bytes :: "bytes \<Rightarrow> 'x + GateState"

section \<open>The record map\<close>

definition fetch_as :: "('x + bytes option) \<Rightarrow> (bytes \<Rightarrow> 'x + 'v) \<Rightarrow> ('x, 'v option) outcome" where
  "fetch_as r dec = (case r of
       Inl e \<Rightarrow> Err e
     | Inr None \<Rightarrow> Ok None
     | Inr (Some bs) \<Rightarrow> (case dec bs of Inl e \<Rightarrow> Err e | Inr v \<Rightarrow> Ok (Some v)))"

definition of_sum :: "'x + unit \<Rightarrow> ('x, unit) outcome" where
  "of_sum r = (case r of Inl e \<Rightarrow> Err e | Inr _ \<Rightarrow> Ok ())"

definition load_config :: "('d, 'p, 'x) flash_ops \<Rightarrow> 'd \<Rightarrow> ('x, AppConfig option) outcome" where
  "load_config fo d = fetch_as (fetch_item fo CONFIG_KEY d) (config_from_bytes fo)"

definition save_config :: "('d, 'p, 'x) flash_ops \<Rightarrow> AppConfig \<Rightarrow> 'd \<Rightarrow> ('x, unit) outcome \<times> 'd" where
  "save_config fo cfg d = map_prod of_sum id (store_item fo CONFIG_KEY (config_to_bytes fo cfg) d)"

definition store_load_gate_state :: "('d, 'p, 'x) flash_ops \<Rightarrow> 'd \<Rightarrow> ('x, GateState option) outcome" where
  "store_load_gate_state fo d = fetch_as (fetch_item fo GATE_STATE_KEY d) (state_from_bytes fo)"

definition store_save_gate_state :: "('d, 'p, 'x) flash_ops \<Rightarrow> GateState \<Rightarrow> 'd \<Rightarrow> ('x, unit) outcome \<times> 'd" where
  "store_save_gate_state fo st d = map_prod of_sum id (store_item fo GATE_STATE_KEY (state_to_bytes fo st) d)"

definition erase_config :: "('d, 'p, 'x) flash_ops \<Rightarrow> 'd \<Rightarrow> ('x, unit) outcome \<times> 'd" where
  "erase_config fo d = map_prod of_sum id (remove_item fo CONFIG_KEY d)"

section \<open>The partition\<close>

datatype ('p, 'x) StorageError = Partition 'p | PartitionNotFound | Storage 'x

definition open_store :: "('d, 'p, 'x) flash_ops \<Rightarrow> 'd \<Rightarrow> (('p, 'x) StorageError, unit) outcome" where
  "open_store fo d =
     (case find_partition fo d of
        Inl e \<Rightarrow> Err (Partition e)
      | Inr found \<Rightarrow> if found then Ok () else Err PartitionNotFound)"

text \<open>\<open>inspect_err(..).ok()\<close> and \<open>flatten\<close>: every failure reads as an absent record.\<close>

primrec ok :: "('e, 'a) outcome \<Rightarrow> 'a option" where
  "ok (Ok v) = Some v"
| "ok (Err e) = None"
| "ok Panic = None"

definition flatten :: "'a option option \<Rightarrow> 'a option" where
  "flatten x = (case x of Some (Some v) \<Rightarrow> Some v | _ \<Rightarrow> None)"

definition load :: "('d, 'p, 'x) flash_ops \<Rightarrow> 'd \<Rightarrow> AppConfig option" where
  "load fo d = (case ok (open_store fo d) of None \<Rightarrow> None | Some _ \<Rightarrow> flatten (ok (load_config fo d)))"

definition load_gate_state :: "('d, 'p, 'x) flash_ops \<Rightarrow> 'd \<Rightarrow> GateState option" where
  "load_gate_state fo d =
     (case ok (open_store fo d) of None \<Rightarrow> None | Some _ \<Rightarrow> flatten (ok (store_load_gate_state fo d)))"

primrec storage_err :: "('x, unit) outcome \<Rightarrow> (('p, 'x) StorageError, unit) outcome" where
  "storage_err (Ok v) = Ok v"
| "storage_err (Err e) = Err (Storage e)"
| "storage_err Panic = Panic"

definition on_store ::
  "('d, 'p, 'x) flash_ops \<Rightarrow> ('d \<Rightarrow> ('x, unit) outcome \<times> 'd) \<Rightarrow> 'd \<Rightarrow> (('p, 'x) StorageError, unit) outcome \<times> 'd" where
  "on_store fo act d =
     (case open_store fo d of
        Ok _ \<Rightarrow> map_prod storage_err id (act d)
      | Err e \<Rightarrow> (Err e, d)
      | Panic \<Rightarrow> (Panic, d))"

definition save :: "('d, 'p, 'x) flash_ops \<Rightarrow> AppConfig \<Rightarrow> 'd \<Rightarrow> (('p, 'x) StorageError, unit) outcome \<times> 'd" where
  "save fo cfg = on_store fo (save_config fo cfg)"

definition save_gate_state ::
  "('d, 'p, 'x) flash_ops \<Rightarrow> GateState \<Rightarrow> 'd \<Rightarrow> (('p, 'x) StorageError, unit) outcome \<times> 'd" where
  "save_gate_state fo st = on_store fo (store_save_gate_state fo st)"

definition erase :: "('d, 'p, 'x) flash_ops \<Rightarrow> 'd \<Rightarrow> (('p, 'x) StorageError, unit) outcome \<times> 'd" where
  "erase fo = on_store fo (erase_config fo)"

section \<open>What the flash libraries promise\<close>

text \<open>
  A successful store or removal changes the item of that key and no other, and
  leaves the partition table alone; the value encoding can be decoded again.
  Nothing is promised of a store that fails.
\<close>

locale flash_store =
  fixes fo :: "('d, 'p, 'x) flash_ops"
  assumes store_fetch: "store_item fo k v d = (Inr (), d') \<Longrightarrow>
      fetch_item fo k' d' = (if k' = k then Inr (Some v) else fetch_item fo k' d)"
    and remove_fetch: "remove_item fo k d = (Inr (), d') \<Longrightarrow>
      fetch_item fo k' d' = (if k' = k then Inr None else fetch_item fo k' d)"
    and store_partition: "store_item fo k v d = (Inr (), d') \<Longrightarrow> find_partition fo d' = find_partition fo d"
    and remove_partition: "remove_item fo k d = (Inr (), d') \<Longrightarrow> find_partition fo d' = find_partition fo d"
    and config_codec: "config_from_bytes fo (config_to_bytes fo cfg) = Inr cfg"
    and state_codec: "state_from_bytes fo (state_to_bytes fo st) = Inr st"
begin

lemma keys_differ: "CONFIG_KEY \<noteq> GATE_STATE_KEY" "GATE_STATE_KEY \<noteq> CONFIG_KEY"
  by (simp_all add: CONFIG_KEY_def GATE_STATE_KEY_def)

lemma on_store_Ok:
  "on_store fo act d = (Ok (), d') \<longleftrightarrow> open_store fo d = Ok () \<and> act d = (Ok (), d')"
proof (cases "act d")
  case (Pair r d2)
  then show ?thesis by (cases r; cases "open_store fo d") (auto simp: on_store_def)
qed

lemma opened: "open_store fo d = Ok () \<longleftrightarrow> find_partition fo d = Inr True"
  by (auto simp: open_store_def split: sum.splits if_splits)

lemma saved_config:
  assumes "save fo cfg d = (Ok (), d')"
  shows "load fo d' = Some cfg" "load_gate_state fo d' = load_gate_state fo d"
proof -
  have s: "store_item fo CONFIG_KEY (config_to_bytes fo cfg) d = (Inr (), d')" and o: "open_store fo d = Ok ()"
    using assms by (auto simp: save_def on_store_Ok save_config_def of_sum_def map_prod_def split: prod.splits sum.splits)
  have o': "open_store fo d' = Ok ()" using o store_partition [OF s] by (simp add: opened)
  show "load fo d' = Some cfg"
    by (simp add: load_def o' load_config_def store_fetch [OF s] fetch_as_def config_codec flatten_def)
  show "load_gate_state fo d' = load_gate_state fo d"
    by (simp add: load_gate_state_def o o' store_load_gate_state_def store_fetch [OF s] keys_differ)
qed

lemma saved_gate_state:
  assumes "save_gate_state fo st d = (Ok (), d')"
  shows "load_gate_state fo d' = Some st" "load fo d' = load fo d"
proof -
  have s: "store_item fo GATE_STATE_KEY (state_to_bytes fo st) d = (Inr (), d')" and o: "open_store fo d = Ok ()"
    using assms by (auto simp: save_gate_state_def on_store_Ok store_save_gate_state_def of_sum_def map_prod_def
        split: prod.splits sum.splits)
  have o': "open_store fo d' = Ok ()" using o store_partition [OF s] by (simp add: opened)
  show "load_gate_state fo d' = Some st"
    by (simp add: load_gate_state_def o' store_load_gate_state_def store_fetch [OF s] fetch_as_def state_codec flatten_def)
  show "load fo d' = load fo d"
    by (simp add: load_def o o' load_config_def store_fetch [OF s] keys_differ)
qed

lemma erased_config:
  assumes "erase fo d = (Ok (), d')"
  shows "load fo d' = None" "load_gate_state fo d' = load_gate_state fo d"
proof -
  have s: "remove_item fo CONFIG_KEY d = (Inr (), d')" and o: "open_store fo d = Ok ()"
    using assms by (auto simp: erase_def on_store_Ok erase_config_def of_sum_def map_prod_def split: prod.splits sum.splits)
  have o': "open_store fo d' = Ok ()" using o remove_partition [OF s] by (simp add: opened)
  show "load fo d' = None"
    by (simp add: load_def o' load_config_def remove_fetch [OF s] fetch_as_def flatten_def)
  show "load_gate_state fo d' = load_gate_state fo d"
    by (simp add: load_gate_state_def o o' store_load_gate_state_def remove_fetch [OF s] keys_differ)
qed

end

section \<open>A simulated flash\<close>

text \<open>
  A device that keeps its items in memory, as the host tests do: the partition
  may be missing and items beyond the work buffer are refused. Its value
  encoding marks every byte of a string and ends it with a zero.
\<close>

record ram =
  has_partition :: bool
  items :: "u8 \<Rightarrow> bytes option"

definition put_str :: "str \<Rightarrow> bytes" where
  "put_str s = concat (map (\<lambda>b. [1, b]) s) @ [0]"

fun take_str :: "bytes \<Rightarrow> (str \<times> bytes) option" where
  "take_str (x # xs) =
     (if x = 0 then Some ([], xs)
      else (case xs of [] \<Rightarrow> None | b # ys \<Rightarrow> map_option (map_prod (Cons b) id) (take_str ys)))"
| "take_str [] = None"

lemma take_put_str [simp]: "take_str (put_str s @ rest) = Some (s, rest)"
  by (induction s) (simp_all add: put_str_def)

definition put_opt :: "str option \<Rightarrow> bytes" where
  "put_opt x = (case x of None \<Rightarrow> [0] | Some s \<Rightarrow> 1 # put_str s)"

definition take_opt :: "bytes \<Rightarrow> (str option \<times> bytes) option" where
  "take_opt bs = (case bs of [] \<Rightarrow> None
     | x # xs \<Rightarrow> if x = 0 then Some (None, xs) else map_option (map_prod Some id) (take_str xs))"

lemma take_put_opt [simp]: "take_opt (put_opt x @ rest) = Some (x, rest)"
  by (cases x) (simp_all add: put_opt_def take_opt_def)

definition ram_config_to_bytes :: "AppConfig \<Rightarrow> bytes" where
  "ram_config_to_bytes c = put_str (wifi_ssid c) @ put_str (wifi_password c) @ put_str (mqtt_host c) @
     put_opt (mqtt_username c) @ put_opt (mqtt_password c) @ to_be_bytes (mqtt_port c)"

definition ram_config_from_bytes :: "bytes \<Rightarrow> string + AppConfig" where
  "ram_config_from_bytes bs =
     (case take_str bs of None \<Rightarrow> Inl ''ssid'' | Some (ssid, bs) \<Rightarrow>
      case take_str bs of None \<Rightarrow> Inl ''psk'' | Some (psk, bs) \<Rightarrow>
      case take_str bs of None \<Rightarrow> Inl ''host'' | Some (host, bs) \<Rightarrow>
      case take_opt bs of None \<Rightarrow> Inl ''user'' | Some (user, bs) \<Rightarrow>
      case take_opt bs of None \<Rightarrow> Inl ''pass'' | Some (pass, bs) \<Rightarrow>
      case from_be_bytes bs of None \<Rightarrow> Inl ''port'' | Some port \<Rightarrow>
        Inr \<lparr>wifi_ssid = ssid, wifi_password = psk, mqtt_host = host, mqtt_port = port,
          mqtt_username = user, mqtt_password = pass\<rparr>)"

definition ram_state_from_bytes :: "bytes \<Rightarrow> string + GateState" where
  "ram_state_from_bytes bs = (case bs of
     [a, b, l] \<Rightarrow> Inr \<lparr>state_leaf_a = a, state_leaf_b = b, state_wind_locked = (l \<noteq> 0)\<rparr> | _ \<Rightarrow> Inl ''state'')"

definition ram_ops :: "(ram, string, string) flash_ops" where
  "ram_ops = \<lparr>find_partition = (\<lambda>d. Inr (has_partition d)),
     fetch_item = (\<lambda>k d. Inr (items d k)),
     store_item = (\<lambda>k v d. if 500 < length v then (Inl ''too big'', d)
                           else (Inr (), d\<lparr>items := (items d)(k \<mapsto> v)\<rparr>)),
     remove_item = (\<lambda>k d. (Inr (), d\<lparr>items := (items d)(k := None)\<rparr>)),
     config_to_bytes = ram_config_to_bytes, config_from_bytes = ram_config_from_bytes,
     state_to_bytes = (\<lambda>s. [state_leaf_a s, state_leaf_b s, of_bool (state_wind_locked s)]),
     state_from_bytes = ram_state_from_bytes\<rparr>"

lemma ram_config_codec: "ram_config_from_bytes (ram_config_to_bytes c) = Inr c"
  by (simp add: ram_config_from_bytes_def ram_config_to_bytes_def)

interpretation ram_store: flash_store ram_ops
  by unfold_locales
    (auto simp: ram_ops_def ram_config_codec ram_state_from_bytes_def split: if_splits)

definition blank_ram :: ram where
  "blank_ram = \<lparr>has_partition = True, items = (\<lambda>_. None)\<rparr>"

text \<open>
  The two records are independent and durable: a successful save is what
  the next boot loads, and neither saving one record nor erasing the
  configuration touches the other one.
\<close>

theorem flash_records_independent:
  assumes "flash_store fo"
  shows "(save fo cfg d = (Ok (), d') \<longrightarrow> load fo d' = Some cfg \<and> load_gate_state fo d' = load_gate_state fo d) \<and>
    (save_gate_state fo st d = (Ok (), d') \<longrightarrow> load_gate_state fo d' = Some st \<and> load fo d' = load fo d) \<and>
    (erase fo d = (Ok (), d') \<longrightarrow> load fo d' = None \<and> load_gate_state fo d' = load_gate_state fo d)"
  using flash_store.saved_config [OF assms] flash_store.saved_gate_state [OF assms]
    flash_store.erased_config [OF assms] by blast

lemma ram_saves:
  "save_gate_state ram_ops \<lparr>state_leaf_a = 3, state_leaf_b = 9, state_wind_locked = True\<rparr> blank_ram =
     (Ok (), blank_ram\<lparr>items := [GATE_STATE_KEY \<mapsto> [3, 9, 1]]\<rparr>)"
  by (simp add: save_gate_state_def on_store_def open_store_def store_save_gate_state_def ram_ops_def blank_ram_def
      of_sum_def)

theorem flash_records_independent_witness:
  "load_gate_state ram_ops (blank_ram\<lparr>items := [GATE_STATE_KEY \<mapsto> [3, 9, 1]]\<rparr>)
     = Some \<lparr>state_leaf_a = 3, state_leaf_b = 9, state_wind_locked = True\<rparr>"
  using flash_records_independent [OF ram_store.flash_store_axioms] ram_saves by blast

text \<open>
  A boot without a usable configuration provisions: whatever is wrong with
  the partition, the item or its encoding, \<open>load\<close> answers that nothing is stored.
\<close>

theorem load_total_on_failure:
  "load fo d = (if find_partition fo d = Inr True
     then (case fetch_item fo CONFIG_KEY d of
             Inr (Some bs) \<Rightarrow> (case config_from_bytes fo bs of Inr cfg \<Rightarrow> Some cfg | Inl _ \<Rightarrow> None)
           | _ \<Rightarrow> None)
     else None)"
  by (auto simp: load_def open_store_def load_config_def fetch_as_def flatten_def split: sum.splits option.splits)

end
