(* ===== verification/MqttUtil.thy ===== *)
theory MqttUtil
  imports Bytes
begin

text \<open>
  The wire-level helpers of the MQTT client (\<open>vendor/mqtt-async-embedded/src/util.rs\<close>)
  and its error types (\<open>error.rs\<close>): variable-byte integers, length-prefixed
  strings and binary data, and the framing of packets in a byte stream. The loops
  are the loops of the source; \<open>vbi\<close> is the reference encoding they are compared
  with. \<open>usize\<close> values are natural numbers: every sum in these functions is bounded
  by the length of a buffer plus 268435455.
\<close>

section \<open>Errors\<close>

datatype protocol_error = InvalidPacketType u8 | InvalidResponse | MalformedPacket | PayloadTooLarge
  | InvalidUtf8String

datatype connect_reason = Success | UnacceptableProtocolVersion | IdentifierRejected
  | ServerUnavailable | BadUserNameOrPassword | NotAuthorized | Other u8

definition connect_reason_from :: "u8 \<Rightarrow> connect_reason" where
  "connect_reason_from val =
     (if val = 0 then Success
      else if val = 1 then UnacceptableProtocolVersion
      else if val = 2 then IdentifierRejected
      else if val = 3 then ServerUnavailable
      else if val = 4 then BadUserNameOrPassword
      else if val = 5 then NotAuthorized
      else Other val)"

datatype 'e mqtt_error = Transport 'e | Protocol protocol_error | ConnectionRefused connect_reason
  | NotConnected | BufferTooSmall | Timeout

text \<open>Packet code uses a placeholder for the transport's error type.\<close>

type_synonym perr = "unit mqtt_error"

abbreviation malformed :: "'e mqtt_error" where
  "malformed \<equiv> Protocol MalformedPacket"

primrec cast_transport_error :: "'f mqtt_error \<Rightarrow> ('e mqtt_error, 'a) outcome" where
  "cast_transport_error (Protocol p) = Err (Protocol p)"
| "cast_transport_error (ConnectionRefused c) = Err (ConnectionRefused c)"
| "cast_transport_error NotConnected = Err NotConnected"
| "cast_transport_error BufferTooSmall = Err BufferTooSmall"
| "cast_transport_error Timeout = Err Timeout"
| "cast_transport_error (Transport t) = Panic"

text \<open>\<open>map_err(MqttError::cast_transport_error)\<close>\<close>

primrec cast_err :: "('f mqtt_error, 'a) outcome \<Rightarrow> ('e mqtt_error, 'a) outcome" where
  "cast_err (Ok v) = Ok v"
| "cast_err (Err e) = cast_transport_error e"
| "cast_err Panic = Panic"

section \<open>Variable-byte integers\<close>

function read_vbi_loop :: "bytes \<Rightarrow> nat \<Rightarrow> nat \<Rightarrow> nat \<Rightarrow> nat \<Rightarrow> (perr, nat \<times> nat) outcome" where
  "read_vbi_loop buf cursor i multiplier val =
     and_then (ok_or (get buf (cursor + i)) malformed) (\<lambda>encoded_byte.
       let val = val + unat (encoded_byte AND 127) * multiplier in
       if encoded_byte AND 128 = 0 then Ok (val, cursor + (i + 1))
       else if 4 \<le> i + 1 then Err malformed
       else read_vbi_loop buf cursor (i + 1) (multiplier * 128) val)"
  by auto
termination by (relation "measure (\<lambda>(_, _, i, _, _). 4 - i)") auto

definition read_variable_byte_integer :: "nat \<Rightarrow> bytes \<Rightarrow> (perr, nat \<times> nat) outcome" where
  "read_variable_byte_integer cursor buf = read_vbi_loop buf cursor 0 1 0"

function packet_len_loop :: "bytes \<Rightarrow> nat \<Rightarrow> nat \<Rightarrow> nat \<Rightarrow> (perr, nat option) outcome" where
  "packet_len_loop buf i multiplier remaining_len =
     (if 4 \<le> i then Err malformed
      else case get buf (1 + i) of
        None \<Rightarrow> Ok None
      | Some byte \<Rightarrow>
          let remaining_len = remaining_len + unat (byte AND 127) * multiplier in
          if byte AND 128 = 0
          then let total = 1 + (i + 1) + remaining_len in
               Ok (if total \<le> length buf then Some total else None)
          else packet_len_loop buf (i + 1) (multiplier * 128) remaining_len)"
  by auto
termination by (relation "measure (\<lambda>(_, i, _, _). 4 - i)") auto

definition complete_packet_len :: "bytes \<Rightarrow> (perr, nat option) outcome" where
  "complete_packet_len buf = packet_len_loop buf 0 1 0"

definition vbi_byte :: "nat \<Rightarrow> u8" where
  "vbi_byte val =
     (let encoded_byte = of_nat (val mod 128) in
      if 0 < val div 128 then encoded_byte OR 128 else encoded_byte)"

function write_variable_byte_integer :: "nat \<Rightarrow> nat \<Rightarrow> (perr, nat) writer" where
  "write_variable_byte_integer cursor val =
     seq (try_put BufferTooSmall cursor (vbi_byte val)) (\<lambda>_.
       if val div 128 = 0 then ret (cursor + 1)
       else write_variable_byte_integer (cursor + 1) (val div 128))"
  by auto
termination by (relation "measure snd") auto

function write_vbi_len_loop :: "nat \<Rightarrow> nat \<Rightarrow> (perr, nat) writer" where
  "write_vbi_len_loop i val =
     seq (try_put BufferTooSmall i (vbi_byte val)) (\<lambda>_.
       if val div 128 = 0 then ret (i + 1) else write_vbi_len_loop (i + 1) (val div 128))"
  by auto
termination by (relation "measure snd") auto

definition write_variable_byte_integer_len :: "nat \<Rightarrow> (perr, nat) writer" where
  "write_variable_byte_integer_len val = write_vbi_len_loop 0 val"

section \<open>Strings and binary data\<close>

definition read_len_prefix :: "nat \<Rightarrow> bytes \<Rightarrow> (perr, nat) outcome" where
  "read_len_prefix cursor buf =
     and_then (ok_or (get_range buf cursor (cursor + 2)) malformed) (\<lambda>two.
       and_then (or_panic (from_be_bytes two)) (\<lambda>w. Ok (unat w)))"

definition read_utf8_string :: "nat \<Rightarrow> bytes \<Rightarrow> (perr, str \<times> nat) outcome" where
  "read_utf8_string cursor buf =
     and_then (read_len_prefix cursor buf) (\<lambda>len.
       let cursor = cursor + 2 in
       and_then (ok_or (get_range buf cursor (cursor + len)) malformed) (\<lambda>bs.
         and_then (ok_or (from_utf8 bs) (Protocol InvalidUtf8String)) (\<lambda>s.
           Ok (s, cursor + len))))"

definition read_binary_data :: "nat \<Rightarrow> bytes \<Rightarrow> (perr, bytes \<times> nat) outcome" where
  "read_binary_data cursor buf =
     and_then (read_len_prefix cursor buf) (\<lambda>len.
       let cursor = cursor + 2 in
       and_then (ok_or (get_range buf cursor (cursor + len)) malformed) (\<lambda>bs.
         Ok (bs, cursor + len)))"

definition write_binary_data :: "bytes \<Rightarrow> (perr, nat) writer" where
  "write_binary_data data =
     (let len = length data in
      if 65535 < len then fail (Protocol PayloadTooLarge)
      else let len_bytes = to_be_bytes (of_nat len); required_space = 2 + len in
        seq (try_put_slice BufferTooSmall 0 (len_bytes @ data)) (\<lambda>_. ret required_space))"

definition write_utf8_string :: "str \<Rightarrow> (perr, nat) writer" where
  "write_utf8_string s = write_binary_data s"

section \<open>The reference encoding\<close>

function vbi :: "nat \<Rightarrow> bytes" where
  "vbi n = (if n < 128 then [of_nat n] else (of_nat (n mod 128) OR 128) # vbi (n div 128))"
  by auto
termination by (relation "measure id") auto

declare vbi.simps [simp del] read_vbi_loop.simps [simp del] packet_len_loop.simps [simp del]
  write_variable_byte_integer.simps [simp del] write_vbi_len_loop.simps [simp del]

lemma and127: "unat (x AND 127 :: u8) = unat x mod 128"
proof -
  have "x AND 127 = take_bit 7 x" by (simp add: take_bit_eq_mask mask_numeral)
  then have "unat (x AND 127) = take_bit 7 (unat x)" by (simp only: unsigned_take_bit_eq)
  then show ?thesis by (simp add: take_bit_eq_mod)
qed

lemma and128: "x AND 128 = 0 \<longleftrightarrow> unat (x::u8) < 128"
proof -
  have "x AND 128 = 0 \<longleftrightarrow> \<not> bit x 7"
    using and_exp_eq_0_iff_not_bit [of x 7] by simp
  also have "bit x 7 \<longleftrightarrow> bit (unat x) 7" by (simp only: bit_unsigned_iff possible_bit_nat simp_thms)
  also have "bit (unat x) 7 \<longleftrightarrow> odd (unat x div 128)" by (simp add: bit_iff_odd)
  also have "unat x div 128 = (if unat x < 128 then 0 else 1)"
    using unat_u8_less [of x] by (auto simp: div_nat_eqI)
  finally show ?thesis by simp
qed

lemma or128: "m < 128 \<Longrightarrow> unat (of_nat m OR 128 :: u8) = m + 128"
proof -
  assume "m < 128"
  then have "(of_nat m AND 128 :: u8) = 0" by (simp add: and128 unat_of_nat_u8)
  then have "(of_nat m OR 128 :: u8) = of_nat m + 128" by (metis disjunctive_add_eq_or)
  then show ?thesis using \<open>m < 128\<close> by (simp add: unat_word_ariths unat_of_nat_u8)
qed

lemma vbi_unfold: "vbi n = vbi_byte n # (if n < 128 then [] else vbi (n div 128))"
  by (subst vbi.simps) (auto simp: vbi_byte_def Let_def)

lemma vbi_small: "n < 128 \<Longrightarrow> vbi n = [vbi_byte n]"
  by (subst vbi_unfold) simp

lemma vbi_large: "\<not> n < 128 \<Longrightarrow> vbi n = vbi_byte n # vbi (n div 128)"
  by (subst vbi_unfold) simp

lemma vbi_byte_facts [simp]:
  "unat (vbi_byte n AND 127) = n mod 128" "vbi_byte n AND 128 = 0 \<longleftrightarrow> n < 128"
  by (auto simp: vbi_byte_def Let_def and127 and128 or128 unat_of_nat_u8 div_greater_zero_iff)

lemma vbi_nonempty [simp]: "vbi n \<noteq> []"
  by (subst vbi_unfold) simp

lemma length_vbi_le: "n < 128 ^ k \<Longrightarrow> 0 < k \<Longrightarrow> length (vbi n) \<le> k"
proof (induction k arbitrary: n)
  case (Suc k)
  show ?case
  proof (cases "n < 128")
    case False
    then have "0 < k" using Suc.prems(1) by (cases k) auto
    moreover have "n div 128 < 128 ^ k" using Suc.prems(1) by (simp add: less_mult_imp_div_less mult.commute)
    ultimately show ?thesis using Suc.IH [of "n div 128"] False by (simp add: vbi_large)
  qed (simp add: vbi_small)
qed simp

lemma vbi_split: "n div 128 = k \<Longrightarrow> (n mod 128) * m + k * (m * 128) = n * (m :: nat)"
  using mult_div_mod_eq [of 128 n] by (auto simp: algebra_simps simp flip: distrib_left)

lemma vbi_tail_bound:
  assumes "n < (128::nat) ^ (4 - i)" "Suc i < 4"
  shows "n div 128 < 128 ^ (4 - Suc i)"
proof -
  have "(128::nat) ^ (4 - i) = 128 * 128 ^ (4 - Suc i)"
    using assms(2) by (simp flip: power_Suc add: Suc_diff_Suc)
  with assms(1) show ?thesis by (simp add: less_mult_imp_div_less mult.commute)
qed

lemma read_vbi_loop_ok:
  assumes "n < 128 ^ (4 - i)" "i < 4" "length pre = cursor + i"
  shows "read_vbi_loop (pre @ vbi n @ rest) cursor i m v = Ok (v + n * m, cursor + i + length (vbi n))"
  using assms
proof (induction "4 - i" arbitrary: i n m v pre)
  case (Suc k)
  have g: "get (pre @ vbi n @ rest) (cursor + i) = Some (vbi_byte n)"
    using get_append [of pre "vbi n @ rest" 0] Suc.prems(3) by (simp add: vbi_unfold [of n])
  show ?case
  proof (cases "n < 128")
    case True
    then show ?thesis
      by (subst read_vbi_loop.simps, subst g) (simp add: vbi_small)
  next
    case False
    with Suc.prems Suc.hyps(2) have i: "Suc i < 4" by (cases "i = 3") auto
    have "n div 128 < 128 ^ (4 - Suc i)"
      by (rule vbi_tail_bound [OF Suc.prems(1) i])
    then have "read_vbi_loop ((pre @ [vbi_byte n]) @ vbi (n div 128) @ rest) cursor (Suc i) (m * 128) (v + n mod 128 * m)
        = Ok (v + n mod 128 * m + n div 128 * (m * 128), cursor + Suc i + length (vbi (n div 128)))"
      using Suc.prems Suc.hyps(2) i by (intro Suc.hyps(1)) auto
    moreover have "pre @ vbi n @ rest = (pre @ [vbi_byte n]) @ vbi (n div 128) @ rest"
      using False by (simp add: vbi_large)
    ultimately show ?thesis
      using False i g vbi_split [OF refl, of n m]
      by (subst read_vbi_loop.simps) (simp add: vbi_large add.assoc)
  qed
qed simp

lemma read_vbi_ok:
  "n < 268435456 \<Longrightarrow> read_variable_byte_integer (length pre) (pre @ vbi n @ rest)
     = Ok (n, length pre + length (vbi n))"
  using read_vbi_loop_ok [of n 0 pre "length pre" rest 1 0]
  by (simp add: read_variable_byte_integer_def)

lemma packet_len_loop_ok:
  assumes "n < 128 ^ (4 - i)" "i < 4" "length pre = 1 + i"
  shows "packet_len_loop (pre @ vbi n @ rest) i m v =
    (let total = 1 + i + length (vbi n) + (v + n * m) in
     Ok (if total \<le> 1 + i + length (vbi n) + length rest then Some total else None))"
  using assms
proof (induction "4 - i" arbitrary: i n m v pre)
  case (Suc k)
  have g: "get (pre @ vbi n @ rest) (1 + i) = Some (vbi_byte n)"
    using get_append [of pre "vbi n @ rest" 0] Suc.prems(3) by (simp add: vbi_unfold [of n])
  show ?case
  proof (cases "n < 128")
    case True
    then show ?thesis using Suc.prems
      by (subst packet_len_loop.simps, subst g) (simp add: vbi_small Let_def)
  next
    case False
    with Suc.prems Suc.hyps(2) have i: "Suc i < 4" by (cases "i = 3") auto
    have "n div 128 < 128 ^ (4 - Suc i)"
      by (rule vbi_tail_bound [OF Suc.prems(1) i])
    then have "packet_len_loop ((pre @ [vbi_byte n]) @ vbi (n div 128) @ rest) (Suc i) (m * 128) (v + n mod 128 * m)
        = (let total = 1 + Suc i + length (vbi (n div 128)) + (v + n mod 128 * m + n div 128 * (m * 128)) in
           Ok (if total \<le> 1 + Suc i + length (vbi (n div 128)) + length rest then Some total else None))"
      using Suc.prems Suc.hyps(2) i by (intro Suc.hyps(1)) auto
    moreover have "pre @ vbi n @ rest = (pre @ [vbi_byte n]) @ vbi (n div 128) @ rest"
      using False by (simp add: vbi_large)
    ultimately show ?thesis
      using False i g vbi_split [OF refl, of n m] Suc.prems(2)
      by (subst packet_len_loop.simps) (simp add: vbi_large add.assoc Let_def)
  qed
qed simp

text \<open>Fewer bytes than the length field has: nothing can be said yet.\<close>

lemma packet_len_loop_short:
  assumes "n < 128 ^ (4 - i)" "i < 4" "length pre = 1 + i" "k < length (vbi n)"
  shows "packet_len_loop (pre @ take k (vbi n)) i m v = Ok None"
  using assms
proof (induction "4 - i" arbitrary: i n m v pre k)
  case (Suc j)
  show ?case
  proof (cases k)
    case 0
    with Suc.prems show ?thesis by (subst packet_len_loop.simps) (simp add: get_def)
  next
    case (Suc k')
    with \<open>k < length (vbi n)\<close> have big: "\<not> n < 128" by (auto simp: vbi_small)
    with Suc.prems \<open>Suc j = 4 - i\<close> have i: "Suc i < 4" by (cases "i = 3") auto
    have d: "n div 128 < 128 ^ (4 - Suc i)"
      by (rule vbi_tail_bound [OF Suc.prems(1) i])
    have "packet_len_loop ((pre @ [vbi_byte n]) @ take k' (vbi (n div 128))) (Suc i) (m * 128) (v + n mod 128 * m) = Ok None"
      using Suc.prems Suc \<open>Suc j = 4 - i\<close> i d big by (intro Suc.hyps(1)) (auto simp: vbi_large)
    moreover have "get (pre @ take k (vbi n)) (1 + i) = Some (vbi_byte n)"
      using get_append [of pre "take k (vbi n)" 0] Suc.prems(3) Suc by (simp add: vbi_unfold [of n])
    moreover have "pre @ take k (vbi n) = (pre @ [vbi_byte n]) @ take k' (vbi (n div 128))"
      using big Suc by (simp add: vbi_large)
    ultimately show ?thesis
      using big i Suc.prems(2) by (subst packet_len_loop.simps) (simp add: Let_def)
  qed
qed simp

lemma complete_packet_len_ok:
  assumes "n < 268435456"
  shows "complete_packet_len (hdr # vbi n @ rest) =
    Ok (if n \<le> length rest then Some (1 + length (vbi n) + n) else None)"
  using packet_len_loop_ok [of n 0 "[hdr]" rest 1 0] assms
  by (simp add: complete_packet_len_def Let_def)

lemma complete_packet_len_short:
  assumes "n < 268435456" "k < 1 + length (vbi n) + n"
  shows "complete_packet_len (take k (hdr # vbi n @ rest)) = Ok None"
proof (cases k)
  case 0
  then show ?thesis by (simp add: complete_packet_len_def packet_len_loop.simps)
next
  case (Suc j)
  show ?thesis
  proof (cases "j < length (vbi n)")
    case True
    then show ?thesis
      using packet_len_loop_short [of n 0 "[hdr]" j 1 0] assms(1) Suc by (simp add: complete_packet_len_def)
  next
    case False
    then show ?thesis
      using complete_packet_len_ok [OF assms(1), of hdr "take (j - length (vbi n)) rest"] assms(2) Suc by auto
  qed
qed

text \<open>A decided frame stays decided when more bytes arrive, and it lies within the buffer.\<close>

lemma packet_len_loop_step:
  "\<not> 4 \<le> i \<Longrightarrow> get buf (1 + i) = Some b \<Longrightarrow> b AND 128 \<noteq> 0 \<Longrightarrow>
   packet_len_loop buf i m v = packet_len_loop buf (Suc i) (m * 128) (v + unat (b AND 127) * m)"
  by (subst packet_len_loop.simps) simp

lemma packet_len_loop_leaf:
  "4 \<le> i \<or> get buf (1 + i) = None \<or> (\<exists>b. get buf (1 + i) = Some b \<and> b AND 128 = 0) \<Longrightarrow>
   packet_len_loop buf i m v =
     (if 4 \<le> i then Err malformed
      else case get buf (1 + i) of None \<Rightarrow> Ok None
        | Some b \<Rightarrow> let total = 2 + i + (v + unat (b AND 127) * m) in
            Ok (if total \<le> length buf then Some total else None))"
  by (subst packet_len_loop.simps) (auto simp: Let_def)

lemma get_Some_append: "get buf i = Some b \<Longrightarrow> get (buf @ later) i = Some b"
  by (auto simp: get_def nth_append split: if_splits)

lemma packet_len_loop_facts:
  "(packet_len_loop buf i m v = Ok (Some n) \<longrightarrow>
      packet_len_loop (buf @ later) i m v = Ok (Some n) \<and> 2 \<le> n \<and> n \<le> length buf) \<and>
   packet_len_loop buf i m v \<noteq> Panic \<and> (packet_len_loop buf i m v = Err e \<longrightarrow> e = malformed)"
proof (induction "4 - i" arbitrary: i m v rule: less_induct)
  case less
  show ?case
  proof (cases "\<not> 4 \<le> i \<and> (\<exists>b. get buf (1 + i) = Some b \<and> b AND 128 \<noteq> 0)")
    case True
    then obtain b where b: "\<not> 4 \<le> i" "get buf (1 + i) = Some b" "b AND 128 \<noteq> 0" by blast
    then show ?thesis
      using less [of "Suc i" "m * 128" "v + unat (b AND 127) * m"]
      by (simp add: packet_len_loop_step [OF b] packet_len_loop_step [OF b(1) get_Some_append [OF b(2)] b(3)])
  next
    case False
    then have "4 \<le> i \<or> get buf (1 + i) = None \<or> (\<exists>b. get buf (1 + i) = Some b \<and> b AND 128 = 0)"
      by (cases "get buf (1 + i)") auto
    note leaf = packet_len_loop_leaf [OF this, of m v]
    have "packet_len_loop (buf @ later) i m v = Ok (Some n) \<and> 2 \<le> n \<and> n \<le> length buf"
      if found: "packet_len_loop buf i m v = Ok (Some n)"
    proof -
      obtain b where b: "\<not> 4 \<le> i" "get buf (1 + i) = Some b" "b AND 128 = 0"
        and n: "n = 2 + i + (v + unat (b AND 127) * m)" "n \<le> length buf"
        using found [unfolded leaf] False by (auto simp: Let_def split: if_splits option.splits)
      have b': "get (buf @ later) (1 + i) = Some b" by (rule get_Some_append [OF b(2)])
      have "packet_len_loop (buf @ later) i m v = Ok (Some n)"
        using b(1,3) b' n packet_len_loop_leaf [of i "buf @ later" m v] by (simp add: Let_def)
      with n show ?thesis by simp
    qed
    moreover have "packet_len_loop buf i m v \<noteq> Panic" "packet_len_loop buf i m v = Err e \<longrightarrow> e = malformed"
      using leaf by (auto simp: Let_def split: if_splits option.splits)
    ultimately show ?thesis by blast
  qed
qed

lemma complete_packet_len_facts:
  "complete_packet_len buf = Ok (Some n) \<Longrightarrow> complete_packet_len (buf @ later) = Ok (Some n)"
  "complete_packet_len buf = Ok (Some n) \<Longrightarrow> 2 \<le> n \<and> n \<le> length buf"
  "complete_packet_len buf \<noteq> Panic"
  "complete_packet_len buf = Err e \<Longrightarrow> e = malformed"
  using packet_len_loop_facts [of buf 0 1 0] by (auto simp: complete_packet_len_def)

section \<open>Writers\<close>

lemma seq_simps [simp]:
  "seq (ret v) f b = f v b" "seq (fail e) f b = (Err e, b)"
  by (simp_all add: seq_def ret_def fail_def)

lemma write_vbi_len_loop_ok:
  "i + length (vbi n) \<le> length b \<Longrightarrow>
   write_vbi_len_loop i n b = (Ok (i + length (vbi n)), overwrite i (vbi n) b)"
proof (induction n arbitrary: i b rule: less_induct)
  case (less n)
  have l: "i < length b" using less(2) by (simp add: vbi_unfold [of n])
  have u: "write_vbi_len_loop i n b =
      (if n div 128 = 0 then (Ok (i + 1), b[i := vbi_byte n])
       else write_vbi_len_loop (i + 1) (n div 128) (b[i := vbi_byte n]))"
    using l by (subst write_vbi_len_loop.simps) (simp add: seq_def try_put_def ret_def)
  show ?case
  proof (cases "n < 128")
    case True
    then show ?thesis using l by (simp add: u vbi_small update_eq_overwrite)
  next
    case False
    then have eq: "vbi n = [vbi_byte n] @ vbi (n div 128)" by (simp add: vbi_large)
    have "write_vbi_len_loop (i + 1) (n div 128) (b[i := vbi_byte n])
        = (Ok (i + 1 + length (vbi (n div 128))), overwrite (i + 1) (vbi (n div 128)) (b[i := vbi_byte n]))"
      using less(2) False by (intro less(1)) (simp_all add: eq)
    moreover have "overwrite (i + 1) (vbi (n div 128)) (b[i := vbi_byte n]) = overwrite i (vbi n) b"
      using overwrite_overwrite [of i "[vbi_byte n]" "vbi (n div 128)" b] l less(2)
      by (simp add: update_eq_overwrite eq)
    moreover have "n div 128 \<noteq> 0" using False by auto
    ultimately show ?thesis by (simp add: u eq)
  qed
qed

lemma write_vbi_len_loop_full:
  "length b < i + length (vbi n) \<Longrightarrow> fst (write_vbi_len_loop i n b) = Err BufferTooSmall"
proof (induction i n arbitrary: b rule: write_vbi_len_loop.induct)
  case (1 i n)
  show ?case
  proof (cases "i < length b")
    case True
    with 1(2) have big: "\<not> n < 128" by (auto simp: vbi_small)
    then have "fst (write_vbi_len_loop (i + 1) (n div 128) (b[i := vbi_byte n])) = Err BufferTooSmall"
      using 1(2) by (intro 1(1)) (auto simp: vbi_large)
    moreover have "n div 128 \<noteq> 0" using big by auto
    ultimately show ?thesis using True
      by (subst write_vbi_len_loop.simps) (simp add: seq_def try_put_def)
  qed (subst write_vbi_len_loop.simps, simp add: seq_def try_put_def)
qed

lemma write_variable_byte_integer_eq:
  "write_variable_byte_integer i n b = write_vbi_len_loop i n b"
proof (induction i n arbitrary: b rule: write_variable_byte_integer.induct)
  case (1 i n)
  then show ?case
    by (subst write_variable_byte_integer.simps, subst write_vbi_len_loop.simps)
      (auto simp: seq_def try_put_def)
qed

lemma write_binary_data_ok:
  assumes "length data \<le> 65535" "2 + length data \<le> length b"
  shows "write_binary_data data b =
    (Ok (2 + length data), overwrite 0 (to_be_bytes (of_nat (length data)) @ data) b)"
  using assms by (simp add: write_binary_data_def Let_def seq_def try_put_slice_def ret_def)

lemma write_binary_data_err:
  "65535 < length data \<Longrightarrow> write_binary_data data b = (Err (Protocol PayloadTooLarge), b)"
  "length data \<le> 65535 \<Longrightarrow> length b < 2 + length data \<Longrightarrow>
   write_binary_data data b = (Err BufferTooSmall, b)"
  by (simp_all add: write_binary_data_def Let_def seq_def try_put_slice_def fail_def)

definition prefixed :: "bytes \<Rightarrow> bytes" where
  "prefixed data = to_be_bytes (of_nat (length data)) @ data"

lemma length_prefixed [simp]: "length (prefixed data) = 2 + length data"
  by (simp add: prefixed_def)

lemma read_len_prefix_ok:
  "length data \<le> 65535 \<Longrightarrow> read_len_prefix (length pre) (pre @ prefixed data @ rest) = Ok (length data)"
  using get_range_append [of pre "to_be_bytes (of_nat (length data))" "data @ rest"]
  by (simp add: read_len_prefix_def prefixed_def unat_u16_of_nat)

lemma read_prefixed_range:
  "get_range (pre @ prefixed data @ rest) (length pre + 2) (length pre + 2 + length data) = Some data"
  using get_range_append [of "pre @ to_be_bytes (of_nat (length data))" data rest]
  by (simp add: prefixed_def)

lemma read_binary_data_ok:
  "length data \<le> 65535 \<Longrightarrow>
   read_binary_data (length pre) (pre @ prefixed data @ rest) = Ok (data, length pre + length (prefixed data))"
  using read_prefixed_range [of pre data rest]
  by (simp add: read_binary_data_def read_len_prefix_ok Let_def)

lemma read_utf8_string_ok:
  "length s \<le> 65535 \<Longrightarrow> utf8_valid s \<Longrightarrow>
   read_utf8_string (length pre) (pre @ prefixed s @ rest) = Ok (s, length pre + length (prefixed s))"
  using read_prefixed_range [of pre s rest]
  by (simp add: read_utf8_string_def read_len_prefix_ok Let_def from_utf8_def)

end
