(* ===== verification/MqttPacket.thy ===== *)
theory MqttPacket
  imports MqttUtil
begin

text \<open>
  The MQTT control packets of \<open>vendor/mqtt-async-embedded/src/packet.rs\<close>: their
  data, the encoders that write into the client's transmit buffer and the
  decoders that read from its receive buffer. An encoder leaves room for the
  longest length field, writes the content behind it and moves it up once the
  length is known; the lemmas show that the bytes it reports are exactly the
  fixed header, the length field and the content of the packet.
\<close>

datatype QoS = AtMostOnce | AtLeastOnce | ExactlyOnce

primrec qos_code :: "QoS \<Rightarrow> u8" where
  "qos_code AtMostOnce = 0"
| "qos_code AtLeastOnce = 1"
| "qos_code ExactlyOnce = 2"

record Connect =
  clean_session :: bool
  keep_alive :: u16
  client_id :: str
  username :: "str option"
  password :: "bytes option"

record ConnAck =
  session_present :: bool
  reason_code :: u8

record Publish =
  pub_topic :: str
  pub_qos :: QoS
  pub_retain :: bool
  pub_payload :: bytes
  pub_packet_id :: "u16 option"

record PubAck =
  ack_packet_id :: u16

record Subscribe =
  sub_packet_id :: u16
  sub_topics :: "(str \<times> QoS) list"

record SubAck =
  suback_packet_id :: u16
  reason_codes :: "u8 list"

datatype MqttPacket = ConnectPacket Connect | ConnAckPacket ConnAck | PublishPacket Publish
  | PubAckPacket PubAck | SubscribePacket Subscribe | SubAckPacket SubAck | PingReqPacket
  | PingRespPacket | DisconnectPacket

section \<open>Encoders\<close>

text \<open>The end of every encoder: the length field in front of the content, the content moved up to it.\<close>

definition finish_packet :: "nat \<Rightarrow> (perr, nat) writer" where
  "finish_packet cursor =
     (let remaining_len = cursor - 5 in
      seq (on_tail 1 (write_variable_byte_integer_len remaining_len)) (\<lambda>len_bytes.
        let header_len = 1 + len_bytes in
        seq (copy_within 5 cursor header_len) (\<lambda>_. ret (header_len + remaining_len))))"

definition Connect_new :: "str \<Rightarrow> u16 \<Rightarrow> bool \<Rightarrow> Connect" where
  "Connect_new cid ka clean = \<lparr>clean_session = clean, keep_alive = ka, client_id = cid,
     username = None, password = None\<rparr>"

definition Connect_with_credentials :: "str \<Rightarrow> bytes \<Rightarrow> Connect \<Rightarrow> Connect" where
  "Connect_with_credentials user pass c = c\<lparr>username := Some user, password := Some pass\<rparr>"

definition connect_flags :: "Connect \<Rightarrow> u8" where
  "connect_flags c =
     (let flags = 0;
          flags = (if clean_session c then flags OR 0x02 else flags);
          flags = (if username c \<noteq> None then flags OR 0x80 else flags);
          flags = (if password c \<noteq> None then flags OR 0x40 else flags)
      in flags)"

definition write_field :: "nat \<Rightarrow> bytes \<Rightarrow> (perr, nat) writer" where
  "write_field cursor data = seq (on_tail cursor (write_binary_data data)) (\<lambda>n. ret (cursor + n))"

definition write_optional :: "nat \<Rightarrow> bytes option \<Rightarrow> (perr, nat) writer" where
  "write_optional cursor field =
     (case field of Some data \<Rightarrow> write_field cursor data | None \<Rightarrow> ret cursor)"

definition Connect_encode :: "Connect \<Rightarrow> (perr, nat) writer" where
  "Connect_encode c =
     seq (put 0 0x10) (\<lambda>_.
     seq (write_field 5 (lit ''MQTT'')) (\<lambda>cursor.
     seq (put cursor 4) (\<lambda>_.
     seq (put (cursor + 1) (connect_flags c)) (\<lambda>_.
     seq (put_slice (cursor + 2) (to_be_bytes (keep_alive c))) (\<lambda>_.
     seq (write_field (cursor + 4) (client_id c)) (\<lambda>cursor.
     seq (write_optional cursor (username c)) (\<lambda>cursor.
     seq (write_optional cursor (password c)) (\<lambda>cursor.
     finish_packet cursor))))))))"

definition publish_header :: "Publish \<Rightarrow> u8" where
  "publish_header p = (0x30 OR push_bit 1 (qos_code (pub_qos p))) OR of_bool (pub_retain p)"

definition Publish_encode :: "Publish \<Rightarrow> (perr, nat) writer" where
  "Publish_encode p =
     seq (write_field 5 (pub_topic p)) (\<lambda>cursor.
     seq (if pub_qos p \<noteq> AtMostOnce
          then (case pub_packet_id p of
                  None \<Rightarrow> fail malformed
                | Some packet_id \<Rightarrow>
                    seq (try_put_slice BufferTooSmall cursor (to_be_bytes packet_id)) (\<lambda>_. ret (cursor + 2)))
          else ret cursor) (\<lambda>cursor.
     seq (try_put_slice BufferTooSmall cursor (pub_payload p)) (\<lambda>_.
     seq (finish_packet (cursor + length (pub_payload p))) (\<lambda>n.
     seq (put 0 (publish_header p)) (\<lambda>_. ret n)))))"

definition PubAck_encode :: "PubAck \<Rightarrow> (perr, nat) writer" where
  "PubAck_encode a =
     seq (try_put_slice BufferTooSmall 0
            [0x40, 0x02, ucast (drop_bit 8 (ack_packet_id a)), ucast (ack_packet_id a AND 0xFF)])
       (\<lambda>_. ret 4)"

fun write_topics :: "nat \<Rightarrow> (str \<times> QoS) list \<Rightarrow> (perr, nat) writer" where
  "write_topics cursor [] = ret cursor"
| "write_topics cursor ((t, q) # ts) =
     seq (write_field cursor t) (\<lambda>cursor.
     seq (put cursor (qos_code q)) (\<lambda>_. write_topics (cursor + 1) ts))"

definition Subscribe_encode :: "Subscribe \<Rightarrow> (perr, nat) writer" where
  "Subscribe_encode s =
     seq (put 0 0x82) (\<lambda>_.
     seq (put_slice 5 (to_be_bytes (sub_packet_id s))) (\<lambda>_.
     seq (write_topics 7 (sub_topics s)) (\<lambda>cursor.
     finish_packet cursor)))"

definition two_bytes :: "u8 \<Rightarrow> u8 \<Rightarrow> (perr, nat) writer" where
  "two_bytes x y b =
     (if length b < 2 then (Err BufferTooSmall, b) else (Ok 2, b[0 := x, 1 := y]))"

definition PingReq_encode :: "(perr, nat) writer" where
  "PingReq_encode = two_bytes 0xC0 0x00"

definition Disconnect_encode :: "(perr, nat) writer" where
  "Disconnect_encode = two_bytes 0xE0 0x00"

section \<open>Decoders\<close>

definition Connect_decode :: "bytes \<Rightarrow> (perr, Connect) outcome" where
  "Connect_decode buf =
     and_then (or_panic (get buf 8)) (\<lambda>flags.
     and_then (or_panic (get buf 9)) (\<lambda>hi.
     and_then (or_panic (get buf 10)) (\<lambda>lo.
     and_then (or_panic (from_be_bytes [hi, lo])) (\<lambda>ka.
     and_then (read_utf8_string 11 buf) (\<lambda>(cid, cursor).
     and_then (if flags AND 0x80 \<noteq> 0
               then and_then (read_utf8_string cursor buf) (\<lambda>(u, cursor). Ok (Some u, cursor))
               else Ok (None, cursor)) (\<lambda>(user, cursor).
     and_then (if flags AND 0x40 \<noteq> 0
               then and_then (read_binary_data cursor buf) (\<lambda>(p, cursor). Ok (Some p, cursor))
               else Ok (None, cursor)) (\<lambda>(pass, cursor).
     Ok \<lparr>clean_session = (flags AND 0x02 \<noteq> 0), keep_alive = ka, client_id = cid,
          username = user, password = pass\<rparr>)))))))"

definition ConnAck_decode :: "bytes \<Rightarrow> (perr, ConnAck) outcome" where
  "ConnAck_decode buf =
     (case buf of
        _ # _ # flags # code # _ \<Rightarrow> Ok \<lparr>session_present = (flags AND 0x01 \<noteq> 0), reason_code = code\<rparr>
      | _ \<Rightarrow> Err malformed)"

definition qos_of_bits :: "u8 \<Rightarrow> (perr, QoS) outcome" where
  "qos_of_bits bits =
     (if bits = 0 then Ok AtMostOnce else if bits = 1 then Ok AtLeastOnce
      else if bits = 2 then Ok ExactlyOnce else Err malformed)"

definition read_packet_id :: "nat \<Rightarrow> bytes \<Rightarrow> (perr, u16) outcome" where
  "read_packet_id cursor buf =
     and_then (ok_or (get_range buf cursor (cursor + 2)) malformed) (\<lambda>two.
       or_panic (from_be_bytes two))"

definition Publish_decode :: "bytes \<Rightarrow> (perr, Publish) outcome" where
  "Publish_decode buf =
     and_then (or_panic (get buf 0)) (\<lambda>first.
     and_then (qos_of_bits (drop_bit 1 first AND 0x03)) (\<lambda>qos.
     and_then (read_variable_byte_integer 1 buf) (\<lambda>(remaining_len, cursor).
     and_then (ok_or (get_range buf 0 (cursor + remaining_len)) malformed) (\<lambda>buf.
     and_then (read_utf8_string cursor buf) (\<lambda>(topic, cursor).
     and_then (if qos \<noteq> AtMostOnce
               then and_then (read_packet_id cursor buf) (\<lambda>pid. Ok (Some pid, cursor + 2))
               else Ok (None, cursor)) (\<lambda>(packet_id, cursor).
     and_then (ok_or (get_from buf cursor) malformed) (\<lambda>payload.
     Ok \<lparr>pub_topic = topic, pub_qos = qos, pub_retain = (first AND 0x01 \<noteq> 0),
          pub_payload = payload, pub_packet_id = packet_id\<rparr>)))))))"

definition PubAck_decode :: "bytes \<Rightarrow> (perr, PubAck) outcome" where
  "PubAck_decode buf = and_then (read_packet_id 2 buf) (\<lambda>pid. Ok \<lparr>ack_packet_id = pid\<rparr>)"

text \<open>Not implemented by the source: it returns an empty packet.\<close>

definition Subscribe_decode :: "bytes \<Rightarrow> (perr, Subscribe) outcome" where
  "Subscribe_decode buf = Ok \<lparr>sub_packet_id = 0, sub_topics = []\<rparr>"

text \<open>\<open>heapless::Vec<u8, 8>\<close>: pushing a ninth element fails.\<close>

fun push_all :: "u8 list \<Rightarrow> u8 list \<Rightarrow> (perr, u8 list) outcome" where
  "push_all acc [] = Ok acc"
| "push_all acc (x # xs) = (if length acc < 8 then push_all (acc @ [x]) xs else Err BufferTooSmall)"

definition SubAck_decode :: "bytes \<Rightarrow> (perr, SubAck) outcome" where
  "SubAck_decode buf =
     and_then (read_variable_byte_integer 1 buf) (\<lambda>(remaining_len, cursor).
     and_then (ok_or (get_range buf 0 (cursor + remaining_len)) malformed) (\<lambda>buf.
     and_then (read_packet_id cursor buf) (\<lambda>pid.
     and_then (push_all [] (case get_from buf (cursor + 2) of Some xs \<Rightarrow> xs | None \<Rightarrow> [])) (\<lambda>codes.
     Ok \<lparr>suback_packet_id = pid, reason_codes = codes\<rparr>))))"

definition decode :: "bytes \<Rightarrow> ('e mqtt_error, MqttPacket option) outcome" where
  "decode buf =
     (case buf of
        [] \<Rightarrow> Ok None
      | first # _ \<Rightarrow>
          let packet_type = drop_bit 4 first in
          if packet_type = 1 then and_then (cast_err (Connect_decode buf)) (\<lambda>p. Ok (Some (ConnectPacket p)))
          else if packet_type = 2 then and_then (cast_err (ConnAck_decode buf)) (\<lambda>p. Ok (Some (ConnAckPacket p)))
          else if packet_type = 3 then and_then (cast_err (Publish_decode buf)) (\<lambda>p. Ok (Some (PublishPacket p)))
          else if packet_type = 4 then and_then (cast_err (PubAck_decode buf)) (\<lambda>p. Ok (Some (PubAckPacket p)))
          else if packet_type = 8 then and_then (cast_err (Subscribe_decode buf)) (\<lambda>p. Ok (Some (SubscribePacket p)))
          else if packet_type = 9 then and_then (cast_err (SubAck_decode buf)) (\<lambda>p. Ok (Some (SubAckPacket p)))
          else if packet_type = 12 then Ok (Some PingReqPacket)
          else if packet_type = 13 then Ok (Some PingRespPacket)
          else if packet_type = 14 then Ok (Some DisconnectPacket)
          else Err (Protocol (InvalidPacketType packet_type)))"

section \<open>Writing the content\<close>

text \<open>
  An encoder at cursor \<open>5 + length c\<close> has written the content \<open>c\<close> into the buffer
  from index 5 on; each write appends to it.
\<close>

abbreviation content :: "bytes \<Rightarrow> bytes \<Rightarrow> bytes" where
  "content c b \<equiv> overwrite 5 c b"

lemma content_Nil [simp]: "content [] b = b"
  by (simp add: overwrite_def)

lemma overwrite_content:
  "5 + length c + length d \<le> length b \<Longrightarrow>
   overwrite (5 + length c) d (content c b) = content (c @ d) b"
  by (rule overwrite_overwrite)

lemma put_content:
  assumes "cursor = 5 + length c" "cursor < length b"
  shows "put cursor v (content c b) = (Ok (), content (c @ [v]) b)"
  using assms overwrite_content [of c "[v]" b]
  by (simp add: put_def update_eq_overwrite)

lemma put_slice_content:
  assumes "cursor = 5 + length c" "cursor + length d \<le> length b"
  shows "put_slice cursor d (content c b) = (Ok (), content (c @ d) b)"
    and "try_put_slice e cursor d (content c b) = (Ok (), content (c @ d) b)"
  using assms overwrite_content [of c d b] by (simp_all add: put_slice_def try_put_slice_def)

lemma write_field_content:
  assumes "cursor = 5 + length c" "cursor + 2 + length d \<le> length b" "length d \<le> 65535"
  shows "write_field cursor d (content c b) = (Ok (cursor + length (prefixed d)), content (c @ prefixed d) b)"
proof -
  have "on_tail cursor (write_binary_data d) (content c b)
      = (Ok (2 + length d), overwrite cursor (prefixed d) (content c b))"
    using assms by (intro on_tail_overwrite) (simp_all add: write_binary_data_ok prefixed_def)
  then show ?thesis
    using assms overwrite_content [of c "prefixed d" b] by (simp add: write_field_def seq_def ret_def)
qed

lemma seq_step: "m b = (Ok v, b') \<Longrightarrow> seq m f b = f v b'"
  by (simp add: seq_def)

lemma seq_err: "m b = (Err e, b') \<Longrightarrow> seq m f b = (Err e, b')"
  by (simp add: seq_def)

text \<open>The length field and the moved content: what the encoder reports is the whole packet.\<close>

lemma finish_packet_ok:
  assumes "5 + length c \<le> length b" "length c < 268435456"
  shows "\<exists>b'. finish_packet (5 + length c) (content c b) = (Ok (1 + length (vbi (length c)) + length c), b')
    \<and> length b' = length b \<and> take (1 + length (vbi (length c)) + length c) b' = hd b # vbi (length c) @ c"
proof -
  let ?n = "length c" and ?k = "length (vbi (length c))"
  have k: "?k \<le> 4" using length_vbi_le [of ?n 4] assms(2) by simp
  obtain h r where b: "b = h # r" using assms(1) by (cases b) auto
  let ?b1 = "overwrite 1 (vbi ?n) (content c b)"
  have w: "on_tail 1 (write_variable_byte_integer_len ?n) (content c b) = (Ok ?k, ?b1)"
    using assms k by (intro on_tail_overwrite)
      (simp_all add: write_variable_byte_integer_len_def write_vbi_len_loop_ok)
  have d: "drop 5 ?b1 = drop 5 (content c b)" using k assms by (simp add: overwrite_def)
  then have c: "take ?n (drop 5 ?b1) = c" using assms(1) by (simp add: drop_overwrite)
  have l1: "length ?b1 = length b" using assms k by simp
  have cp: "(copy_within 5 (5 + ?n) (1 + ?k) :: (perr, unit) writer) ?b1 = (Ok (), overwrite (1 + ?k) c ?b1)"
    using assms k l1 by (simp add: copy_within_def c [unfolded One_nat_def])
  have "take (1 + ?k) ?b1 = h # vbi ?n" using k assms by (simp add: overwrite_def b)
  then have "take (1 + ?k + ?n) (overwrite (1 + ?k) c ?b1) = h # vbi ?n @ c"
    using l1 assms k by (simp add: overwrite_def)
  moreover have "length (overwrite (1 + ?k) c ?b1) = length b" using l1 assms k by simp
  ultimately show ?thesis
    using w cp by (auto simp: finish_packet_def Let_def seq_step ret_def b)
qed

section \<open>What the encoders write\<close>

definition frame :: "u8 \<Rightarrow> bytes \<Rightarrow> bytes" where
  "frame hdr c = hdr # vbi (length c) @ c"

lemma length_frame: "length (frame hdr c) = 1 + length (vbi (length c)) + length c"
  by (simp add: frame_def)

lemma frame_complete:
  "length c < 268435456 \<Longrightarrow> complete_packet_len (frame hdr c @ rest) = Ok (Some (length (frame hdr c)))"
  using complete_packet_len_ok [of "length c" hdr "c @ rest"] by (simp add: frame_def)

lemma frame_incomplete:
  assumes "length c < 268435456" "k < length (frame hdr c)"
  shows "complete_packet_len (take k (frame hdr c)) = Ok None"
  using complete_packet_len_short [OF assms(1), of k hdr c] assms(2) by (simp add: frame_def)

text \<open>The predicate all encoders satisfy on a large enough buffer.\<close>

definition encodes :: "(perr, nat) writer \<Rightarrow> bytes \<Rightarrow> bytes \<Rightarrow> bool" where
  "encodes enc b packet \<longleftrightarrow>
     (\<exists>b'. enc b = (Ok (length packet), b') \<and> length b' = length b \<and> take (length packet) b' = packet)"

lemma finish_packet_encodes:
  assumes "5 + length c \<le> length b" "length c < 268435456" "cursor = 5 + length c"
  shows "\<exists>b'. finish_packet cursor (content c b) = (Ok (length (frame (hd b) c)), b')
    \<and> length b' = length b \<and> take (length (frame (hd b) c)) b' = frame (hd b) c"
  using finish_packet_ok [OF assms(1,2)] by (simp add: assms(3) frame_def)

definition publish_content :: "Publish \<Rightarrow> bytes" where
  "publish_content p = prefixed (pub_topic p) @
     (if pub_qos p \<noteq> AtMostOnce then to_be_bytes (the (pub_packet_id p)) else []) @ pub_payload p"

definition publish_ok :: "Publish \<Rightarrow> bool" where
  "publish_ok p \<longleftrightarrow> length (pub_topic p) \<le> 65535 \<and> utf8_valid (pub_topic p) \<and>
     (pub_qos p = AtMostOnce \<longleftrightarrow> pub_packet_id p = None)"

lemma Publish_encodes:
  assumes "length (pub_topic p) \<le> 65535 \<and> (pub_qos p \<noteq> AtMostOnce \<longrightarrow> pub_packet_id p \<noteq> None)"
    and "5 + length (publish_content p) \<le> length b" "length (publish_content p) < 268435456"
  shows "encodes (Publish_encode p) b (frame (publish_header p) (publish_content p))"
proof -
  define ident where
    "ident = (if pub_qos p \<noteq> AtMostOnce then to_be_bytes (the (pub_packet_id p)) else [])"
  let ?top = "prefixed (pub_topic p)" and ?c = "publish_content p" and ?h = "publish_header p"
  have c: "?c = ?top @ ident @ pub_payload p" by (simp add: publish_content_def ident_def)
  have len: "length ?c = length ?top + length ident + length (pub_payload p)" by (simp add: c)
  have 1: "write_field 5 (pub_topic p) b = (Ok (5 + length ?top), content ?top b)"
    using write_field_content [of 5 "[]" "pub_topic p" b] assms(1,2) len by simp
  have 2: "(if pub_qos p \<noteq> AtMostOnce
          then (case pub_packet_id p of
                  None \<Rightarrow> fail (malformed :: perr)
                | Some packet_id \<Rightarrow>
                    seq (try_put_slice BufferTooSmall (5 + length ?top) (to_be_bytes packet_id)) (\<lambda>_. ret (5 + length ?top + 2)))
          else ret (5 + length ?top)) (content ?top b) = (Ok (5 + length ?top + length ident), content (?top @ ident) b)"
    using assms(1,2) len put_slice_content(2) [OF refl, of ?top ident b "BufferTooSmall :: perr"]
    by (auto simp: seq_step ret_def ident_def)
  have 3: "try_put_slice (BufferTooSmall :: perr) (5 + length ?top + length ident) (pub_payload p) (content (?top @ ident) b)
      = (Ok (), content ?c b)"
    using put_slice_content(2) [of _ "?top @ ident" "pub_payload p" b "BufferTooSmall :: perr"] assms(2) len
    by (simp add: c add.assoc)
  obtain b' where 4: "finish_packet (5 + length ?top + length ident + length (pub_payload p)) (content ?c b)
      = (Ok (length (frame (hd b) ?c)), b')"
    and b': "length b' = length b" "take (length (frame (hd b) ?c)) b' = frame (hd b) ?c"
    using finish_packet_encodes [OF assms(2,3)] len by (auto simp: add.assoc)
  have 5: "(put 0 ?h :: (perr, unit) writer) b' = (Ok (), b'[0 := ?h])"
    using b' assms(2) by (auto simp: put_def)
  have "Publish_encode p b = (Ok (length (frame ?h ?c)), b'[0 := ?h])"
    by (simp only: Publish_encode_def seq_step 1 2 3 4 5) (simp add: ret_def frame_def)
  moreover have "take (length (frame ?h ?c)) (b'[0 := ?h]) = frame ?h ?c"
    using b'(2) by (cases b') (simp_all add: frame_def)
  ultimately show ?thesis using b'(1) by (simp add: encodes_def)
qed

lemma publish_header_bits:
  "qos_of_bits (drop_bit 1 (publish_header p) AND 0x03) = Ok (pub_qos p)"
  "publish_header p AND 0x01 \<noteq> 0 \<longleftrightarrow> pub_retain p"
  "drop_bit 4 (publish_header p) = 3"
  by (cases "pub_qos p"; cases "pub_retain p"; simp add: publish_header_def qos_of_bits_def)+

lemma Publish_decode_frame:
  assumes "publish_ok p" "length (publish_content p) < 268435456"
  shows "Publish_decode (frame (publish_header p) (publish_content p) @ rest) = Ok p"
proof -
  define n where "n = length (publish_content p)"
  define v where "v = vbi n"
  define pkt where "pkt = frame (publish_header p) (publish_content p)"
  define ident where
    "ident = (if pub_qos p \<noteq> AtMostOnce then to_be_bytes (the (pub_packet_id p)) else [])"
  let ?h = "publish_header p" and ?top = "prefixed (pub_topic p)"
  have f: "pkt = ?h # v @ ?top @ ident @ pub_payload p"
    by (simp add: pkt_def frame_def publish_content_def ident_def v_def n_def)
  have l: "length pkt = 1 + length v + n" by (simp add: pkt_def length_frame v_def n_def)
  have 1: "read_variable_byte_integer 1 (pkt @ rest) = Ok (n, 1 + length v)"
    using read_vbi_ok [of n "[?h]" "?top @ ident @ pub_payload p @ rest"] assms(2)
    by (simp add: f n_def v_def)
  have 2: "get_range (pkt @ rest) 0 (1 + length v + n) = Some pkt"
    using get_range_append [of "[]" pkt rest] by (simp add: l)
  have 3: "read_utf8_string (1 + length v) pkt = Ok (pub_topic p, 1 + length v + length ?top)"
    using read_utf8_string_ok [of "pub_topic p" "?h # v" "ident @ pub_payload p"] assms(1)
    by (simp add: f publish_ok_def)
  have 4: "read_packet_id (1 + length v + length ?top) pkt = Ok (the (pub_packet_id p))"
    if "pub_qos p \<noteq> AtMostOnce"
    using get_range_append [of "?h # v @ ?top" ident "pub_payload p"] that
    by (simp add: f read_packet_id_def ident_def)
  have 5: "get_from pkt (1 + length v + length ?top + length ident) = Some (pub_payload p)"
    using get_from_append [of "?h # v @ ?top @ ident" "pub_payload p"] by (simp add: f add.assoc)
  have 0: "get (pkt @ rest) 0 = Some ?h" by (simp add: f)
  have q: "pub_qos p = AtMostOnce \<longleftrightarrow> pub_packet_id p = None" using assms(1) by (simp add: publish_ok_def)
  show ?thesis
    unfolding pkt_def [symmetric] Publish_decode_def 0 or_panic_simps and_then.simps publish_header_bits 1
      prod.case 2 ok_or_simps 3
    using q 4 5 by (cases "pub_packet_id p") (simp_all add: ident_def)
qed

definition optional_field :: "bytes option \<Rightarrow> bytes" where
  "optional_field field = (case field of Some d \<Rightarrow> prefixed d | None \<Rightarrow> [])"

definition connect_content :: "Connect \<Rightarrow> bytes" where
  "connect_content c = prefixed (lit ''MQTT'') @ [4, connect_flags c] @ to_be_bytes (keep_alive c) @
     prefixed (client_id c) @ optional_field (username c) @ optional_field (password c)"

definition connect_ok :: "Connect \<Rightarrow> bool" where
  "connect_ok c \<longleftrightarrow> length (client_id c) \<le> 65535 \<and>
     (case username c of Some u \<Rightarrow> length u \<le> 65535 | None \<Rightarrow> True) \<and>
     (case password c of Some p \<Rightarrow> length p \<le> 65535 | None \<Rightarrow> True)"

lemma write_optional_content:
  assumes "cursor = 5 + length c" "cursor + length (optional_field f) \<le> length b"
    and "case f of Some d \<Rightarrow> length d \<le> 65535 | None \<Rightarrow> True"
  shows "write_optional cursor f (content c b)
    = (Ok (cursor + length (optional_field f)), content (c @ optional_field f) b)"
  using assms write_field_content [of cursor c _ b]
  by (cases f) (simp_all add: write_optional_def optional_field_def ret_def)

lemma Connect_encodes:
  assumes "connect_ok c" "5 + length (connect_content c) \<le> length b" "length (connect_content c) < 268435456"
  shows "encodes (Connect_encode c) b (frame 0x10 (connect_content c))"
proof -
  define b1 where "b1 = b[0 := 0x10]"
  let ?m = "prefixed (lit ''MQTT'')" and ?k = "to_be_bytes (keep_alive c)" and ?i = "prefixed (client_id c)"
  let ?u = "optional_field (username c)" and ?p = "optional_field (password c)"
  have len: "length (connect_content c) = 10 + length ?i + length ?u + length ?p"
    by (simp add: connect_content_def)
  have l: "15 + length ?i + length ?u + length ?p \<le> length b1" using assms(2) len by (simp add: b1_def)
  have ok: "length (client_id c) \<le> 65535" using assms(1) by (simp add: connect_ok_def)
  have 0: "(put 0 0x10 :: (perr, unit) writer) b = (Ok (), b1)"
    using assms(2) by (auto simp: put_def b1_def)
  have 1: "write_field 5 (lit ''MQTT'') b1 = (Ok 11, content ?m b1)"
    using write_field_content [of 5 "[]" "lit ''MQTT''" b1] l by simp
  have 2: "(put 11 4 :: (perr, unit) writer) (content ?m b1) = (Ok (), content (?m @ [4]) b1)"
    using l by (intro put_content) auto
  have 3: "(put (11 + 1) (connect_flags c) :: (perr, unit) writer) (content (?m @ [4]) b1)
      = (Ok (), content (?m @ [4, connect_flags c]) b1)"
    using put_content [of _ "?m @ [4]" b1 "connect_flags c"] l by simp
  have 4: "(put_slice (11 + 2) ?k :: (perr, unit) writer) (content (?m @ [4, connect_flags c]) b1)
      = (Ok (), content (?m @ [4, connect_flags c] @ ?k) b1)"
    using put_slice_content(1) [of _ "?m @ [4, connect_flags c]" ?k b1] l by simp
  have 5: "write_field (11 + 4) (client_id c) (content (?m @ [4, connect_flags c] @ ?k) b1)
      = (Ok (15 + length ?i), content (?m @ [4, connect_flags c] @ ?k @ ?i) b1)"
    using write_field_content [of 15 "?m @ [4, connect_flags c] @ ?k" "client_id c" b1] l ok by simp
  have 6: "write_optional (15 + length ?i) (username c) (content (?m @ [4, connect_flags c] @ ?k @ ?i) b1)
      = (Ok (15 + length ?i + length ?u), content (?m @ [4, connect_flags c] @ ?k @ ?i @ ?u) b1)"
    using write_optional_content [of _ "?m @ [4, connect_flags c] @ ?k @ ?i" "username c" b1] l assms(1)
    by (simp add: connect_ok_def)
  have 7: "write_optional (15 + length ?i + length ?u) (password c) (content (?m @ [4, connect_flags c] @ ?k @ ?i @ ?u) b1)
      = (Ok (5 + length (connect_content c)), content (connect_content c) b1)"
    using write_optional_content [of _ "?m @ [4, connect_flags c] @ ?k @ ?i @ ?u" "password c" b1] l assms(1)
    by (simp add: connect_ok_def connect_content_def add.assoc)
  have h: "hd b1 = 0x10" using assms(2) by (cases b) (simp_all add: b1_def)
  obtain b' where 8: "finish_packet (5 + length (connect_content c)) (content (connect_content c) b1)
      = (Ok (length (frame 0x10 (connect_content c))), b')" "length b' = length b1"
      "take (length (frame 0x10 (connect_content c))) b' = frame 0x10 (connect_content c)"
    using finish_packet_encodes [OF _ assms(3) refl, of b1] assms(2) h by (auto simp: b1_def)
  have "Connect_encode c b = (Ok (length (frame 0x10 (connect_content c))), b')"
    by (simp only: Connect_encode_def seq_step 0 1 2 3 4 5 6 7 8)
  with 8 show ?thesis by (simp add: encodes_def b1_def)
qed

fun topics_content :: "(str \<times> QoS) list \<Rightarrow> bytes" where
  "topics_content [] = []"
| "topics_content ((t, q) # ts) = prefixed t @ [qos_code q] @ topics_content ts"

definition subscribe_content :: "Subscribe \<Rightarrow> bytes" where
  "subscribe_content s = to_be_bytes (sub_packet_id s) @ topics_content (sub_topics s)"

lemma write_topics_content:
  assumes "cursor = 5 + length c" "cursor + length (topics_content ts) \<le> length b"
    and "\<forall>(t, q) \<in> set ts. length t \<le> 65535"
  shows "write_topics cursor ts (content c b)
    = (Ok (cursor + length (topics_content ts)), content (c @ topics_content ts) b)"
  using assms
proof (induction ts arbitrary: cursor c)
  case Nil
  then show ?case by (simp add: ret_def)
next
  case (Cons tq ts)
  obtain t q where tq: "tq = (t, q)" by force
  have 1: "write_field cursor t (content c b) = (Ok (cursor + length (prefixed t)), content (c @ prefixed t) b)"
    using Cons.prems tq by (intro write_field_content) auto
  have 2: "(put (cursor + length (prefixed t)) (qos_code q) :: (perr, unit) writer) (content (c @ prefixed t) b)
      = (Ok (), content (c @ prefixed t @ [qos_code q]) b)"
    using put_content [of _ "c @ prefixed t" b "qos_code q"] Cons.prems tq by simp
  have 3: "write_topics (cursor + length (prefixed t) + 1) ts (content (c @ prefixed t @ [qos_code q]) b)
      = (Ok (cursor + length (prefixed t) + 1 + length (topics_content ts)),
         content ((c @ prefixed t @ [qos_code q]) @ topics_content ts) b)"
    using Cons.prems tq by (intro Cons.IH) auto
  show ?case
    unfolding tq write_topics.simps by (simp only: seq_step 1 2 3) simp
qed

lemma Subscribe_encodes:
  assumes "\<forall>(t, q) \<in> set (sub_topics s). length t \<le> 65535"
    and "5 + length (subscribe_content s) \<le> length b" "length (subscribe_content s) < 268435456"
  shows "encodes (Subscribe_encode s) b (frame 0x82 (subscribe_content s))"
proof -
  define b1 where "b1 = b[0 := 0x82]"
  let ?k = "to_be_bytes (sub_packet_id s)" and ?c = "subscribe_content s"
  have 0: "(put 0 0x82 :: (perr, unit) writer) b = (Ok (), b1)"
    using assms(2) by (auto simp: put_def b1_def)
  have 1: "(put_slice 5 ?k :: (perr, unit) writer) b1 = (Ok (), content ?k b1)"
    using put_slice_content(1) [of 5 "[]" ?k b1] assms(2) by (simp add: subscribe_content_def b1_def)
  have 2: "write_topics 7 (sub_topics s) (content ?k b1) = (Ok (5 + length ?c), content ?c b1)"
    using write_topics_content [of 7 ?k "sub_topics s" b1] assms(1,2) by (simp add: subscribe_content_def b1_def)
  have h: "hd b1 = 0x82" using assms(2) by (cases b) (simp_all add: b1_def)
  obtain b' where 3: "finish_packet (5 + length ?c) (content ?c b1) = (Ok (length (frame 0x82 ?c)), b')"
      "length b' = length b1" "take (length (frame 0x82 ?c)) b' = frame 0x82 ?c"
    using finish_packet_encodes [OF _ assms(3) refl, of b1] assms(2) h by (auto simp: b1_def)
  have "Subscribe_encode s b = (Ok (length (frame 0x82 ?c)), b')"
    by (simp only: Subscribe_encode_def seq_step 0 1 2 3)
  with 3 show ?thesis by (simp add: encodes_def b1_def)
qed

section \<open>Errors\<close>

lemma write_field_err:
  assumes "5 \<le> length b"
  shows "65535 < length d \<Longrightarrow> write_field 5 d b = (Err (Protocol PayloadTooLarge), b)"
    and "length d \<le> 65535 \<Longrightarrow> length b < 7 + length d \<Longrightarrow> write_field 5 d b = (Err BufferTooSmall, b)"
  using assms by (auto simp: write_field_def seq_def on_tail_def write_binary_data_err)

text \<open>Without the UTF-8 requirement: the encoder accepts any topic bytes.\<close>

lemma Publish_encode_cases:
  assumes "5 \<le> length b" "length b \<le> 268435456"
  shows "fst (Publish_encode p b) =
    (if 65535 < length (pub_topic p) then Err (Protocol PayloadTooLarge)
     else if length b < 7 + length (pub_topic p) then Err BufferTooSmall
     else if pub_qos p \<noteq> AtMostOnce \<and> pub_packet_id p = None then Err malformed
     else if length b < 5 + length (publish_content p) then Err BufferTooSmall
     else Ok (length (frame (publish_header p) (publish_content p))))"
proof -
  consider (long) "65535 < length (pub_topic p)"
    | (topic) "length (pub_topic p) \<le> 65535" "length b < 7 + length (pub_topic p)"
    | (room) "length (pub_topic p) \<le> 65535" "7 + length (pub_topic p) \<le> length b"
    by linarith
  then show ?thesis
  proof cases
    case long
    then show ?thesis using write_field_err [OF assms(1)] by (simp add: Publish_encode_def seq_def)
  next
    case topic
    then show ?thesis using write_field_err [OF assms(1)] by (simp add: Publish_encode_def seq_def)
  next
    case room
    let ?top = "prefixed (pub_topic p)"
    have 1: "write_field 5 (pub_topic p) b = (Ok (5 + length ?top), content ?top b)"
      using write_field_content [of 5 "[]" "pub_topic p" b] room by simp
    have l: "length (content ?top b) = length b" using room by simp
    show ?thesis
    proof (cases "(pub_qos p \<noteq> AtMostOnce \<and> pub_packet_id p = None) \<or> length b < 5 + length (publish_content p)")
      case True
      then show ?thesis
        using room l
        by (cases "pub_packet_id p")
          (auto simp: Publish_encode_def seq_def 1 fail_def ret_def try_put_slice_def
            publish_content_def split: prod.splits)
    next
      case False
      then have "encodes (Publish_encode p) b (frame (publish_header p) (publish_content p))"
        using room assms(2) by (intro Publish_encodes) auto
      then show ?thesis using False room by (auto simp: encodes_def)
    qed
  qed
qed

section \<open>Properties\<close>

text \<open>
  A length written by the encoder, by either of its two routines, is the
  reference encoding, and the reader returns that length and stops right behind
  it, for every length the protocol allows (below 268435456) and whatever
  surrounds the field.
\<close>

theorem variable_byte_integer_roundtrip:
  assumes "n < 268435456" "cursor + length (vbi n) \<le> length b"
  shows "\<exists>b'. write_variable_byte_integer cursor n b = (Ok (cursor + length (vbi n)), b')
    \<and> on_tail cursor (write_variable_byte_integer_len n) b = (Ok (length (vbi n)), b')
    \<and> read_variable_byte_integer cursor b' = Ok (n, cursor + length (vbi n))"
proof -
  let ?b' = "overwrite cursor (vbi n) b"
  have "on_tail cursor (write_variable_byte_integer_len n) b = (Ok (length (vbi n)), ?b')"
    using assms(2) by (intro on_tail_overwrite)
      (simp_all add: write_variable_byte_integer_len_def write_vbi_len_loop_ok)
  moreover have "read_variable_byte_integer cursor ?b' = Ok (n, cursor + length (vbi n))"
    using read_vbi_ok [OF assms(1), of "take cursor b" "drop (cursor + length (vbi n)) b"] assms(2)
    by (simp add: overwrite_def)
  ultimately show ?thesis
    using assms(2) by (simp add: write_variable_byte_integer_eq write_vbi_len_loop_ok)
qed

theorem variable_byte_integer_roundtrip_witness:
  "\<exists>b'. write_variable_byte_integer 1 321 [0, 0, 0, 0] = (Ok 3, b')
    \<and> read_variable_byte_integer 1 b' = Ok (321, 3)"
proof -
  have v: "vbi 321 = [193, 2]" by (simp add: vbi.simps)
  show ?thesis using variable_byte_integer_roundtrip [of 321 1 "[0, 0, 0, 0]"] by (auto simp: v)
qed

text \<open>
  Framing: in a byte stream that starts with a packet, \<open>complete_packet_len\<close>
  asks for more bytes as long as the packet is incomplete, and answers exactly
  the length of the packet once all of it is there, whatever follows it.
\<close>

theorem framing_exact:
  assumes "length c < 268435456"
  shows "(\<forall>k < length (frame hdr c). complete_packet_len (take k (frame hdr c)) = Ok None)
    \<and> complete_packet_len (frame hdr c @ rest) = Ok (Some (length (frame hdr c)))"
  using frame_incomplete [OF assms] frame_complete [OF assms] by blast

theorem framing_exact_witness:
  "complete_packet_len (take 3 (frame 0x40 [1, 2])) = Ok None
    \<and> complete_packet_len (frame 0x40 [1, 2] @ [0x30, 9]) = Ok (Some 4)"
proof -
  have f: "frame 0x40 [1, 2] = [0x40, 2, 1, 2]" by (simp add: frame_def vbi.simps)
  have "(3::nat) < length (frame 0x40 [1, 2])" by (simp add: f)
  moreover have "length (frame 0x40 [1, 2]) = 4" by (simp add: f)
  ultimately show ?thesis using framing_exact [of "[1, 2]" "0x40" "[0x30, 9]"] by simp
qed

text \<open>
  C23. A PUBLISH round trip: a well-formed message that fits the transmit buffer
  is encoded; the bytes reported are one complete frame, and decoding them, even
  with more bytes behind them, gives back the same message.
\<close>

theorem publish_roundtrip:
  assumes "publish_ok p" "5 + length (publish_content p) \<le> length b" "length b \<le> 268435456"
  shows "\<exists>n b'. Publish_encode p b = (Ok n, b') \<and> length b' = length b
    \<and> complete_packet_len (take n b' @ rest) = Ok (Some n)
    \<and> decode (take n b' @ rest) = Ok (Some (PublishPacket p))"
proof -
  let ?f = "frame (publish_header p) (publish_content p)"
  have l: "length (publish_content p) < 268435456" using assms(2,3) by simp
  have "encodes (Publish_encode p) b ?f"
    using assms l by (intro Publish_encodes) (auto simp: publish_ok_def)
  then obtain b' where b': "Publish_encode p b = (Ok (length ?f), b')" "length b' = length b"
      "take (length ?f) b' = ?f"
    by (auto simp: encodes_def)
  have "decode (?f @ rest) = Ok (Some (PublishPacket p))"
    using Publish_decode_frame [OF assms(1) l, of rest]
    by (simp add: decode_def frame_def publish_header_bits Let_def)
  with b' frame_complete [OF l] show ?thesis by auto
qed

definition demo_publish :: Publish where
  "demo_publish = \<lparr>pub_topic = lit ''a/b'', pub_qos = AtLeastOnce, pub_retain = True,
     pub_payload = lit ''ON'', pub_packet_id = Some 2\<rparr>"

lemma demo_publish_ok: "publish_ok demo_publish"
  by (simp add: publish_ok_def demo_publish_def utf8_valid_ascii lit_def)

theorem publish_roundtrip_witness:
  "\<exists>n b'. Publish_encode demo_publish (replicate 512 0) = (Ok n, b')
    \<and> decode (take n b' @ [0xC0]) = Ok (Some (PublishPacket demo_publish))"
  using publish_roundtrip [OF demo_publish_ok, of "replicate 512 0" "[0xC0]"]
  by (auto simp: publish_content_def demo_publish_def)

text \<open>
  What the PUBLISH encoder answers on every input, for a buffer of at least
  five bytes: an over-long topic, a missing packet identifier and a message that
  does not fit are reported as error values; it never panics.
\<close>

theorem publish_encode_outcome:
  assumes "5 \<le> length b" "length b \<le> 268435456"
  shows "fst (Publish_encode p b) =
    (if 65535 < length (pub_topic p) then Err (Protocol PayloadTooLarge)
     else if length b < 7 + length (pub_topic p) then Err BufferTooSmall
     else if pub_qos p \<noteq> AtMostOnce \<and> pub_packet_id p = None then Err malformed
     else if length b < 5 + length (publish_content p) then Err BufferTooSmall
     else Ok (length (frame (publish_header p) (publish_content p))))"
  by (rule Publish_encode_cases [OF assms])

theorem publish_encode_outcome_witness:
  "fst (Publish_encode demo_publish (replicate 10 0)) = Err BufferTooSmall
    \<and> fst (Publish_encode (demo_publish\<lparr>pub_packet_id := None\<rparr>) (replicate 10 0)) = Err malformed"
  using publish_encode_outcome [of "replicate 10 0" demo_publish]
    publish_encode_outcome [of "replicate 10 0" "demo_publish\<lparr>pub_packet_id := None\<rparr>"]
  by (simp add: demo_publish_def publish_content_def)

text \<open>
  The CONNECT packet on the wire: fixed header, length, protocol name and
  level 4, the flags, the keep-alive, the client identifier and the credentials
  that are present, in the order and with the length prefixes of MQTT 3.1.1.
\<close>

theorem connect_wire_format:
  assumes "connect_ok c" "5 + length (connect_content c) \<le> length b" "length b \<le> 268435456"
  shows "\<exists>n b'. Connect_encode c b = (Ok n, b') \<and>
    take n b' = [0x10] @ vbi (length (connect_content c)) @
      prefixed (lit ''MQTT'') @ [4, connect_flags c] @ to_be_bytes (keep_alive c) @ prefixed (client_id c) @
      (case username c of None \<Rightarrow> [] | Some u \<Rightarrow> prefixed u) @
      (case password c of None \<Rightarrow> [] | Some w \<Rightarrow> prefixed w)"
proof -
  have "encodes (Connect_encode c) b (frame 0x10 (connect_content c))"
    using assms by (intro Connect_encodes) auto
  then show ?thesis by (auto simp: encodes_def frame_def connect_content_def optional_field_def)
qed

theorem connect_wire_format_witness:
  "\<exists>n b'. Connect_encode (Connect_new (lit ''mqtt_gate'') 50 True) (replicate 512 0) = (Ok n, b')
    \<and> take n b' = [0x10, 21, 0, 4] @ lit ''MQTT'' @ [4, 2, 0, 50, 0, 9] @ lit ''mqtt_gate''"
  using connect_wire_format [of "Connect_new (lit ''mqtt_gate'') 50 True" "replicate 512 0"]
  by (auto simp: Connect_new_def connect_ok_def connect_content_def optional_field_def connect_flags_def
    prefixed_def to_be_bytes_def vbi.simps)


end
