(* ===== verification/MqttClient.thy ===== *)
theory MqttClient
  imports MqttPacket
begin

text \<open>
  The MQTT client of \<open>vendor/mqtt-async-embedded/src/client.rs\<close> over a transport
  it does not know. The transport is an environment: what its \<open>recv\<close> will deliver
  and how its \<open>send\<close> will answer are scripts, so every segmentation of the byte
  stream, every error and every await that never completes is a case. An
  operation returns \<open>None\<close> when it waits for the transport, together with the
  client as a dropped future leaves it.
\<close>

section \<open>The transport\<close>

datatype 'e recv_event = Chunk bytes | RecvError 'e

text \<open>A send completes, fails, or is dropped after some bytes went out.\<close>

datatype 'e send_event = SendOk | SendError 'e | SendDropped nat

record 'e net =
  incoming :: "'e recv_event list"
  send_script :: "'e send_event list"
  sent :: bytes
  clock :: ticks

text \<open>Code that may wait: \<open>None\<close> while it does.\<close>

type_synonym ('e, 'a) awaited = "('e mqtt_error, 'a) outcome option"

definition net_send :: "bytes \<Rightarrow> 'e net \<Rightarrow> ('e, unit) awaited \<times> 'e net" where
  "net_send buf n =
     (case send_script n of
        [] \<Rightarrow> (Some (Ok ()), n\<lparr>sent := sent n @ buf\<rparr>)
      | SendOk # es \<Rightarrow> (Some (Ok ()), n\<lparr>sent := sent n @ buf, send_script := es\<rparr>)
      | SendError e # es \<Rightarrow> (Some (Err (Transport e)), n\<lparr>send_script := es\<rparr>)
      | SendDropped k # es \<Rightarrow> (None, n\<lparr>sent := sent n @ take k buf, send_script := es\<rparr>))"

text \<open>\<open>recv\<close> into a buffer of \<open>room\<close> bytes: at most that many, the rest stays in the stream.\<close>

definition net_recv :: "nat \<Rightarrow> 'e net \<Rightarrow> ('e, bytes) awaited \<times> 'e net" where
  "net_recv room n =
     (case incoming n of
        [] \<Rightarrow> (None, n)
      | RecvError e # es \<Rightarrow> (Some (Err (Transport e)), n\<lparr>incoming := es\<rparr>)
      | Chunk bs # es \<Rightarrow>
          (Some (Ok (take room bs)),
           n\<lparr>incoming := (if room < length bs then Chunk (drop room bs) # es else es)\<rparr>))"

section \<open>The client\<close>

record MqttOptions =
  opt_client_id :: str
  broker_addr :: str
  broker_port :: u16
  opt_keep_alive :: ticks
  opt_username :: "str option"
  opt_password :: "bytes option"

definition MqttOptions_new :: "time_ops \<Rightarrow> str \<Rightarrow> str \<Rightarrow> u16 \<Rightarrow> MqttOptions" where
  "MqttOptions_new tu cid addr port = \<lparr>opt_client_id = cid, broker_addr = addr, broker_port = port,
     opt_keep_alive = from_secs tu 60, opt_username = None, opt_password = None\<rparr>"

definition with_keep_alive :: "ticks \<Rightarrow> MqttOptions \<Rightarrow> MqttOptions" where
  "with_keep_alive d opts = opts\<lparr>opt_keep_alive := d\<rparr>"

definition with_credentials :: "str \<Rightarrow> bytes \<Rightarrow> MqttOptions \<Rightarrow> MqttOptions" where
  "with_credentials user pass opts = opts\<lparr>opt_username := Some user, opt_password := Some pass\<rparr>"

datatype ConnectionState = Disconnected | Connecting | Connected

record 'e MqttClient =
  transport :: "'e net"
  options :: MqttOptions
  tx_buffer :: bytes
  rx_buffer :: bytes
  rx_len :: nat
  rx_consumed :: nat
  conn_state :: ConnectionState
  last_tx_time :: ticks
  next_packet_id :: u16

definition MqttClient_new :: "nat \<Rightarrow> 'e net \<Rightarrow> MqttOptions \<Rightarrow> 'e MqttClient" where
  "MqttClient_new buf_size net opts = \<lparr>transport = net, options = opts,
     tx_buffer = replicate buf_size 0, rx_buffer = replicate buf_size 0, rx_len = 0, rx_consumed = 0,
     conn_state = Disconnected, last_tx_time = clock net, next_packet_id = 1\<rparr>"

text \<open>Sequencing: \<open>?\<close> on an awaited result.\<close>

type_synonym ('e, 'a) client_op = "'e MqttClient \<Rightarrow> ('e, 'a) awaited \<times> 'e MqttClient"

definition bind :: "('e, 'a) client_op \<Rightarrow> ('a \<Rightarrow> ('e, 'b) client_op) \<Rightarrow> ('e, 'b) client_op" where
  "bind m f c =
     (case m c of
        (Some (Ok v), c') \<Rightarrow> f v c'
      | (Some (Err e), c') \<Rightarrow> (Some (Err e), c')
      | (Some Panic, c') \<Rightarrow> (Some Panic, c')
      | (None, c') \<Rightarrow> (None, c'))"

definition done_with :: "('e mqtt_error, 'a) outcome \<Rightarrow> ('e, 'a) client_op" where
  "done_with r c = (Some r, c)"

definition send_bytes :: "bytes \<Rightarrow> ('e, unit) client_op" where
  "send_bytes buf c = (case net_send buf (transport c) of (r, n) \<Rightarrow> (r, c\<lparr>transport := n\<rparr>))"

text \<open>Encoding into the transmit buffer.\<close>

definition encode_tx :: "(perr, nat) writer \<Rightarrow> ('e, nat) client_op" where
  "encode_tx enc c = (case enc (tx_buffer c) of (r, b) \<Rightarrow> (Some (cast_err r), c\<lparr>tx_buffer := b\<rparr>))"

definition get_next_packet_id :: "'e MqttClient \<Rightarrow> u16 \<times> 'e MqttClient" where
  "get_next_packet_id c =
     (let pid = next_packet_id c + 1;
          pid = (if pid = 0 then 1 else pid)
      in (pid, c\<lparr>next_packet_id := pid\<rparr>))"

definition send_packet :: "(perr, nat) writer \<Rightarrow> ('e, unit) client_op" where
  "send_packet enc c =
     (if conn_state c \<noteq> Connected then (Some (Err NotConnected), c)
      else bind (encode_tx enc) (\<lambda>len.
           bind (\<lambda>c. send_bytes (take len (tx_buffer c)) c) (\<lambda>_.
           \<lambda>c. (Some (Ok ()), c\<lparr>last_tx_time := clock (transport c)\<rparr>))) c)"

definition publish :: "str \<Rightarrow> bytes \<Rightarrow> QoS \<Rightarrow> bool \<Rightarrow> ('e, unit) client_op" where
  "publish topic payload qos retain c =
     (case (if qos = AtMostOnce then (None, c)
            else (case get_next_packet_id c of (pid, c) \<Rightarrow> (Some pid, c))) of
        (packet_id, c) \<Rightarrow>
          send_packet (Publish_encode \<lparr>pub_topic = topic, pub_qos = qos, pub_retain = retain,
            pub_payload = payload, pub_packet_id = packet_id\<rparr>) c)"

definition subscribe :: "str \<Rightarrow> QoS \<Rightarrow> ('e, unit) client_op" where
  "subscribe topic qos c =
     (case get_next_packet_id c of
        (pid, c) \<Rightarrow> send_packet (Subscribe_encode \<lparr>sub_packet_id = pid, sub_topics = [(topic, qos)]\<rparr>) c)"

section \<open>Receiving\<close>

text \<open>Bytes that \<open>recv\<close> can still deliver, counting the events: the loop below consumes some each round.\<close>

fun stream_size :: "'e recv_event list \<Rightarrow> nat" where
  "stream_size [] = 0"
| "stream_size (Chunk bs # es) = Suc (length bs + stream_size es)"
| "stream_size (RecvError e # es) = Suc (stream_size es)"

definition store_rx :: "bytes \<Rightarrow> 'e MqttClient \<Rightarrow> 'e MqttClient" where
  "store_rx bs c = c\<lparr>rx_buffer := overwrite (rx_len c) bs (rx_buffer c), rx_len := rx_len c + length bs\<rparr>"

lemma net_recv_smaller:
  "net_recv room n = (Some (Ok bs), n') \<Longrightarrow> bs \<noteq> [] \<Longrightarrow> stream_size (incoming n') < stream_size (incoming n)"
  by (auto simp: net_recv_def split: list.splits recv_event.splits if_splits)

function next_packet_loop :: "('e, nat option) client_op" where
  "next_packet_loop c =
     (if length (rx_buffer c) < rx_len c then (Some Panic, c)
      else case cast_err (complete_packet_len (take (rx_len c) (rx_buffer c))) of
        Panic \<Rightarrow> (Some Panic, c)
      | Err e \<Rightarrow> (Some (Err e), c)
      | Ok (Some len) \<Rightarrow> (Some (Ok (Some len)), c)
      | Ok None \<Rightarrow>
          if rx_len c = length (rx_buffer c) then (Some (Err BufferTooSmall), c)
          else (case net_recv (length (rx_buffer c) - rx_len c) (transport c) of
                  (None, n) \<Rightarrow> (None, c\<lparr>transport := n\<rparr>)
                | (Some Panic, n) \<Rightarrow> (Some Panic, c\<lparr>transport := n\<rparr>)
                | (Some (Err e), n) \<Rightarrow> (Some (Err e), c\<lparr>transport := n\<rparr>)
                | (Some (Ok bs), n) \<Rightarrow>
                    if bs = [] then (Some (Ok None), c\<lparr>transport := n\<rparr>)
                    else next_packet_loop (store_rx bs (c\<lparr>transport := n\<rparr>))))"
  by auto
termination
  by (relation "measure (\<lambda>c. stream_size (incoming (transport c)))")
    (auto simp: store_rx_def dest: net_recv_smaller [OF sym])

declare next_packet_loop.simps [simp del]

definition drop_consumed :: "('e, unit) client_op" where
  "drop_consumed c =
     (if 0 < rx_consumed c
      then (case (copy_within (rx_consumed c) (rx_len c) 0 :: (perr, unit) writer) (rx_buffer c) of
              (Ok _, b) \<Rightarrow> (Some (Ok ()), c\<lparr>rx_buffer := b, rx_len := rx_len c - rx_consumed c, rx_consumed := 0\<rparr>)
            | (_, b) \<Rightarrow> (Some Panic, c))
      else (Some (Ok ()), c))"

definition next_packet :: "('e, nat option) client_op" where
  "next_packet = bind drop_consumed (\<lambda>_. next_packet_loop)"

definition as_secs :: "time_ops \<Rightarrow> ticks \<Rightarrow> nat" where
  "as_secs tu t = as_millis tu t div 1000"

definition connect_packet :: "time_ops \<Rightarrow> MqttOptions \<Rightarrow> Connect" where
  "connect_packet tu opts =
     (let c = Connect_new (opt_client_id opts) (of_nat (as_secs tu (opt_keep_alive opts))) True in
      case (opt_username opts, opt_password opts) of
        (Some user, Some pass) \<Rightarrow> Connect_with_credentials user pass c
      | _ \<Rightarrow> c)"

definition handle_connack :: "MqttPacket option \<Rightarrow> ('e, unit) client_op" where
  "handle_connack packet c =
     (case packet of
        None \<Rightarrow> (Some (Err (Protocol InvalidResponse)), c)
      | Some (ConnAckPacket connack) \<Rightarrow>
          if reason_code connack = 0
          then (Some (Ok ()), c\<lparr>conn_state := Connected, last_tx_time := clock (transport c)\<rparr>)
          else (Some (Err (ConnectionRefused (connect_reason_from (reason_code connack)))),
                c\<lparr>conn_state := Disconnected\<rparr>)
      | Some _ \<Rightarrow> (Some (Err (Protocol InvalidResponse)), c\<lparr>conn_state := Disconnected\<rparr>))"

definition connect :: "time_ops \<Rightarrow> ('e, unit) client_op" where
  "connect tu c =
     (let c = c\<lparr>conn_state := Connecting\<rparr> in
      bind (encode_tx (Connect_encode (connect_packet tu (options c)))) (\<lambda>len.
      bind (\<lambda>c. send_bytes (take len (tx_buffer c)) c) (\<lambda>_.
      bind (\<lambda>c. next_packet (c\<lparr>rx_len := 0, rx_consumed := 0\<rparr>)) (\<lambda>found.
        case found of
          None \<Rightarrow> done_with (Err (Protocol InvalidResponse))
        | Some len \<Rightarrow>
            bind (\<lambda>c. (Some (decode (take len (rx_buffer c))), c\<lparr>rx_consumed := len\<rparr>)) handle_connack))) c)"

definition keep_alive_ping :: "('e, unit) client_op" where
  "keep_alive_ping c =
     (if opt_keep_alive (options c) \<le> clock (transport c) - last_tx_time c
      then send_packet PingReq_encode c else (Some (Ok ()), c))"

definition acknowledge :: "Publish \<Rightarrow> ('e, unit) client_op" where
  "acknowledge p =
     (case (pub_qos p, pub_packet_id p) of
        (AtLeastOnce, Some pid) \<Rightarrow> send_packet (PubAck_encode \<lparr>ack_packet_id = pid\<rparr>)
      | _ \<Rightarrow> done_with (Ok ()))"

text \<open>\<open>poll\<close> checks the keep-alive once, on entry; a pending poll that is resumed goes on with \<open>poll_body\<close>.\<close>

definition poll_body :: "('e, Publish option) client_op" where
  "poll_body =
     bind next_packet (\<lambda>found.
       case found of
         None \<Rightarrow> done_with (Ok None)
       | Some len \<Rightarrow>
           bind (\<lambda>c. (Some (or_panic (get (rx_buffer c) 0)), c)) (\<lambda>first.
           if drop_bit 4 first \<noteq> 3 then (\<lambda>c. (Some (Ok None), c\<lparr>rx_consumed := len\<rparr>))
           else
             bind (\<lambda>c. (Some (cast_err (Publish_decode (take len (rx_buffer c)))), c)) (\<lambda>p.
             bind (acknowledge p) (\<lambda>_.
             bind (\<lambda>c. (Some (cast_err (Publish_decode (take len (rx_buffer c)))), c\<lparr>rx_consumed := len\<rparr>)) (\<lambda>p.
             done_with (Ok (Some p)))))))"

definition poll :: "('e, Publish option) client_op" where
  "poll c =
     (if conn_state c \<noteq> Connected then (Some (Err NotConnected), c)
      else bind keep_alive_ping (\<lambda>_. poll_body) c)"

section \<open>The receive buffer as a window on the byte stream\<close>

definition client_ok :: "'e MqttClient \<Rightarrow> bool" where
  "client_ok c \<longleftrightarrow> rx_consumed c \<le> rx_len c \<and> rx_len c \<le> length (rx_buffer c)"

text \<open>What is still to be handed out, and what the transport will deliver before it fails or runs dry.\<close>

definition buffered :: "'e MqttClient \<Rightarrow> bytes" where
  "buffered c = drop (rx_consumed c) (take (rx_len c) (rx_buffer c))"

fun available :: "'e recv_event list \<Rightarrow> bytes" where
  "available [] = []"
| "available (Chunk bs # es) = (if bs = [] then [] else bs @ available es)"
| "available (RecvError e # es) = []"

definition inbox :: "'e MqttClient \<Rightarrow> bytes" where
  "inbox c = buffered c @ available (incoming (transport c))"

text \<open>Everything an operation that only receives leaves alone.\<close>

definition rx_only :: "'e MqttClient \<Rightarrow> 'e MqttClient \<Rightarrow> bool" where
  "rx_only c c' \<longleftrightarrow> options c' = options c \<and> tx_buffer c' = tx_buffer c \<and> conn_state c' = conn_state c \<and>
     last_tx_time c' = last_tx_time c \<and> next_packet_id c' = next_packet_id c \<and>
     sent (transport c') = sent (transport c) \<and> send_script (transport c') = send_script (transport c) \<and>
     clock (transport c') = clock (transport c) \<and> length (rx_buffer c') = length (rx_buffer c)"

lemma rx_only_refl [simp]: "rx_only c c"
  by (simp add: rx_only_def)

lemma rx_only_trans: "rx_only c c' \<Longrightarrow> rx_only c' c'' \<Longrightarrow> rx_only c c''"
  by (simp add: rx_only_def)

text \<open>A byte string that the framing recognises as one packet.\<close>

definition packet_bytes :: "bytes \<Rightarrow> bool" where
  "packet_bytes pkt \<longleftrightarrow> (\<exists>hdr c. pkt = frame hdr c \<and> length c < 268435456)"

lemma packet_bytes_facts:
  assumes "packet_bytes pkt"
  shows "k < length pkt \<Longrightarrow> complete_packet_len (take k pkt) = Ok None"
    "complete_packet_len (pkt @ rest) = Ok (Some (length pkt))" "2 \<le> length pkt"
  using assms frame_incomplete frame_complete
  by (auto simp: packet_bytes_def length_frame Suc_le_eq)

lemma drop_consumed_ok:
  assumes "client_ok c"
  obtains c' where "drop_consumed c = (Some (Ok ()), c')" "client_ok c'" "rx_consumed c' = 0"
    "buffered c' = buffered c" "incoming (transport c') = incoming (transport c)" "rx_only c c'"
proof (cases "0 < rx_consumed c")
  case True
  define c' where "c' = c\<lparr>rx_buffer := overwrite 0 (buffered c) (rx_buffer c),
    rx_len := rx_len c - rx_consumed c, rx_consumed := 0\<rparr>"
  have l: "length (buffered c) = rx_len c - rx_consumed c"
    using assms by (simp add: buffered_def client_ok_def)
  have "drop_consumed c = (Some (Ok ()), c')"
    using True assms
    by (auto simp: drop_consumed_def copy_within_def client_ok_def c'_def buffered_def drop_take)
  moreover have "client_ok c'" "rx_only c c'"
    using assms l by (auto simp: client_ok_def rx_only_def c'_def overwrite_def)
  moreover have "buffered c' = buffered c"
  proof -
    have "buffered c' = take (length (buffered c)) (overwrite 0 (buffered c) (rx_buffer c))"
      unfolding buffered_def [of c'] by (simp add: c'_def l)
    then show ?thesis by (simp add: overwrite_def)
  qed
  ultimately show ?thesis using that by (simp add: c'_def)
next
  case False
  then show ?thesis using assms by (intro that [of c]) (simp_all add: drop_consumed_def)
qed

lemma store_rx_facts:
  assumes "client_ok c" "rx_consumed c = 0" "rx_len c + length bs \<le> length (rx_buffer c)"
  shows "client_ok (store_rx bs c)" "buffered (store_rx bs c) = buffered c @ bs" "rx_only c (store_rx bs c)"
    "rx_consumed (store_rx bs c) = 0" "transport (store_rx bs c) = transport c"
  using assms by (auto simp: client_ok_def buffered_def store_rx_def rx_only_def overwrite_def)

lemma net_recv_available:
  assumes "available (incoming n) \<noteq> []" "0 < room"
  obtains bs n' where "net_recv room n = (Some (Ok bs), n')" "bs \<noteq> []" "length bs \<le> room"
    "available (incoming n) = bs @ available (incoming n')"
    "sent n' = sent n" "send_script n' = send_script n" "clock n' = clock n"
proof -
  obtain bs es where i: "incoming n = Chunk bs # es" "bs \<noteq> []"
    using assms(1) by (cases "incoming n" rule: available.cases) (auto split: if_splits)
  define n' where "n' = n\<lparr>incoming := (if room < length bs then Chunk (drop room bs) # es else es)\<rparr>"
  have "net_recv room n = (Some (Ok (take room bs)), n')" by (simp add: net_recv_def i n'_def)
  moreover have "take room bs \<noteq> []" using i assms(2) by simp
  moreover have "available (incoming n) = take room bs @ available (incoming n')"
    using i by (simp add: n'_def)
  ultimately show ?thesis using that by (simp add: n'_def)
qed

text \<open>
  The loop of \<open>next_packet\<close> finds the packet at the front of the stream, however
  the stream is cut into reads, and keeps every byte behind it.
\<close>

lemma next_packet_loop_finds:
  assumes "client_ok c" "rx_consumed c = 0" "inbox c = pkt @ rest" "packet_bytes pkt"
    and "length pkt \<le> length (rx_buffer c)"
  shows "\<exists>c'. next_packet_loop c = (Some (Ok (Some (length pkt))), c') \<and> client_ok c' \<and> rx_consumed c' = 0
    \<and> inbox c' = pkt @ rest \<and> length pkt \<le> rx_len c' \<and> take (length pkt) (rx_buffer c') = pkt \<and> rx_only c c'"
  using assms
proof (induction "stream_size (incoming (transport c))" arbitrary: c rule: less_induct)
  case less
  note P = packet_bytes_facts [OF less.prems(4)]
  let ?B = "take (rx_len c) (rx_buffer c)"
  have B: "buffered c = ?B" "length ?B = rx_len c" "\<not> length (rx_buffer c) < rx_len c"
    using less.prems(1,2) by (auto simp: buffered_def client_ok_def)
  have eq: "?B @ available (incoming (transport c)) = pkt @ rest"
    using less.prems(3) B by (simp add: inbox_def)
  show ?case
  proof (cases "length pkt \<le> rx_len c")
    case True
    then obtain r where r: "?B = pkt @ r" using eq B(2) by (metis append_eq_append_conv_if append_take_drop_id)
    then have "next_packet_loop c = (Some (Ok (Some (length pkt))), c)"
      using B(3) P(2) [of r] by (subst next_packet_loop.simps) simp
    moreover have "take (length pkt) (rx_buffer c) = pkt"
      using True r by (metis append_eq_conv_conj min.absorb1 take_take)
    ultimately show ?thesis using less.prems True by auto
  next
    case False
    then have pre: "?B = take (rx_len c) pkt" using eq B(2)
      by (metis append_eq_append_conv_if linorder_le_cases)
    have ne: "available (incoming (transport c)) \<noteq> []" using arg_cong [OF eq, of length] False B(2) by auto
    have room: "0 < length (rx_buffer c) - rx_len c" using False less.prems(5) by simp
    obtain bs n' where n': "net_recv (length (rx_buffer c) - rx_len c) (transport c) = (Some (Ok bs), n')"
        "bs \<noteq> []" "length bs \<le> length (rx_buffer c) - rx_len c"
        "available (incoming (transport c)) = bs @ available (incoming n')"
        "sent n' = sent (transport c)" "send_script n' = send_script (transport c)" "clock n' = clock (transport c)"
      using net_recv_available [OF ne room] .
    let ?c = "c\<lparr>transport := n'\<rparr>"
    have o: "client_ok ?c" "rx_consumed ?c = 0" "rx_len ?c + length bs \<le> length (rx_buffer ?c)"
      using less.prems(1,2) n'(3) room by (auto simp: client_ok_def)
    note S = store_rx_facts [OF o]
    have ro: "rx_only c (store_rx bs ?c)"
      using S(3) n'(5-7) by (simp add: rx_only_def)
    have "next_packet_loop c = next_packet_loop (store_rx bs ?c)"
      using B(3) P(1) [of "rx_len c"] pre False n'(1,2) room by (subst next_packet_loop.simps) simp
    moreover have "inbox (store_rx bs ?c) = pkt @ rest"
      using S(2,5) n'(4) less.prems(3) by (simp add: inbox_def buffered_def)
    moreover have "stream_size (incoming (transport (store_rx bs ?c))) < stream_size (incoming (transport c))"
      using net_recv_smaller [OF n'(1,2)] S(5) by simp
    moreover have "length pkt \<le> length (rx_buffer (store_rx bs ?c))"
      using ro less.prems(5) by (simp add: rx_only_def)
    ultimately show ?thesis
      using less.hyps [of "store_rx bs ?c"] S(1,4) less.prems(4) rx_only_trans [OF ro] by auto
  qed
qed

lemma next_packet_finds:
  assumes "client_ok c" "inbox c = pkt @ rest" "packet_bytes pkt" "length pkt \<le> length (rx_buffer c)"
  obtains c' where "next_packet c = (Some (Ok (Some (length pkt))), c')" "client_ok c'" "rx_consumed c' = 0"
    "inbox c' = pkt @ rest" "length pkt \<le> rx_len c'" "take (length pkt) (rx_buffer c') = pkt" "rx_only c c'"
proof -
  obtain c1 where c1: "drop_consumed c = (Some (Ok ()), c1)" "client_ok c1" "rx_consumed c1 = 0"
    "buffered c1 = buffered c" "incoming (transport c1) = incoming (transport c)" "rx_only c c1"
    using drop_consumed_ok [OF assms(1)] .
  have i: "inbox c1 = pkt @ rest" using assms(2) c1(4,5) by (simp add: inbox_def)
  have l: "length pkt \<le> length (rx_buffer c1)" using assms(4) c1(6) by (simp add: rx_only_def)
  show ?thesis
    using next_packet_loop_finds [OF c1(2,3) i assms(3) l] c1(1) that rx_only_trans [OF c1(6)]
    by (auto simp: next_packet_def bind_def)
qed

text \<open>Handing out the packet at the front removes it from the inbox.\<close>

lemma inbox_consume:
  assumes "client_ok c" "rx_consumed c = 0" "inbox c = pkt @ rest" "length pkt \<le> rx_len c"
  shows "client_ok (c\<lparr>rx_consumed := length pkt\<rparr>)" "inbox (c\<lparr>rx_consumed := length pkt\<rparr>) = rest"
proof -
  let ?B = "take (rx_len c) (rx_buffer c)"
  have "length ?B = rx_len c" using assms(1) by (simp add: client_ok_def)
  moreover have "?B @ available (incoming (transport c)) = pkt @ rest"
    using assms(2,3) by (simp add: inbox_def buffered_def)
  ultimately have "drop (length pkt) ?B @ available (incoming (transport c)) = rest"
    using assms(4) by (metis append_eq_conv_conj drop_append diff_is_0_eq drop_0)
  then show "inbox (c\<lparr>rx_consumed := length pkt\<rparr>) = rest" by (simp add: inbox_def buffered_def)
  show "client_ok (c\<lparr>rx_consumed := length pkt\<rparr>)" using assms(1,4) by (simp add: client_ok_def)
qed

section \<open>Sending\<close>

definition sends :: "'e MqttClient \<Rightarrow> bool" where
  "sends c \<longleftrightarrow> conn_state c = Connected \<and> send_script (transport c) = []"

lemma send_packet_ok:
  assumes "sends c" "encodes enc (tx_buffer c) pkt"
  obtains c' where "send_packet enc c = (Some (Ok ()), c')" "sent (transport c') = sent (transport c) @ pkt"
    "sends c'" "rx_buffer c' = rx_buffer c" "rx_len c' = rx_len c" "rx_consumed c' = rx_consumed c"
    "incoming (transport c') = incoming (transport c)" "clock (transport c') = clock (transport c)"
    "last_tx_time c' = clock (transport c)" "options c' = options c" "length (tx_buffer c') = length (tx_buffer c)"
    "next_packet_id c' = next_packet_id c"
proof -
  obtain b where b: "enc (tx_buffer c) = (Ok (length pkt), b)" "length b = length (tx_buffer c)"
      "take (length pkt) b = pkt"
    using assms(2) by (auto simp: encodes_def)
  show ?thesis
    by (rule that [of "c\<lparr>tx_buffer := b, transport := (transport c)\<lparr>sent := sent (transport c) @ pkt\<rparr>,
          last_tx_time := clock (transport c)\<rparr>"])
      (use assms(1) b in \<open>simp_all add: send_packet_def sends_def bind_def encode_tx_def send_bytes_def
        net_send_def\<close>)
qed

lemma inbox_cong:
  "rx_buffer c' = rx_buffer c \<Longrightarrow> rx_len c' = rx_len c \<Longrightarrow> rx_consumed c' = rx_consumed c \<Longrightarrow>
   incoming (transport c') = incoming (transport c) \<Longrightarrow> inbox c' = inbox c \<and> (client_ok c' \<longleftrightarrow> client_ok c)"
  by (simp add: inbox_def buffered_def client_ok_def)

definition puback :: "u16 \<Rightarrow> bytes" where
  "puback pid = [0x40, 0x02] @ to_be_bytes pid"

lemma PubAck_encodes:
  assumes "4 \<le> length b"
  shows "encodes (PubAck_encode \<lparr>ack_packet_id = pid\<rparr>) b (puback pid)"
proof -
  have "(ucast (pid AND 0xFF) :: u8) = ucast pid"
  proof -
    have "pid AND 0xFF = take_bit 8 pid" by (simp add: take_bit_eq_mask mask_numeral)
    moreover have "(ucast (take_bit 8 pid) :: u8) = ucast pid"
      by (rule bit_word_eqI) (auto simp only: bit_simps, simp)
    ultimately show ?thesis by (simp only:)
  qed
  then show ?thesis
    using assms by (simp add: encodes_def PubAck_encode_def puback_def to_be_bytes_def seq_def try_put_slice_def
        overwrite_def ret_def)
qed

lemma PingReq_encodes: "2 \<le> length b \<Longrightarrow> encodes PingReq_encode b [0xC0, 0]"
  by (cases b rule: remdups_adj.cases) (auto simp: encodes_def PingReq_encode_def two_bytes_def)

section \<open>Polling\<close>

definition publish_bytes :: "Publish \<Rightarrow> bytes" where
  "publish_bytes p = frame (publish_header p) (publish_content p)"

definition ack_of :: "Publish \<Rightarrow> bytes" where
  "ack_of p = (case (pub_qos p, pub_packet_id p) of (AtLeastOnce, Some pid) \<Rightarrow> puback pid | _ \<Rightarrow> [])"

definition ping_due :: "'e MqttClient \<Rightarrow> bool" where
  "ping_due c \<longleftrightarrow> opt_keep_alive (options c) \<le> clock (transport c) - last_tx_time c"

definition deliverable :: "'e MqttClient \<Rightarrow> Publish \<Rightarrow> bool" where
  "deliverable c p \<longleftrightarrow> publish_ok p \<and> length (publish_content p) < 268435456 \<and>
     length (publish_bytes p) \<le> length (rx_buffer c)"

lemma publish_packet_bytes: "deliverable c p \<Longrightarrow> packet_bytes (publish_bytes p)"
  by (auto simp: deliverable_def packet_bytes_def publish_bytes_def)

lemma bind_step: "m c = (Some (Ok v), c') \<Longrightarrow> bind m f c = f v c'"
  by (simp add: bind_def)

text \<open>The first two actions of \<open>poll\<close>: a ping when one is due, then the packet at the front.\<close>

lemma ping_step:
  assumes "client_ok c" "sends c" "4 \<le> length (tx_buffer c)"
  obtains c' where "keep_alive_ping c = (Some (Ok ()), c')"
    "client_ok c'" "sends c'" "inbox c' = inbox c" "length (tx_buffer c') = length (tx_buffer c)"
    "length (rx_buffer c') = length (rx_buffer c)"
    "sent (transport c') = sent (transport c) @ (if ping_due c then [0xC0, 0] else [])"
proof (cases "ping_due c")
  case True
  have e: "encodes PingReq_encode (tx_buffer c) [0xC0, 0]" using assms(3) by (intro PingReq_encodes) simp
  obtain c' where c': "send_packet PingReq_encode c = (Some (Ok ()), c')"
      "sent (transport c') = sent (transport c) @ [0xC0, 0]" "sends c'" "rx_buffer c' = rx_buffer c"
      "rx_len c' = rx_len c" "rx_consumed c' = rx_consumed c" "incoming (transport c') = incoming (transport c)"
      "length (tx_buffer c') = length (tx_buffer c)"
    using send_packet_ok [OF assms(2) e] .
  show ?thesis
    using c' True assms(1) inbox_cong [of c' c] by (intro that [of c']) (simp_all add: ping_due_def keep_alive_ping_def)
next
  case False
  then show ?thesis using assms that [of c] by (simp add: ping_due_def keep_alive_ping_def)
qed

lemma ack_step:
  assumes "sends c" "4 \<le> length (tx_buffer c)"
  obtains c' where "acknowledge p c = (Some (Ok ()), c')"
    "sent (transport c') = sent (transport c) @ ack_of p" "sends c'" "rx_buffer c' = rx_buffer c"
    "rx_len c' = rx_len c" "rx_consumed c' = rx_consumed c" "incoming (transport c') = incoming (transport c)"
    "length (tx_buffer c') = length (tx_buffer c)"
proof (cases "\<exists>pid. pub_qos p = AtLeastOnce \<and> pub_packet_id p = Some pid")
  case True
  then obtain pid where pid: "pub_qos p = AtLeastOnce" "pub_packet_id p = Some pid" by blast
  have a: "acknowledge p = send_packet (PubAck_encode \<lparr>ack_packet_id = pid\<rparr>)" "ack_of p = puback pid"
    using pid by (simp_all add: acknowledge_def ack_of_def)
  show ?thesis
    by (rule send_packet_ok [OF assms(1) PubAck_encodes [OF assms(2), of pid]], rule that, simp only: a)
      (simp_all add: a)
next
  case False
  then show ?thesis
    using assms(1) that [of c]
    by (cases "pub_qos p"; cases "pub_packet_id p") (simp_all add: ack_of_def acknowledge_def done_with_def)
qed

lemma poll_delivers:
  assumes "client_ok c" "sends c" "4 \<le> length (tx_buffer c)" "deliverable c p"
    and "inbox c = publish_bytes p @ rest"
  shows "\<exists>c'. poll c = (Some (Ok (Some p)), c') \<and> client_ok c' \<and> sends c' \<and> inbox c' = rest
    \<and> length (tx_buffer c') = length (tx_buffer c) \<and> length (rx_buffer c') = length (rx_buffer c)
    \<and> sent (transport c') = sent (transport c) @ (if ping_due c then [0xC0, 0] else []) @ ack_of p"
proof -
  let ?n = "length (publish_bytes p)"
  obtain c1 where c1: "keep_alive_ping c = (Some (Ok ()), c1)"
    "client_ok c1" "sends c1" "inbox c1 = inbox c" "length (tx_buffer c1) = length (tx_buffer c)"
    "length (rx_buffer c1) = length (rx_buffer c)"
    "sent (transport c1) = sent (transport c) @ (if ping_due c then [0xC0, 0] else [])"
    using ping_step [OF assms(1-3)] .
  have l: "?n \<le> length (rx_buffer c1)" using assms(4) c1(6) by (simp add: deliverable_def)
  obtain c2 where c2: "next_packet c1 = (Some (Ok (Some ?n)), c2)" "client_ok c2" "rx_consumed c2 = 0"
    "inbox c2 = publish_bytes p @ rest" "?n \<le> rx_len c2" "take ?n (rx_buffer c2) = publish_bytes p" "rx_only c1 c2"
    using next_packet_finds [OF c1(2) _ publish_packet_bytes [OF assms(4)] l] c1(4) assms(5) by metis
  have s2: "sends c2" "4 \<le> length (tx_buffer c2)" using c2(7) c1(3,5) assms(3) by (simp_all add: rx_only_def sends_def)
  obtain c3 where c3: "acknowledge p c2 = (Some (Ok ()), c3)"
    "sent (transport c3) = sent (transport c2) @ ack_of p" "sends c3" "rx_buffer c3 = rx_buffer c2"
    "rx_len c3 = rx_len c2" "rx_consumed c3 = rx_consumed c2" "incoming (transport c3) = incoming (transport c2)"
    "length (tx_buffer c3) = length (tx_buffer c2)"
    using ack_step [OF s2, of p] .
  have hd: "get (rx_buffer c2) 0 = Some (publish_header p)"
  proof -
    have "rx_buffer c2 = publish_bytes p @ drop ?n (rx_buffer c2)" using c2(6) by (metis append_take_drop_id)
    then show ?thesis by (metis append_Cons frame_def get_Cons_0 publish_bytes_def)
  qed
  have dec: "Publish_decode (publish_bytes p) = Ok p"
    using Publish_decode_frame [of p "[]"] assms(4) by (simp add: deliverable_def publish_bytes_def)
  let ?c = "c3\<lparr>rx_consumed := ?n\<rparr>"
  have i3: "client_ok c3" "inbox c3 = publish_bytes p @ rest"
    using inbox_cong [of c3 c2] c2(2,4) c3(4-7) by auto
  have "poll c = (Some (Ok (Some p)), ?c)"
    using assms(2) c2(6) c3(4)
    by (simp add: poll_def poll_body_def sends_def bind_def c1(1) c2(1) hd publish_header_bits dec c3(1) done_with_def)
  moreover have "client_ok ?c" "inbox ?c = rest"
    using inbox_consume [OF i3(1) _ i3(2)] c3(5,6) c2(3,5) by auto
  ultimately show ?thesis
    using c1 c2(7) c3 by (auto simp: rx_only_def sends_def)
qed

section \<open>Dropped futures\<close>

lemma send_packet_rx:
  assumes "send_packet enc c = (r, c')"
  shows "inbox c' = inbox c" "client_ok c' = client_ok c" "rx_consumed c' = rx_consumed c"
    "rx_len c' = rx_len c" "rx_buffer c' = rx_buffer c" "incoming (transport c') = incoming (transport c)"
proof -
  have n: "net_send buf n = (s, n') \<Longrightarrow> incoming n' = incoming n" for buf and n n' :: "'a net" and s
    by (auto simp: net_send_def split: list.splits send_event.splits)
  have "rx_buffer c' = rx_buffer c \<and> rx_len c' = rx_len c \<and> rx_consumed c' = rx_consumed c \<and>
      incoming (transport c') = incoming (transport c)"
    using assms by (auto simp: send_packet_def bind_def encode_tx_def send_bytes_def dest: n
        split: if_splits prod.splits option.splits outcome.splits)
  then show "inbox c' = inbox c" "client_ok c' = client_ok c" "rx_consumed c' = rx_consumed c"
    "rx_len c' = rx_len c" "rx_buffer c' = rx_buffer c" "incoming (transport c') = incoming (transport c)"
    using inbox_cong [of c' c] by auto
qed

text \<open>A send that is dropped half way leaves a part of the packet in the stream.\<close>

lemma send_packet_dropped:
  assumes "conn_state c = Connected" "encodes enc (tx_buffer c) pkt" "send_script (transport c) = [SendDropped k]"
  obtains c' where "send_packet enc c = (None, c')" "sent (transport c') = sent (transport c) @ take k pkt" "sends c'"
    "length (tx_buffer c') = length (tx_buffer c)" "next_packet_id c' = next_packet_id c"
proof -
  obtain b where b: "enc (tx_buffer c) = (Ok (length pkt), b)" "length b = length (tx_buffer c)" "take (length pkt) b = pkt"
    using assms(2) by (auto simp: encodes_def)
  show ?thesis
    by (rule that [of "c\<lparr>tx_buffer := b,
          transport := (transport c)\<lparr>sent := sent (transport c) @ take k pkt, send_script := []\<rparr>\<rparr>"])
      (use assms b in \<open>simp_all add: send_packet_def sends_def bind_def encode_tx_def send_bytes_def net_send_def\<close>)
qed

lemma poll_drops_ack:
  assumes "client_ok c" "conn_state c = Connected" "4 \<le> length (tx_buffer c)" "deliverable c p" "\<not> ping_due c"
    and "inbox c = publish_bytes p @ rest" "pub_qos p = AtLeastOnce" "pub_packet_id p = Some pid"
    and "send_script (transport c) = [SendDropped k]"
  obtains c' where "poll c = (None, c')" "sent (transport c') = sent (transport c) @ take k (puback pid)" "sends c'"
    "length (tx_buffer c') = length (tx_buffer c)" "next_packet_id c' = next_packet_id c"
proof -
  let ?n = "length (publish_bytes p)"
  have l: "?n \<le> length (rx_buffer c)" using assms(4) by (simp add: deliverable_def)
  obtain c2 where c2: "next_packet c = (Some (Ok (Some ?n)), c2)" "take ?n (rx_buffer c2) = publish_bytes p" "rx_only c c2"
    using next_packet_finds [OF assms(1,6) publish_packet_bytes [OF assms(4)] l] by metis
  have s2: "conn_state c2 = Connected" "4 \<le> length (tx_buffer c2)" "send_script (transport c2) = [SendDropped k]"
    using c2(3) assms by (simp_all add: rx_only_def)
  obtain c3 where c3: "send_packet (PubAck_encode \<lparr>ack_packet_id = pid\<rparr>) c2 = (None, c3)"
    "sent (transport c3) = sent (transport c2) @ take k (puback pid)" "sends c3"
    "length (tx_buffer c3) = length (tx_buffer c2)" "next_packet_id c3 = next_packet_id c2"
    using send_packet_dropped [OF s2(1) PubAck_encodes [OF s2(2)] s2(3)] .
  have hd: "get (rx_buffer c2) 0 = Some (publish_header p)"
  proof -
    have "rx_buffer c2 = publish_bytes p @ drop ?n (rx_buffer c2)" using c2(2) by (metis append_take_drop_id)
    then show ?thesis by (metis append_Cons frame_def get_Cons_0 publish_bytes_def)
  qed
  have dec: "Publish_decode (publish_bytes p) = Ok p"
    using Publish_decode_frame [of p "[]"] assms(4) by (simp add: deliverable_def publish_bytes_def)
  have "keep_alive_ping c = (Some (Ok ()), c)" using assms(5) by (simp add: keep_alive_ping_def ping_due_def)
  then have "poll c = (None, c3)"
    using assms(2,7,8) c2(2)
    by (simp add: poll_def poll_body_def bind_def c2(1) hd publish_header_bits dec acknowledge_def c3(1))
  then show ?thesis using that c3 c2(3) by (simp add: rx_only_def)
qed

lemma next_packet_loop_keeps:
  assumes "client_ok c" "rx_consumed c = 0" "next_packet_loop c = (r, c')"
    and "r = None \<or> r = Some (Ok (Some n))"
  shows "client_ok c' \<and> rx_consumed c' = 0 \<and> inbox c' = inbox c \<and> (r \<noteq> None \<longrightarrow> n \<le> rx_len c')"
  using assms
proof (induction "stream_size (incoming (transport c))" arbitrary: c rule: less_induct)
  case less
  let ?B = "take (rx_len c) (rx_buffer c)"
  have l: "\<not> length (rx_buffer c) < rx_len c" "length ?B = rx_len c"
    using less.prems(1) by (auto simp: client_ok_def)
  show ?case
  proof (cases "cast_err (complete_packet_len ?B) = (Ok None :: ('a mqtt_error, nat option) outcome)
      \<and> rx_len c \<noteq> length (rx_buffer c)")
    case False
    then have "c' = c \<and> complete_packet_len ?B = Ok (Some n) \<and> r = Some (Ok (Some n))"
    proof (cases "complete_packet_len ?B")
      case (Ok found)
      with False l(1) less.prems(3,4) show ?thesis
        by (cases found) (auto simp: next_packet_loop.simps [of c])
    next
      case (Err e)
      then have "e = malformed" by (rule complete_packet_len_facts(4))
      with Err l(1) less.prems(3,4) show ?thesis by (auto simp: next_packet_loop.simps [of c])
    next
      case Panic
      with complete_packet_len_facts(3) show ?thesis by blast
    qed
    then show ?thesis using less.prems(1,2) complete_packet_len_facts(2) [of ?B n] l(2) by auto
  next
    case True
    let ?room = "length (rx_buffer c) - rx_len c"
    have u: "next_packet_loop c = (case net_recv ?room (transport c) of
                  (None, n) \<Rightarrow> (None, c\<lparr>transport := n\<rparr>)
                | (Some Panic, n) \<Rightarrow> (Some Panic, c\<lparr>transport := n\<rparr>)
                | (Some (Err e), n) \<Rightarrow> (Some (Err e), c\<lparr>transport := n\<rparr>)
                | (Some (Ok bs), n) \<Rightarrow>
                    if bs = [] then (Some (Ok None), c\<lparr>transport := n\<rparr>)
                    else next_packet_loop (store_rx bs (c\<lparr>transport := n\<rparr>)))"
      using True l(1) by (subst next_packet_loop.simps) simp
    show ?thesis
    proof (cases "available (incoming (transport c)) = []")
      case empty: True
      have "net_recv ?room (transport c) = (None, transport c) \<or>
          (\<exists>e n. net_recv ?room (transport c) = (Some (Err e), n)) \<or>
          (\<exists>n. net_recv ?room (transport c) = (Some (Ok []), n))"
        using empty by (cases "incoming (transport c)" rule: available.cases) (auto simp: net_recv_def split: if_splits)
      then have "c' = c \<and> r = None" using less.prems(3,4) u by auto
      then show ?thesis using less.prems by simp
    next
      case False
      have room: "0 < ?room" using True l by simp
      obtain bs n' where n': "net_recv ?room (transport c) = (Some (Ok bs), n')" "bs \<noteq> []" "length bs \<le> ?room"
          "available (incoming (transport c)) = bs @ available (incoming n')"
        using net_recv_available [OF False room] by metis
      let ?c = "c\<lparr>transport := n'\<rparr>"
      have o: "client_ok ?c" "rx_consumed ?c = 0" "rx_len ?c + length bs \<le> length (rx_buffer ?c)"
        using less.prems(1,2) n'(3) room by (auto simp: client_ok_def)
      note S = store_rx_facts [OF o]
      have "inbox (store_rx bs ?c) = inbox c"
        using S(2,5) n'(4) by (simp add: inbox_def buffered_def)
      moreover have "stream_size (incoming (transport (store_rx bs ?c))) < stream_size (incoming (transport c))"
        using net_recv_smaller [OF n'(1,2)] S(5) by simp
      moreover have "next_packet_loop (store_rx bs ?c) = (r, c')" using u n'(1,2) less.prems(3) by simp
      ultimately show ?thesis using less.hyps [of "store_rx bs ?c"] S(1,4) less.prems(4) by simp
    qed
  qed
qed

lemma next_packet_keeps:
  assumes "client_ok c" "next_packet c = (r, c')" "r = None \<or> r = Some (Ok (Some n))"
  shows "client_ok c' \<and> rx_consumed c' = 0 \<and> inbox c' = inbox c \<and> (r \<noteq> None \<longrightarrow> n \<le> rx_len c')"
proof -
  obtain c1 where c1: "drop_consumed c = (Some (Ok ()), c1)" "client_ok c1" "rx_consumed c1 = 0"
    "buffered c1 = buffered c" "incoming (transport c1) = incoming (transport c)"
    using drop_consumed_ok [OF assms(1)] .
  then have "next_packet_loop c1 = (r, c')" using assms(2) by (simp add: next_packet_def bind_def)
  then show ?thesis
    using next_packet_loop_keeps [OF c1(2,3) _ assms(3)] c1(4,5) by (simp add: inbox_def)
qed

lemma poll_dropped:
  assumes "client_ok c" "poll c = (None, c')"
  shows "client_ok c' \<and> inbox c' = inbox c"
proof -
  obtain r1 c1 where p: "keep_alive_ping c = (r1, c1)" by fastforce
  have k: "client_ok c1" "inbox c1 = inbox c"
    using p assms(1) send_packet_rx [of PingReq_encode c r1 c1]
    by (auto simp: keep_alive_ping_def split: if_splits)
  obtain r2 c2 where q: "next_packet c1 = (r2, c2)" by fastforce
  consider (ping) "r1 = None" "c' = c1" | (recv) "r1 = Some (Ok ())" "r2 = None" "c' = c2"
    | (ack) n p r3 where "r1 = Some (Ok ())" "r2 = Some (Ok (Some n))" "acknowledge p c2 = (r3, c')"
    using assms(2) p q
    by (auto simp: poll_def poll_body_def bind_def done_with_def
        split: if_splits option.splits outcome.splits prod.splits)
  then show ?thesis
  proof cases
    case recv
    then show ?thesis using next_packet_keeps [OF k(1) q] k(2) by simp
  next
    case (ack n p r3)
    then have "client_ok c' = client_ok c2 \<and> inbox c' = inbox c2"
      using send_packet_rx [of _ c2 r3 c'] by (auto simp: acknowledge_def done_with_def split: QoS.splits option.splits)
    then show ?thesis using next_packet_keeps [OF k(1) q, of n] k(2) ack by simp
  qed (use k in simp)
qed

text \<open>What sending and receiving leave alone, whatever their outcome.\<close>

lemma send_packet_frame:
  assumes "send_packet enc c = (r, c')"
  shows "options c' = options c" "clock (transport c') = clock (transport c)"
    "next_packet_id c' = next_packet_id c" "conn_state c' = conn_state c"
    "last_tx_time c' = last_tx_time c \<or> last_tx_time c' = clock (transport c)"
    "r = Some (Ok ()) \<Longrightarrow> last_tx_time c' = clock (transport c)"
proof -
  have n: "net_send buf n = (s, n') \<Longrightarrow> clock n' = clock n" for buf and n n' :: "'a net" and s
    by (auto simp: net_send_def split: list.splits send_event.splits)
  have "options c' = options c \<and> clock (transport c') = clock (transport c) \<and>
      next_packet_id c' = next_packet_id c \<and> conn_state c' = conn_state c \<and>
      (last_tx_time c' = last_tx_time c \<or> last_tx_time c' = clock (transport c)) \<and>
      (r = Some (Ok ()) \<longrightarrow> last_tx_time c' = clock (transport c))"
    using assms by (auto simp: send_packet_def bind_def encode_tx_def send_bytes_def dest: n
        split: if_splits prod.splits option.splits outcome.splits)
  then show "options c' = options c" "clock (transport c') = clock (transport c)"
    "next_packet_id c' = next_packet_id c" "conn_state c' = conn_state c"
    "last_tx_time c' = last_tx_time c \<or> last_tx_time c' = clock (transport c)"
    "r = Some (Ok ()) \<Longrightarrow> last_tx_time c' = clock (transport c)"
    by simp_all
qed

lemma net_recv_frame:
  assumes "net_recv room n = (r, n')"
  shows "sent n' = sent n" "send_script n' = send_script n" "clock n' = clock n"
    "r = Some (Ok bs) \<Longrightarrow> length bs \<le> room"
  using assms by (auto simp: net_recv_def split: list.splits recv_event.splits if_splits)

lemma next_packet_loop_rx_only:
  assumes "rx_len c \<le> length (rx_buffer c)" "next_packet_loop c = (r, c')"
  shows "rx_only c c'"
  using assms
proof (induction "stream_size (incoming (transport c))" arbitrary: c rule: less_induct)
  case less
  let ?room = "length (rx_buffer c) - rx_len c"
  obtain s n where n: "net_recv ?room (transport c) = (s, n)" by fastforce
  note f = net_recv_frame [OF n]
  have t: "rx_only c (c\<lparr>transport := n\<rparr>)" using f by (simp add: rx_only_def)
  have more: "rx_only c c'" if b: "s = Some (Ok bs)" "bs \<noteq> []" "next_packet_loop (store_rx bs (c\<lparr>transport := n\<rparr>)) = (r, c')" for bs
  proof -
    let ?c = "store_rx bs (c\<lparr>transport := n\<rparr>)"
    have l: "rx_len c + length bs \<le> length (rx_buffer c)" using f(4) [OF b(1)] less.prems(1) by linarith
    have "rx_only c ?c" using l f by (simp add: rx_only_def store_rx_def overwrite_def)
    moreover have "stream_size (incoming (transport ?c)) < stream_size (incoming (transport c))"
      using net_recv_smaller [of ?room "transport c" bs n] n b by (simp add: store_rx_def)
    moreover have "rx_len ?c \<le> length (rx_buffer ?c)" using l by (simp add: store_rx_def overwrite_def)
    ultimately show ?thesis using less.hyps [of ?c] b(3) rx_only_trans by blast
  qed
  show ?case
    using less.prems t more n
    by (subst (asm) next_packet_loop.simps)
      (auto split: if_splits option.splits outcome.splits)
qed

lemma next_packet_loop_ok:
  assumes "client_ok c" "rx_consumed c = 0" "next_packet_loop c = (r, c')"
  shows "client_ok c'"
  using assms
proof (induction "stream_size (incoming (transport c))" arbitrary: c rule: less_induct)
  case less
  let ?room = "length (rx_buffer c) - rx_len c"
  obtain s n where n: "net_recv ?room (transport c) = (s, n)" by fastforce
  have t: "client_ok (c\<lparr>transport := n\<rparr>)" using less.prems(1) by (simp add: client_ok_def)
  have more: "client_ok c'" if b: "s = Some (Ok bs)" "bs \<noteq> []" "next_packet_loop (store_rx bs (c\<lparr>transport := n\<rparr>)) = (r, c')" for bs
  proof -
    let ?c = "c\<lparr>transport := n\<rparr>"
    have "rx_len ?c + length bs \<le> length (rx_buffer ?c)"
      using net_recv_frame(4) [OF n b(1)] less.prems(1) by (auto simp: client_ok_def)
    note S = store_rx_facts [OF t _ this]
    have "stream_size (incoming (transport (store_rx bs ?c))) < stream_size (incoming (transport c))"
      using net_recv_smaller [of ?room "transport c" bs n] n b by (simp add: store_rx_def)
    from less.hyps [OF this _ _ b(3)] S(1,4) less.prems(2) show ?thesis by simp
  qed
  show ?case
    using less.prems t more n
    by (subst (asm) next_packet_loop.simps)
      (auto split: if_splits option.splits outcome.splits)
qed

lemma next_packet_ok:
  assumes "client_ok c" "next_packet c = (r, c')"
  shows "client_ok c'"
proof -
  obtain c1 where c1: "drop_consumed c = (Some (Ok ()), c1)" "client_ok c1" "rx_consumed c1 = 0"
    using drop_consumed_ok [OF assms(1)] by metis
  then have "next_packet_loop c1 = (r, c')" using assms(2) by (simp add: next_packet_def bind_def)
  then show ?thesis by (rule next_packet_loop_ok [OF c1(2,3)])
qed

lemma drop_consumed_len: "client_ok c \<Longrightarrow> drop_consumed c = (r, c1) \<Longrightarrow> rx_only c c1 \<and> rx_len c1 \<le> length (rx_buffer c1)"
  by (erule drop_consumed_ok) (auto simp: client_ok_def)

lemma next_packet_rx_only:
  assumes "client_ok c" "next_packet c = (r, c')"
  shows "rx_only c c'"
proof -
  obtain c1 where c1: "drop_consumed c = (Some (Ok ()), c1)" "client_ok c1" "rx_only c c1"
    using drop_consumed_ok [OF assms(1)] by metis
  then have "next_packet_loop c1 = (r, c')" using assms(2) by (simp add: next_packet_def bind_def)
  then have "rx_only c1 c'" using c1(2) by (intro next_packet_loop_rx_only) (simp_all add: client_ok_def)
  with c1(3) show ?thesis by (rule rx_only_trans)
qed

lemma bind_stops: "m c = (Some (Err e), c') \<Longrightarrow> bind m f c = (Some (Err e), c')"
  "m c = (Some Panic, c') \<Longrightarrow> bind m f c = (Some Panic, c')" "m c = (None, c') \<Longrightarrow> bind m f c = (None, c')"
  by (simp_all add: bind_def)

text \<open>Where a poll stops: after receiving, or after acknowledging the message it received.\<close>

lemma poll_body_ends:
  assumes "next_packet c1 = (r2, c2)" "poll_body c1 = (r, c')"
  obtains (received) n where "c' = c2\<lparr>rx_consumed := n\<rparr>" "r = None \<longrightarrow> r2 = None \<and> c' = c2"
      "n = rx_consumed c2 \<or> r2 = Some (Ok (Some n))"
  | (acked) p r3 c3 n where "acknowledge p c2 = (r3, c3)" "c' = c3\<lparr>rx_consumed := n\<rparr>" "r = None \<longrightarrow> r3 = None"
      "n = rx_consumed c3 \<or> r2 = Some (Ok (Some n))"
proof -
  have same: "d = d\<lparr>rx_consumed := rx_consumed d\<rparr>" for d :: "'a MqttClient" by simp
  note poll = poll_body_def [THEN fun_cong, of c1]
  show ?thesis
  proof (cases "\<exists>len. r2 = Some (Ok (Some len))")
    case False
    then have "c' = c2 \<and> (r = None \<longrightarrow> r2 = None)"
      using assms poll
      by (cases r2; cases "the r2"; cases "case the r2 of Ok v \<Rightarrow> v | _ \<Rightarrow> None")
        (auto simp: bind_step bind_stops done_with_def)
    then show ?thesis using received same by metis
  next
    case True
    then obtain len where r2: "r2 = Some (Ok (Some len))" by blast
    let ?dec = "cast_err (Publish_decode (take len (rx_buffer c2))) :: ('a mqtt_error, Publish) outcome"
    have poll2: "poll_body c1 = bind (\<lambda>c. (Some (or_panic (get (rx_buffer c) 0)), c)) (\<lambda>first.
              if drop_bit 4 first \<noteq> 3 then (\<lambda>c. (Some (Ok None), c\<lparr>rx_consumed := len\<rparr>))
              else
                bind (\<lambda>c. (Some (cast_err (Publish_decode (take len (rx_buffer c)))), c)) (\<lambda>p.
                bind (acknowledge p) (\<lambda>_.
                bind (\<lambda>c. (Some (cast_err (Publish_decode (take len (rx_buffer c)))), c\<lparr>rx_consumed := len\<rparr>)) (\<lambda>p.
                done_with (Ok (Some p)))))) c2"
      unfolding poll using assms(1) r2 by (simp add: bind_step)
    show ?thesis
    proof (cases "\<exists>first p. get (rx_buffer c2) 0 = Some first \<and> drop_bit 4 first = 3 \<and> ?dec = Ok p")
      case False
      have "(c' = c2 \<or> c' = c2\<lparr>rx_consumed := len\<rparr>) \<and> r \<noteq> None"
      proof (cases "get (rx_buffer c2) 0")
        case None
        then have "poll_body c1 = (Some Panic, c2)" unfolding poll2 by (simp add: bind_stops)
        with assms(2) show ?thesis by auto
      next
        case (Some first)
        show ?thesis
        proof (cases "drop_bit 4 first = 3")
          case True
          then have nd: "?dec \<noteq> Ok p" for p using False Some by blast
          have "poll_body c1 = (case ?dec of Err e \<Rightarrow> (Some (Err e), c2) | _ \<Rightarrow> (Some Panic, c2))"
          proof (cases ?dec)
            case (Ok p)
            with nd show ?thesis by blast
          qed (use Some True in \<open>simp_all add: poll2 bind_step bind_stops\<close>)
          with assms(2) show ?thesis by (auto split: outcome.splits)
        next
          case False
          then have "poll_body c1 = (Some (Ok None), c2\<lparr>rx_consumed := len\<rparr>)"
            unfolding poll2 using Some by (simp add: bind_step)
          with assms(2) show ?thesis by auto
        qed
      qed
      then show ?thesis
        using received [of "rx_consumed c2"] received [of len] same [of c2] r2 by auto
    next
      case True
      then obtain first p where f: "get (rx_buffer c2) 0 = Some first" "drop_bit 4 first = 3" "?dec = Ok p"
        by blast
      obtain r3 c3 where a: "acknowledge p c2 = (r3, c3)" by fastforce
      have poll3: "poll_body c1 = bind (acknowledge p) (\<lambda>_.
                bind (\<lambda>c. (Some (cast_err (Publish_decode (take len (rx_buffer c)))), c\<lparr>rx_consumed := len\<rparr>)) (\<lambda>p.
                done_with (Ok (Some p)))) c2"
        using poll2 f by (simp add: bind_step)
      have "snd (poll_body c1) = c3 \<or> snd (poll_body c1) = c3\<lparr>rx_consumed := len\<rparr>" "fst (poll_body c1) = None \<longrightarrow> r3 = None"
        unfolding poll3 bind_def [of "acknowledge p"] a prod.case
        by (cases r3; simp; cases "the r3"; simp add: bind_def done_with_def split: outcome.split)+
      then have "(c' = c3 \<or> c' = c3\<lparr>rx_consumed := len\<rparr>) \<and> (r = None \<longrightarrow> r3 = None)"
        using assms(2) by simp
      then show ?thesis
        using acked [OF a, of "rx_consumed c3"] acked [OF a, of len] same [of c3] r2 by auto
    qed
  qed
qed

lemma acknowledge_cases: "acknowledge p c = (r, c') \<Longrightarrow> c' = c \<or> (\<exists>enc. send_packet enc c = (r, c'))"
  by (cases "pub_qos p"; cases "pub_packet_id p") (auto simp: acknowledge_def done_with_def)

lemma poll_body_frame:
  assumes "client_ok c" "poll_body c = (r, c')"
  shows "options c' = options c" "clock (transport c') = clock (transport c)"
    "last_tx_time c' = last_tx_time c \<or> last_tx_time c' = clock (transport c)"
proof -
  obtain r2 c2 where q: "next_packet c = (r2, c2)" by fastforce
  have x: "rx_only c c2" by (rule next_packet_rx_only [OF assms(1) q])
  have ack: "options c3 = options c2 \<and> clock (transport c3) = clock (transport c2) \<and>
      (last_tx_time c3 = last_tx_time c2 \<or> last_tx_time c3 = clock (transport c2))"
    if "acknowledge p c2 = (r3, c3)" for p r3 c3
    using acknowledge_cases [OF that] send_packet_frame(1,2,5) [of _ c2 r3 c3] by metis
  have "options c' = options c2 \<and> clock (transport c') = clock (transport c2) \<and>
      (last_tx_time c' = last_tx_time c2 \<or> last_tx_time c' = clock (transport c2))"
  proof (rule poll_body_ends [OF q assms(2)])
    fix p r3 c3 n assume "acknowledge p c2 = (r3, c3)" "c' = c3\<lparr>rx_consumed := n\<rparr>"
    with ack [of p r3 c3] show ?thesis by simp
  qed simp
  with x show "options c' = options c" "clock (transport c') = clock (transport c)"
    "last_tx_time c' = last_tx_time c \<or> last_tx_time c' = clock (transport c)"
    by (auto simp: rx_only_def)
qed

text \<open>Entering \<open>poll\<close> keeps the connection alive: the last packet is then younger than the keep-alive time.\<close>

lemma poll_keeps_alive:
  assumes "client_ok c" "sends c" "4 \<le> length (tx_buffer c)"
    and "poll c = (r, c')" "0 < opt_keep_alive (options c)"
  shows "options c' = options c" "clock (transport c') = clock (transport c)"
    "clock (transport c') - last_tx_time c' < opt_keep_alive (options c)"
proof -
  obtain c1 where k: "keep_alive_ping c = (Some (Ok ()), c1)" "client_ok c1"
    using ping_step [OF assms(1-3)] by metis
  have p: "options c1 = options c" "clock (transport c1) = clock (transport c)"
      "clock (transport c1) - last_tx_time c1 < opt_keep_alive (options c)"
    using k(1) assms(5) send_packet_frame [of PingReq_encode c "Some (Ok ())" c1]
    by (auto simp: keep_alive_ping_def split: if_splits)
  have "poll_body c1 = (r, c')" using assms(2,4) k(1) by (simp add: poll_def bind_def sends_def)
  from poll_body_frame [OF k(2) this] p assms(5) show "options c' = options c"
    "clock (transport c') = clock (transport c)" "clock (transport c') - last_tx_time c' < opt_keep_alive (options c)"
    by auto
qed

text \<open>A pending poll on a transport that accepts every send: it waits for data.\<close>

lemma poll_pending:
  assumes "client_ok c" "sends c" "4 \<le> length (tx_buffer c)" "poll c = (None, c')"
  shows "client_ok c' \<and> sends c' \<and> inbox c' = inbox c \<and> length (tx_buffer c') = length (tx_buffer c)
    \<and> next_packet_id c' = next_packet_id c
    \<and> sent (transport c') = sent (transport c) @ (if ping_due c then [0xC0, 0] else [])"
proof -
  obtain c1 where c1: "keep_alive_ping c = (Some (Ok ()), c1)" "client_ok c1" "sends c1" "inbox c1 = inbox c"
      "length (tx_buffer c1) = length (tx_buffer c)"
      "sent (transport c1) = sent (transport c) @ (if ping_due c then [0xC0, 0] else [])"
    using ping_step [OF assms(1-3)] by metis
  have pid: "next_packet_id c1 = next_packet_id c"
    using c1(1) send_packet_frame(3) [of PingReq_encode c _ c1] by (auto simp: keep_alive_ping_def split: if_splits)
  obtain r2 c2 where q: "next_packet c1 = (r2, c2)" by fastforce
  have x: "rx_only c1 c2" by (rule next_packet_rx_only [OF c1(2) q])
  have "sends c2" "4 \<le> length (tx_buffer c2)" using x c1(3,5) assms(3) by (simp_all add: rx_only_def sends_def)
  then have na: "acknowledge p c2 \<noteq> (None, c3)" for p c3 using ack_step [of c2 p] by (metis option.distinct(1) prod.inject)
  have body: "poll_body c1 = (None, c')" using assms(2,4) c1(1) by (simp add: poll_def bind_def sends_def)
  have "r2 = None \<and> c' = c2"
    by (rule poll_body_ends [OF q body]) (use na in auto)
  then show ?thesis
    using next_packet_keeps [OF c1(2) q] x c1 pid by (auto simp: rx_only_def sends_def)
qed

text \<open>Only an empty read makes \<open>next_packet\<close> answer that there is no data.\<close>

definition no_empty_read :: "'e recv_event list \<Rightarrow> bool" where
  "no_empty_read es \<longleftrightarrow> Chunk [] \<notin> set es"

lemma net_recv_nonempty:
  assumes "no_empty_read (incoming n)" "0 < room" "net_recv room n = (r, n')"
  shows "r \<noteq> Some (Ok [])" "no_empty_read (incoming n')"
  using assms by (auto simp: net_recv_def no_empty_read_def split: list.splits recv_event.splits if_splits)

lemma next_packet_loop_data:
  assumes "no_empty_read (incoming (transport c))" "next_packet_loop c = (r, c')"
  shows "r \<noteq> Some (Ok None)"
  using assms
proof (induction "stream_size (incoming (transport c))" arbitrary: c rule: less_induct)
  case less
  let ?room = "length (rx_buffer c) - rx_len c"
  show ?case
  proof (cases "\<not> length (rx_buffer c) < rx_len c \<and> rx_len c \<noteq> length (rx_buffer c) \<and>
      complete_packet_len (take (rx_len c) (rx_buffer c)) = Ok None")
    case False
    then show ?thesis
      using less.prems(2)
      by (cases "complete_packet_len (take (rx_len c) (rx_buffer c))")
        (auto simp: next_packet_loop.simps [of c] dest!: complete_packet_len_facts(4)
          split: if_splits option.splits)
  next
    case True
    then have room: "0 < ?room" by simp
    obtain s n where n: "net_recv ?room (transport c) = (s, n)" by fastforce
    note N = net_recv_nonempty [OF less.prems(1) room n]
    show ?thesis
    proof (cases "\<exists>bs. s = Some (Ok bs)")
      case False
      then show ?thesis
        using less.prems(2) True n
        by (cases s; cases "the s") (auto simp: next_packet_loop.simps [of c])
    next
      case s: True
      then obtain bs where bs: "s = Some (Ok bs)" "bs \<noteq> []" using N(1) by auto
      have "next_packet_loop (store_rx bs (c\<lparr>transport := n\<rparr>)) = (r, c')"
        using less.prems(2) True n bs by (simp add: next_packet_loop.simps [of c])
      moreover have "stream_size (incoming n) < stream_size (incoming (transport c))"
        using net_recv_smaller n bs by blast
      ultimately show ?thesis
        using less.hyps [of "store_rx bs (c\<lparr>transport := n\<rparr>)"] N(2) by (simp add: store_rx_def)
    qed
  qed
qed

lemma next_packet_data:
  assumes "no_empty_read (incoming (transport c))" "next_packet c = (r, c')"
  shows "r \<noteq> Some (Ok None)"
proof -
  have d: "incoming (transport c1) = incoming (transport c)" if "drop_consumed c = (r1, c1)" for r1 c1
    using that by (auto simp: drop_consumed_def split: if_splits prod.splits outcome.splits)
  obtain r1 c1 where c1: "drop_consumed c = (r1, c1)" by fastforce
  show ?thesis
    using assms c1 next_packet_loop_data [of c1 r c'] d [OF c1]
    by (auto simp: next_packet_def bind_def split: prod.splits option.splits outcome.splits)
qed

section \<open>Packet identifiers\<close>

primrec packet_ids :: "nat \<Rightarrow> 'e MqttClient \<Rightarrow> u16 list" where
  "packet_ids 0 c = []"
| "packet_ids (Suc k) c = (case get_next_packet_id c of (pid, c') \<Rightarrow> pid # packet_ids k c')"

lemma id_step: "unat (let pid = w + 1 in if pid = 0 then 1 else pid :: u16) = unat w mod 65535 + 1"
proof -
  have b: "unat w < 65536" using unsigned_less [of w] by simp
  show ?thesis
  proof (cases "unat w = 65535")
    case True
    then have "w = 65535" by (simp add: word_unat_eq_iff)
    then show ?thesis by (simp add: Let_def)
  next
    case False
    then have "unat (w + 1) = unat w + 1" using b by (simp add: unat_word_ariths)
    moreover then have "w + 1 \<noteq> 0" by (metis add_is_0 unat_0 zero_neq_one)
    ultimately show ?thesis using b False by (simp add: Let_def)
  qed
qed

lemma mod_cancel_le: "i \<le> j \<Longrightarrow> (a + i) mod m = (a + j) mod m \<Longrightarrow> j < (m::nat) \<Longrightarrow> i = j"
  using mod_eq_dvd_iff_nat [of "a + i" "a + j" m] by (auto dest: dvd_imp_le)

lemma mod_cancel: "(a + i) mod m = (a + j) mod m \<Longrightarrow> i < m \<Longrightarrow> j < (m::nat) \<Longrightarrow> i = j"
  using mod_cancel_le [of i j a m] mod_cancel_le [of j i a m] by (cases "i \<le> j") auto

lemma packet_ids_value:
  "map unat (packet_ids k c) = map (\<lambda>i. (unat (next_packet_id c) + i) mod 65535 + 1) [0..<k]"
proof (induction k arbitrary: c)
  case (Suc k)
  obtain pid c' where g: "get_next_packet_id c = (pid, c')" by fastforce
  then have p: "unat pid = unat (next_packet_id c) mod 65535 + 1" "next_packet_id c' = pid"
    using id_step [of "next_packet_id c"] by (auto simp: get_next_packet_id_def Let_def)
  have "map unat (packet_ids k c') = map (\<lambda>i. (unat pid + i) mod 65535 + 1) [0..<k]"
    using Suc.IH [of c'] p(2) by simp
  also have "\<dots> = map (\<lambda>i. (unat (next_packet_id c) + Suc i) mod 65535 + 1) [0..<k]"
  proof -
    have "(unat pid + i) mod 65535 = (unat (next_packet_id c) + Suc i) mod 65535" for i
      using mod_add_left_eq [of "unat (next_packet_id c)" 65535 "Suc i"] by (simp add: p(1))
    then show ?thesis by simp
  qed
  finally show ?case
    by (simp only: packet_ids.simps g prod.case list.map upt_conv_Cons [OF zero_less_Suc] map_Suc_upt [symmetric])
      (simp add: p(1))
qed simp

section \<open>The handshake\<close>

lemma connect_run:
  fixes c :: "'e MqttClient"
  assumes "send_script (transport c) = []" "connect_ok (connect_packet tu (options c))"
    and "5 + length (connect_content (connect_packet tu (options c))) \<le> length (tx_buffer c)"
    and "length (tx_buffer c) \<le> 268435456" "4 \<le> length (rx_buffer c)"
    and "available (incoming (transport c)) = [0x20, 0x02, flags, code] @ rest"
  obtains c' where "connect tu c =
      (Some (if code = 0 then Ok () else Err (ConnectionRefused (connect_reason_from code))), c')"
    "conn_state c' = (if code = 0 then Connected else Disconnected)" "inbox c' = rest" "client_ok c'"
    "sent (transport c') = sent (transport c) @ frame 0x10 (connect_content (connect_packet tu (options c)))"
    "send_script (transport c') = []" "length (tx_buffer c') = length (tx_buffer c)"
    "length (rx_buffer c') = length (rx_buffer c)" "next_packet_id c' = next_packet_id c"
proof -
  let ?p = "connect_packet tu (options c)" and ?ack = "[0x20, 0x02, flags, code]"
  let ?f = "frame 0x10 (connect_content ?p)"
  have "encodes (Connect_encode ?p) (tx_buffer c) ?f" using assms(2-4) by (intro Connect_encodes) auto
  then obtain b where b: "Connect_encode ?p (tx_buffer c) = (Ok (length ?f), b)" "take (length ?f) b = ?f"
      "length b = length (tx_buffer c)"
    by (auto simp: encodes_def)
  define c2 where "c2 = c\<lparr>conn_state := Connecting, tx_buffer := b,
    transport := (transport c)\<lparr>sent := sent (transport c) @ ?f\<rparr>, rx_len := 0, rx_consumed := 0\<rparr>"
  have o: "client_ok c2" "inbox c2 = ?ack @ rest" "length ?ack \<le> length (rx_buffer c2)"
    using assms(5,6) by (simp_all add: c2_def client_ok_def inbox_def buffered_def)
  have "packet_bytes ?ack"
    unfolding packet_bytes_def by (rule exI [of _ "0x20"], rule exI [of _ "[flags, code]"]) (simp add: frame_def vbi.simps)
  from next_packet_finds [OF o(1,2) this o(3)]
  obtain c3 where c3: "next_packet c2 = (Some (Ok (Some (length ?ack))), c3)" "client_ok c3" "rx_consumed c3 = 0"
    "inbox c3 = ?ack @ rest" "length ?ack \<le> rx_len c3" "take (length ?ack) (rx_buffer c3) = ?ack" "rx_only c2 c3" .
  let ?c = "c3\<lparr>rx_consumed := length ?ack\<rparr>"
  have dec: "(decode ?ack :: ('e mqtt_error, MqttPacket option) outcome)
      = Ok (Some (ConnAckPacket \<lparr>session_present = (flags AND 0x01 \<noteq> 0), reason_code = code\<rparr>))"
    by (simp add: decode_def ConnAck_decode_def Let_def)
  have run: "connect tu c = handle_connack
      (Some (ConnAckPacket \<lparr>session_present = (flags AND 0x01 \<noteq> 0), reason_code = code\<rparr>)) ?c"
    using c3(1,6) dec assms(1) b
    by (simp add: connect_def Let_def bind_def encode_tx_def send_bytes_def net_send_def c2_def)
  note i = inbox_consume [OF c3(2,3,4,5)]
  show ?thesis
    by (rule that [of "snd (connect tu c)"])
      (use run i c3(7) assms(1) b(3) in \<open>simp_all add: handle_connack_def rx_only_def c2_def inbox_def buffered_def
        client_ok_def\<close>)
qed

section \<open>Properties\<close>

text \<open>
  Identifiers for acknowledged messages: they are never 0, which the
  protocol reserves, and any 65535 identifiers drawn in a row are distinct.
\<close>

theorem packet_ids_fresh:
  assumes "k \<le> 65535"
  shows "distinct (packet_ids k c) \<and> 0 \<notin> set (packet_ids k c)"
proof -
  have "inj_on (\<lambda>i. (unat (next_packet_id c) + i) mod 65535 + 1) {..<k}"
    using assms by (auto intro!: inj_onI dest: mod_cancel)
  then have "distinct (map unat (packet_ids k c))"
    by (simp add: packet_ids_value distinct_map lessThan_atLeast0)
  moreover have "0 \<notin> set (map unat (packet_ids k c))" by (auto simp: packet_ids_value)
  ultimately show ?thesis by (auto simp: distinct_map) (metis image_eqI unat_0)
qed

text \<open>A client right after its connection came up, over a transport with the given input.\<close>

definition demo_client :: "unit recv_event list \<Rightarrow> unit MqttClient" where
  "demo_client es = (MqttClient_new 512 \<lparr>incoming = es, send_script = [], sent = [], clock = 0\<rparr>
     (MqttOptions_new mhz_clock (lit ''mqtt_gate'') (lit ''broker'') 1883))\<lparr>conn_state := Connected\<rparr>"

theorem packet_ids_fresh_witness:
  "distinct (packet_ids 65535 (demo_client [])) \<and> 0 \<notin> set (packet_ids 65535 (demo_client []))"
  by (rule packet_ids_fresh) simp

text \<open>
  C16. Delivery is independent of how the byte stream is cut into reads: when
  the transport delivers the bytes of a sequence of PUBLISH packets, in whatever
  chunks, polling hands out exactly these messages in order, acknowledges each
  QoS 1 message once, and leaves the bytes behind them in the inbox.
\<close>

primrec polls :: "nat \<Rightarrow> 'e MqttClient \<Rightarrow> ('e, Publish option) awaited list \<times> 'e MqttClient" where
  "polls 0 c = ([], c)"
| "polls (Suc k) c = (case poll c of (r, c') \<Rightarrow> (case polls k c' of (rs, c'') \<Rightarrow> (r # rs, c'')))"


lemma demo_publish_bytes: "publish_bytes demo_publish = [0x33, 9, 0, 3, 97, 47, 98, 0, 2, 79, 78]"
  by (simp add: publish_bytes_def frame_def publish_header_def publish_content_def demo_publish_def
      prefixed_def to_be_bytes_def vbi.simps lit_def)


text \<open>
  C29. Dropping a pending \<open>poll\<close> is safe: whatever it waited for (data, or room
  to send a ping or an acknowledgement), no received byte is lost and the next
  poll sees the same stream, so an unacknowledged message is delivered again.
\<close>

theorem poll_cancel_safe:
  assumes "client_ok c" "poll c = (None, c')"
  shows "client_ok c' \<and> inbox c' = inbox c"
  by (rule poll_dropped [OF assms])

theorem poll_cancel_safe_witness:
  "\<exists>c'. poll (demo_client [Chunk [0x33, 9, 0]]) = (None, c') \<and> inbox c' = [0x33, 9, 0]"
proof -
  let ?c = "demo_client [Chunk [0x33, 9, 0]]"
  have ok: "client_ok ?c" by (simp add: demo_client_def MqttClient_new_def client_ok_def)
  obtain c' where p: "poll ?c = (None, c')"
    by (simp add: poll_def poll_body_def demo_client_def MqttClient_new_def MqttOptions_new_def bind_def
        keep_alive_ping_def next_packet_def drop_consumed_def next_packet_loop.simps complete_packet_len_def
        packet_len_loop.simps net_recv_def store_rx_def overwrite_def mhz_clock_def get_def Let_def and127 and128)
  have "inbox ?c = [0x33, 9, 0]"
    by (simp add: demo_client_def MqttClient_new_def inbox_def buffered_def)
  with poll_cancel_safe [OF ok p] p show ?thesis by auto
qed

text \<open>
  The handshake: \<open>connect\<close> sends exactly the CONNECT packet and, when the
  broker answers with a CONNACK (in whatever chunks), the client is connected iff
  the reason code is 0; any other code is reported as the refusal it names.
\<close>

theorem connect_handshake:
  fixes c :: "'e MqttClient"
  assumes "send_script (transport c) = []" "connect_ok (connect_packet tu (options c))"
    and "5 + length (connect_content (connect_packet tu (options c))) \<le> length (tx_buffer c)"
    and "length (tx_buffer c) \<le> 268435456" "4 \<le> length (rx_buffer c)"
    and "available (incoming (transport c)) = [0x20, 0x02, flags, code] @ rest"
  shows "\<exists>c'. connect tu c =
      (Some (if code = 0 then Ok () else Err (ConnectionRefused (connect_reason_from code))), c')
    \<and> conn_state c' = (if code = 0 then Connected else Disconnected) \<and> inbox c' = rest
    \<and> sent (transport c') = sent (transport c) @ frame 0x10 (connect_content (connect_packet tu (options c)))"
  using connect_run [OF assms] by metis

theorem connect_handshake_witness:
  "\<exists>c'. connect mhz_clock (demo_client [Chunk [0x20], Chunk [2, 0, 5]])
      = (Some (Err (ConnectionRefused NotAuthorized)), c') \<and> conn_state c' = Disconnected"
proof -
  let ?c = "demo_client [Chunk [0x20], Chunk [2, 0, 5]]"
  have "\<exists>c'. connect mhz_clock ?c =
      (Some (if (5::u8) = 0 then Ok () else Err (ConnectionRefused (connect_reason_from 5))), c')
    \<and> conn_state c' = (if (5::u8) = 0 then Connected else Disconnected) \<and> inbox c' = []
    \<and> sent (transport c') = sent (transport ?c) @ frame 0x10 (connect_content (connect_packet mhz_clock (options ?c)))"
    by (rule connect_handshake [where flags = 0])
      (simp_all add: demo_client_def MqttClient_new_def MqttOptions_new_def connect_packet_def Connect_new_def
        connect_ok_def connect_content_def optional_field_def Let_def)
  then show ?thesis by (auto simp: connect_reason_from_def)
qed

end
