(* ===== verification/GateMqtt.thy ===== *)
theory GateMqtt
  imports Controls Bytes
begin

text \<open>
  What the gate means over MQTT (\<open>app-core/src/mqtt.rs\<close>): the topics and
  payloads, how an inbound message becomes a command for \<open>Controls\<close>, and the
  retained messages that mirror \<open>Controls\<close>. Topics and payloads are \<open>str\<close> values,
  lists of UTF-8 bytes. \<open>wire\<close> is the reference: the one message per command.
\<close>

definition NODE_ID :: str where "NODE_ID = lit ''mqtt_gate''"

definition COVER_CONFIG_TOPIC :: str where "COVER_CONFIG_TOPIC = lit ''homeassistant/cover/mqtt_gate/config''"
definition COVER_COMMAND_TOPIC :: str where "COVER_COMMAND_TOPIC = lit ''mqtt_gate/cover/set''"
definition COVER_STATE_TOPIC :: str where "COVER_STATE_TOPIC = lit ''mqtt_gate/cover/state''"

definition WIND_CONFIG_TOPIC :: str where
  "WIND_CONFIG_TOPIC = lit ''homeassistant/binary_sensor/mqtt_gate_wind/config''"
definition WIND_STATE_TOPIC :: str where "WIND_STATE_TOPIC = lit ''mqtt_gate/wind/state''"

definition SPARE_INPUT_CONFIG_TOPIC :: str where
  "SPARE_INPUT_CONFIG_TOPIC = lit ''homeassistant/binary_sensor/mqtt_gate_spare_input/config''"

definition BARRIER_BYPASS_CONFIG_TOPIC :: str where
  "BARRIER_BYPASS_CONFIG_TOPIC = lit ''homeassistant/switch/mqtt_gate_barrier_bypass/config''"
definition BARRIER_BYPASS_COMMAND_TOPIC :: str where
  "BARRIER_BYPASS_COMMAND_TOPIC = lit ''mqtt_gate/barrier_bypass/set''"
definition BARRIER_BYPASS_STATE_TOPIC :: str where
  "BARRIER_BYPASS_STATE_TOPIC = lit ''mqtt_gate/barrier_bypass/state''"

definition BUTTON_CONFIG_TOPIC :: str where
  "BUTTON_CONFIG_TOPIC = lit ''homeassistant/button/mqtt_gate_impulse/config''"
definition BUTTON_COMMAND_TOPIC :: str where "BUTTON_COMMAND_TOPIC = lit ''mqtt_gate/impulse/set''"
definition RESET_WIND_LOCK_PAYLOAD :: str where "RESET_WIND_LOCK_PAYLOAD = lit ''reset_anemometer''"

definition OPEN_STATE :: str where "OPEN_STATE = lit ''open''"
definition CLOSED_STATE :: str where "CLOSED_STATE = lit ''closed''"
definition OPENING_STATE :: str where "OPENING_STATE = lit ''opening''"
definition CLOSING_STATE :: str where "CLOSING_STATE = lit ''closing''"

definition OPEN_PAYLOAD :: str where "OPEN_PAYLOAD = lit ''OPEN''"
definition CLOSE_PAYLOAD :: str where "CLOSE_PAYLOAD = lit ''CLOSE''"
definition STOP_PAYLOAD :: str where "STOP_PAYLOAD = lit ''STOP''"

definition ON_PAYLOAD :: str where "ON_PAYLOAD = lit ''ON''"
definition OFF_PAYLOAD :: str where "OFF_PAYLOAD = lit ''OFF''"

definition MQTT_BUFFER_SIZE :: nat where "MQTT_BUFFER_SIZE = 512"

definition COMMAND_TOPICS :: "str list" where
  "COMMAND_TOPICS = [COVER_COMMAND_TOPIC, BUTTON_COMMAND_TOPIC, BARRIER_BYPASS_COMMAND_TOPIC]"

lemmas topic_defs = COVER_COMMAND_TOPIC_def COVER_STATE_TOPIC_def WIND_STATE_TOPIC_def
  BARRIER_BYPASS_COMMAND_TOPIC_def BARRIER_BYPASS_STATE_TOPIC_def BUTTON_COMMAND_TOPIC_def

lemmas payload_defs = RESET_WIND_LOCK_PAYLOAD_def OPEN_STATE_def CLOSED_STATE_def OPENING_STATE_def
  CLOSING_STATE_def OPEN_PAYLOAD_def CLOSE_PAYLOAD_def STOP_PAYLOAD_def ON_PAYLOAD_def OFF_PAYLOAD_def

section \<open>Commands\<close>

datatype Command = CmdOpen | CmdClose | CmdStop | ResetWindLock | SetBarrierBypass bool

datatype CommandError = UnknownTopic | UnknownPayload

definition parse :: "str \<Rightarrow> bytes \<Rightarrow> (CommandError, Command) outcome" where
  "parse topic payload =
     (let payload = (case from_utf8 payload of Some s \<Rightarrow> s | None \<Rightarrow> []) in
      and_then
        (if topic = COVER_COMMAND_TOPIC then
           Ok (if payload = OPEN_PAYLOAD then Some CmdOpen
               else if payload = CLOSE_PAYLOAD then Some CmdClose
               else if payload = STOP_PAYLOAD then Some CmdStop
               else None)
         else if topic = BUTTON_COMMAND_TOPIC then
           Ok (if payload = RESET_WIND_LOCK_PAYLOAD then Some ResetWindLock else None)
         else if topic = BARRIER_BYPASS_COMMAND_TOPIC then
           Ok (if payload = ON_PAYLOAD then Some (SetBarrierBypass True)
               else if payload = OFF_PAYLOAD then Some (SetBarrierBypass False)
               else None)
         else Err UnknownTopic)
        (\<lambda>cmd. ok_or cmd UnknownPayload))"

primrec apply_command :: "Command \<Rightarrow> controls \<Rightarrow> controls" where
  "apply_command CmdOpen c = controls_open c"
| "apply_command CmdClose c = controls_close c"
| "apply_command CmdStop c = controls_stop c"
| "apply_command ResetWindLock c = reset_wind_lock c"
| "apply_command (SetBarrierBypass active) c = set_barrier_bypass active c"

section \<open>State messages\<close>

definition on_off :: "bool \<Rightarrow> str" where
  "on_off on = (if on then ON_PAYLOAD else OFF_PAYLOAD)"

definition cover_payload :: "cover_state \<Rightarrow> str" where
  "cover_payload s = (case s of CoverOpen \<Rightarrow> OPEN_STATE | CoverOpening \<Rightarrow> OPENING_STATE
     | CoverClosed \<Rightarrow> CLOSED_STATE | CoverClosing \<Rightarrow> CLOSING_STATE)"

definition state_messages :: "controls \<Rightarrow> (str \<times> str) list" where
  "state_messages c =
     [(COVER_STATE_TOPIC, cover_payload (cover_state c)),
      (WIND_STATE_TOPIC, on_off (wind_locked c)),
      (BARRIER_BYPASS_STATE_TOPIC, on_off (barrier_bypass c))]"

section \<open>The reference message of a command\<close>

primrec wire :: "Command \<Rightarrow> str \<times> bytes" where
  "wire CmdOpen = (COVER_COMMAND_TOPIC, OPEN_PAYLOAD)"
| "wire CmdClose = (COVER_COMMAND_TOPIC, CLOSE_PAYLOAD)"
| "wire CmdStop = (COVER_COMMAND_TOPIC, STOP_PAYLOAD)"
| "wire ResetWindLock = (BUTTON_COMMAND_TOPIC, RESET_WIND_LOCK_PAYLOAD)"
| "wire (SetBarrierBypass active) = (BARRIER_BYPASS_COMMAND_TOPIC, on_off active)"

lemma lit_utf8: "\<forall>ch \<in> set s. of_char ch < (128 :: nat) \<Longrightarrow> utf8_valid (lit s)"
  by (rule utf8_valid_ascii) (auto simp: lit_def word_less_nat_alt unat_of_char_u8)

lemma payloads_utf8:
  "utf8_valid OPEN_PAYLOAD" "utf8_valid CLOSE_PAYLOAD" "utf8_valid STOP_PAYLOAD"
  "utf8_valid RESET_WIND_LOCK_PAYLOAD" "utf8_valid ON_PAYLOAD" "utf8_valid OFF_PAYLOAD"
  unfolding payload_defs by (rule lit_utf8; simp)+

lemma topics_distinct: "distinct COMMAND_TOPICS"
  by (simp add: COMMAND_TOPICS_def topic_defs)

lemma payloads_nonempty:
  "OPEN_PAYLOAD \<noteq> []" "CLOSE_PAYLOAD \<noteq> []" "STOP_PAYLOAD \<noteq> []" "RESET_WIND_LOCK_PAYLOAD \<noteq> []"
  "ON_PAYLOAD \<noteq> []" "OFF_PAYLOAD \<noteq> []"
  by (simp_all add: payload_defs lit_def)

text \<open>An invalid byte sequence reads as the empty payload, which no command has.\<close>

lemma payload_match:
  "utf8_valid s \<Longrightarrow> s \<noteq> [] \<Longrightarrow>
   (case from_utf8 payload of Some t \<Rightarrow> t | None \<Rightarrow> []) = s \<longleftrightarrow> payload = s"
  by (auto simp: from_utf8_def)

lemma parse_eq:
  "parse topic payload =
     (if topic = COVER_COMMAND_TOPIC
      then ok_or (if payload = OPEN_PAYLOAD then Some CmdOpen else if payload = CLOSE_PAYLOAD then Some CmdClose
                  else if payload = STOP_PAYLOAD then Some CmdStop else None) UnknownPayload
      else if topic = BUTTON_COMMAND_TOPIC
      then ok_or (if payload = RESET_WIND_LOCK_PAYLOAD then Some ResetWindLock else None) UnknownPayload
      else if topic = BARRIER_BYPASS_COMMAND_TOPIC
      then ok_or (if payload = ON_PAYLOAD then Some (SetBarrierBypass True)
                  else if payload = OFF_PAYLOAD then Some (SetBarrierBypass False) else None) UnknownPayload
      else Err UnknownTopic)"
  by (simp add: parse_def Let_def payload_match payloads_utf8 payloads_nonempty)

lemma payloads_distinct:
  "distinct [OPEN_PAYLOAD, CLOSE_PAYLOAD, STOP_PAYLOAD]" "ON_PAYLOAD \<noteq> OFF_PAYLOAD"
  by (simp_all add: payload_defs)

lemma parse_wire_ok: "parse (fst (wire cmd)) (snd (wire cmd)) = Ok cmd"
  using topics_distinct payloads_distinct
  by (cases cmd) (auto simp: parse_eq on_off_def COMMAND_TOPICS_def)

lemma parse_Ok_wire: "parse topic payload = Ok cmd \<Longrightarrow> wire cmd = (topic, payload)"
  by (auto simp: parse_eq on_off_def ok_or_def split: if_splits)

section \<open>Properties\<close>

text \<open>
  C37. The device understands exactly one message per command: parsing succeeds
  with a command iff the message is the reference message of that command, an
  unknown topic is reported iff the topic is none of those subscribed to, and
  every other message, invalid UTF-8 included, is an unknown payload.
\<close>

theorem command_parse_exact:
  "(parse topic payload = Ok cmd \<longleftrightarrow> wire cmd = (topic, payload)) \<and>
   (parse topic payload = Err UnknownTopic \<longleftrightarrow> topic \<notin> set COMMAND_TOPICS) \<and>
   parse topic payload \<noteq> Panic"
proof (intro conjI)
  show "parse topic payload = Ok cmd \<longleftrightarrow> wire cmd = (topic, payload)"
    using parse_wire_ok [of cmd] parse_Ok_wire [of topic payload cmd] by auto
  show "parse topic payload = Err UnknownTopic \<longleftrightarrow> topic \<notin> set COMMAND_TOPICS"
    by (auto simp: parse_eq COMMAND_TOPICS_def ok_or_def)
  show "parse topic payload \<noteq> Panic" by (auto simp: parse_eq ok_or_def)
qed

end
