(* ===== verification/Discovery.thy ===== *)
theory Discovery
  imports GateMqtt
begin

text \<open>
  The Home Assistant discovery configs (\<open>app-core/src/discovery.rs\<close>). The
  structs derive \<open>Serialize\<close>; what they hand to the serializer is a \<open>json\<close> tree
  with the fields in declaration order. The serializer itself (\<open>serde_json\<close>) is a
  parameter \<open>to_vec\<close> that may fail, in which case the \<open>unwrap\<close> of the source panics.
\<close>

datatype json = JStr str | JArr "json list" | JObj "(string \<times> json) list"

record Device =
  identifiers :: "str list"
  device_name :: str
  manufacturer :: str
  device_model :: str
  sw_version :: str

record CoverConfig =
  cover_name :: str
  cover_unique_id :: str
  cover_device_class :: str
  cover_command_topic :: str
  cover_state_topic :: str
  payload_open :: str
  payload_close :: str
  payload_stop :: str
  state_open :: str
  state_opening :: str
  state_closed :: str
  state_closing :: str
  cover_device :: Device

record BinarySensorConfig =
  sensor_name :: str
  sensor_unique_id :: str
  sensor_device_class :: "str option"
  sensor_state_topic :: str
  sensor_payload_on :: str
  sensor_payload_off :: str
  sensor_device :: Device

record ButtonConfig =
  button_name :: str
  button_unique_id :: str
  button_command_topic :: str
  payload_press :: str
  button_device :: Device

record SwitchConfig =
  switch_name :: str
  switch_unique_id :: str
  switch_command_topic :: str
  switch_state_topic :: str
  switch_payload_on :: str
  switch_payload_off :: str
  switch_device :: Device

section \<open>The derived serializations\<close>

definition json_of_device :: "Device \<Rightarrow> json" where
  "json_of_device d = JObj [(''identifiers'', JArr (map JStr (identifiers d))), (''name'', JStr (device_name d)),
     (''manufacturer'', JStr (manufacturer d)), (''model'', JStr (device_model d)),
     (''sw_version'', JStr (sw_version d))]"

definition json_of_cover :: "CoverConfig \<Rightarrow> json" where
  "json_of_cover c = JObj [(''name'', JStr (cover_name c)), (''unique_id'', JStr (cover_unique_id c)),
     (''device_class'', JStr (cover_device_class c)), (''command_topic'', JStr (cover_command_topic c)),
     (''state_topic'', JStr (cover_state_topic c)), (''payload_open'', JStr (payload_open c)),
     (''payload_close'', JStr (payload_close c)), (''payload_stop'', JStr (payload_stop c)),
     (''state_open'', JStr (state_open c)), (''state_opening'', JStr (state_opening c)),
     (''state_closed'', JStr (state_closed c)), (''state_closing'', JStr (state_closing c)),
     (''device'', json_of_device (cover_device c))]"

definition json_of_sensor :: "BinarySensorConfig \<Rightarrow> json" where
  "json_of_sensor s = JObj ([(''name'', JStr (sensor_name s)), (''unique_id'', JStr (sensor_unique_id s))] @
     (case sensor_device_class s of None \<Rightarrow> [] | Some k \<Rightarrow> [(''device_class'', JStr k)]) @
     [(''state_topic'', JStr (sensor_state_topic s)), (''payload_on'', JStr (sensor_payload_on s)),
      (''payload_off'', JStr (sensor_payload_off s)), (''device'', json_of_device (sensor_device s))])"

definition json_of_button :: "ButtonConfig \<Rightarrow> json" where
  "json_of_button b = JObj [(''name'', JStr (button_name b)), (''unique_id'', JStr (button_unique_id b)),
     (''command_topic'', JStr (button_command_topic b)), (''payload_press'', JStr (payload_press b)),
     (''device'', json_of_device (button_device b))]"

definition json_of_switch :: "SwitchConfig \<Rightarrow> json" where
  "json_of_switch s = JObj [(''name'', JStr (switch_name s)), (''unique_id'', JStr (switch_unique_id s)),
     (''command_topic'', JStr (switch_command_topic s)), (''state_topic'', JStr (switch_state_topic s)),
     (''payload_on'', JStr (switch_payload_on s)), (''payload_off'', JStr (switch_payload_off s)),
     (''device'', json_of_device (switch_device s))]"

section \<open>The configs\<close>

definition the_device :: "str \<Rightarrow> Device" where
  "the_device version = \<lparr>identifiers = [NODE_ID], device_name = lit ''Gate'', manufacturer = lit ''mqtt_gate'',
     device_model = lit ''ESP32-S3 Gate Controller'', sw_version = version\<rparr>"

definition cover_config :: "str \<Rightarrow> CoverConfig" where
  "cover_config version = \<lparr>cover_name = lit ''gate'', cover_unique_id = lit ''mqtt_gate_cover'',
     cover_device_class = lit ''gate'', cover_command_topic = COVER_COMMAND_TOPIC,
     cover_state_topic = COVER_STATE_TOPIC, payload_open = OPEN_PAYLOAD, payload_close = CLOSE_PAYLOAD,
     payload_stop = STOP_PAYLOAD, state_open = OPEN_STATE, state_opening = OPENING_STATE,
     state_closed = CLOSED_STATE, state_closing = CLOSING_STATE, cover_device = the_device version\<rparr>"

definition wind_config :: "str \<Rightarrow> BinarySensorConfig" where
  "wind_config version = \<lparr>sensor_name = lit ''Wind Monitor Input'', sensor_unique_id = lit ''mqtt_gate_wind'',
     sensor_device_class = Some (lit ''safety''), sensor_state_topic = WIND_STATE_TOPIC,
     sensor_payload_on = ON_PAYLOAD, sensor_payload_off = OFF_PAYLOAD, sensor_device = the_device version\<rparr>"

definition barrier_bypass_config :: "str \<Rightarrow> SwitchConfig" where
  "barrier_bypass_config version = \<lparr>switch_name = lit ''Light Barrier Bypass'',
     switch_unique_id = lit ''mqtt_gate_barrier_bypass'', switch_command_topic = BARRIER_BYPASS_COMMAND_TOPIC,
     switch_state_topic = BARRIER_BYPASS_STATE_TOPIC, switch_payload_on = ON_PAYLOAD,
     switch_payload_off = OFF_PAYLOAD, switch_device = the_device version\<rparr>"

definition reset_anemometer_config :: "str \<Rightarrow> ButtonConfig" where
  "reset_anemometer_config version = \<lparr>button_name = lit ''Reset Windmonitor'',
     button_unique_id = lit ''mqtt_gate_reset_anemometer'', button_command_topic = BUTTON_COMMAND_TOPIC,
     payload_press = RESET_WIND_LOCK_PAYLOAD, button_device = the_device version\<rparr>"

definition json :: "(json \<Rightarrow> bytes option) \<Rightarrow> json \<Rightarrow> ('e, bytes) outcome" where
  "json to_vec config = or_panic (to_vec config)"

definition configs :: "(json \<Rightarrow> bytes option) \<Rightarrow> str \<Rightarrow> ('e, (str \<times> bytes) list) outcome" where
  "configs to_vec version =
     and_then (json to_vec (json_of_cover (cover_config version))) (\<lambda>cover.
     and_then (json to_vec (json_of_sensor (wind_config version))) (\<lambda>wind.
     and_then (json to_vec (json_of_switch (barrier_bypass_config version))) (\<lambda>bypass.
     and_then (json to_vec (json_of_button (reset_anemometer_config version))) (\<lambda>reset.
     Ok [(COVER_CONFIG_TOPIC, cover), (WIND_CONFIG_TOPIC, wind), (SPARE_INPUT_CONFIG_TOPIC, []),
         (BARRIER_BYPASS_CONFIG_TOPIC, bypass), (BUTTON_CONFIG_TOPIC, reset)]))))"

section \<open>What Home Assistant reads from the configs\<close>

definition field :: "string \<Rightarrow> json \<Rightarrow> str option" where
  "field k j = (case j of JObj kvs \<Rightarrow> (case map_of kvs k of Some (JStr s) \<Rightarrow> Some s | _ \<Rightarrow> None) | _ \<Rightarrow> None)"

definition entities :: "str \<Rightarrow> json list" where
  "entities version = [json_of_cover (cover_config version), json_of_sensor (wind_config version),
     json_of_switch (barrier_bypass_config version), json_of_button (reset_anemometer_config version)]"

text \<open>Pairs of a topic field and a payload field of one entity.\<close>

definition announced :: "string \<Rightarrow> string list \<Rightarrow> str \<Rightarrow> (str \<times> str) list" where
  "announced topic_field payload_fields version =
     concat (map (\<lambda>j. case field topic_field j of
         None \<Rightarrow> []
       | Some t \<Rightarrow> map (Pair t) (concat (map (\<lambda>k. case field k j of None \<Rightarrow> [] | Some p \<Rightarrow> [p]) payload_fields)))
       (entities version))"

definition announced_commands :: "str \<Rightarrow> (str \<times> str) list" where
  "announced_commands = announced ''command_topic''
     [''payload_open'', ''payload_close'', ''payload_stop'', ''payload_on'', ''payload_off'', ''payload_press'']"

definition announced_states :: "str \<Rightarrow> (str \<times> str) list" where
  "announced_states = announced ''state_topic''
     [''state_open'', ''state_opening'', ''state_closed'', ''state_closing'', ''payload_on'', ''payload_off'']"

lemmas entity_defs = announced_def entities_def field_def json_of_cover_def json_of_sensor_def json_of_switch_def
  json_of_button_def cover_config_def wind_config_def barrier_bypass_config_def reset_anemometer_config_def

lemma announced_commands_eq:
  "announced_commands version = map wire [CmdOpen, CmdClose, CmdStop, SetBarrierBypass True,
     SetBarrierBypass False, ResetWindLock]"
  by (simp add: announced_commands_def entity_defs on_off_def)

lemma announced_states_eq:
  "announced_states version = [(COVER_STATE_TOPIC, OPEN_STATE), (COVER_STATE_TOPIC, OPENING_STATE),
     (COVER_STATE_TOPIC, CLOSED_STATE), (COVER_STATE_TOPIC, CLOSING_STATE), (WIND_STATE_TOPIC, ON_PAYLOAD),
     (WIND_STATE_TOPIC, OFF_PAYLOAD), (BARRIER_BYPASS_STATE_TOPIC, ON_PAYLOAD),
     (BARRIER_BYPASS_STATE_TOPIC, OFF_PAYLOAD)]"
  by (simp add: announced_states_def entity_defs)


text \<open>
  With a serializer that succeeds, as \<open>serde_json\<close> does on plain structs of
  strings, the configs are five messages on distinct topics; the retired
  entity's message, and only that one, is empty when the serializer never is.
\<close>

theorem discovery_messages:
  assumes "\<And>j. \<exists>bs. to_vec j = Some bs \<and> bs \<noteq> []"
  shows "\<exists>ms. configs to_vec version = Ok ms \<and> length ms = 5 \<and> distinct (map fst ms) \<and>
    filter (\<lambda>(t, p). p = []) ms = [(SPARE_INPUT_CONFIG_TOPIC, [])] \<and>
    set (map fst ms) \<inter> set COMMAND_TOPICS = {}"
proof -
  obtain f where f: "\<And>j. to_vec j = Some (f j) \<and> f j \<noteq> []" using assms by metis
  show ?thesis
    by (simp add: configs_def json_def f COVER_CONFIG_TOPIC_def WIND_CONFIG_TOPIC_def SPARE_INPUT_CONFIG_TOPIC_def
        BARRIER_BYPASS_CONFIG_TOPIC_def BUTTON_CONFIG_TOPIC_def COMMAND_TOPICS_def topic_defs)
qed

theorem discovery_messages_witness:
  "\<exists>ms. configs (\<lambda>j. Some (lit ''{}'')) (lit ''1.0'') = (Ok ms :: (unit, (str \<times> bytes) list) outcome)
    \<and> distinct (map fst ms)"
  using discovery_messages [of "\<lambda>j. Some (lit ''{}'')" "lit ''1.0''"] by (auto simp: lit_def)

end
