(* ===== verification/MqttLink.thy ===== *)
theory MqttLink
  imports MqttClient AppConfig Discovery
begin

text \<open>
  The connection to the broker (\<open>src/infra/mqtt_client.rs\<close>) and the two tasks on
  top of it (\<open>src/app/mqtt_handler.rs\<close>, \<open>src/app/discovery.rs\<close>). The statics of the
  module, bounded channels, the list of subscriptions and the connected signal,
  are the fields of \<open>link\<close>. One iteration of the connection loop polls its three
  futures in the order of the source; what happens while they are pending (time
  passes, bytes arrive, other tasks use the queues) is an argument. The name
  service and the TCP connection come from the network library and are
  parameters.
\<close>

definition QUEUE_DEPTH :: nat where "QUEUE_DEPTH = 8"
definition OUTGOING_DEPTH :: nat where "OUTGOING_DEPTH = 16"

definition KEEP_ALIVE :: "time_ops \<Rightarrow> ticks" where "KEEP_ALIVE tu = from_secs tu 50"
definition KEEP_ALIVE_CHECK :: "time_ops \<Rightarrow> ticks" where "KEEP_ALIVE_CHECK tu = from_secs tu 10"
definition RECONNECT_DELAY :: "time_ops \<Rightarrow> ticks" where "RECONNECT_DELAY tu = from_secs tu 5"

record IncomingMessage =
  in_topic :: str
  in_payload :: bytes

record OutgoingMessage =
  out_topic :: str
  out_payload :: bytes
  out_qos :: QoS
  out_retain :: bool

record Subscription =
  subscribed_topic :: str
  subscribed_qos :: QoS

record link =
  INCOMING :: "IncomingMessage list"
  OUTGOING :: "OutgoingMessage list"
  CONNECTED :: "unit signal"
  SUBSCRIPTIONS :: "Subscription list"
  SUB_QUEUE :: "Subscription list"

definition link_new :: link where
  "link_new = \<lparr>INCOMING = [], OUTGOING = [], CONNECTED = signal_new, SUBSCRIPTIONS = [], SUB_QUEUE = []\<rparr>"

section \<open>Channels\<close>

text \<open>\<open>embassy_sync::channel\<close>: a bounded queue; \<open>try_send\<close> on a full one gives the message back.\<close>

definition try_send :: "nat \<Rightarrow> 'm \<Rightarrow> 'm list \<Rightarrow> 'm list option" where
  "try_send depth m q = (if length q < depth then Some (q @ [m]) else None)"

definition try_receive :: "'m list \<Rightarrow> ('m \<times> 'm list) option" where
  "try_receive q = (case q of [] \<Rightarrow> None | m # q' \<Rightarrow> Some (m, q'))"

text \<open>The loop of \<open>publish\<close>: drop the oldest message until there is room.\<close>

function publish_loop :: "OutgoingMessage \<Rightarrow> OutgoingMessage list \<Rightarrow> OutgoingMessage list" where
  "publish_loop m q =
     (case try_send OUTGOING_DEPTH m q of
        Some q' \<Rightarrow> q'
      | None \<Rightarrow> publish_loop m (case try_receive q of Some (_, q') \<Rightarrow> q' | None \<Rightarrow> q))"
  by auto
termination
  by (relation "measure (\<lambda>(_, q). length q)")
    (auto simp: try_send_def try_receive_def OUTGOING_DEPTH_def split: list.splits if_splits)

declare publish_loop.simps [simp del]

definition link_publish :: "str \<Rightarrow> bytes \<Rightarrow> QoS \<Rightarrow> bool \<Rightarrow> link \<Rightarrow> link" where
  "link_publish topic payload qos retain k =
     k\<lparr>OUTGOING := publish_loop \<lparr>out_topic = topic, out_payload = payload, out_qos = qos, out_retain = retain\<rparr> (OUTGOING k)\<rparr>"

text \<open>\<open>send().await\<close> on a full channel waits: \<open>None\<close>.\<close>

definition link_subscribe :: "str \<Rightarrow> QoS \<Rightarrow> link \<Rightarrow> unit option \<times> link" where
  "link_subscribe topic qos k =
     (let sub = \<lparr>subscribed_topic = topic, subscribed_qos = qos\<rparr>;
          k = k\<lparr>SUBSCRIPTIONS := SUBSCRIPTIONS k @ [sub]\<rparr>
      in case try_send QUEUE_DEPTH sub (SUB_QUEUE k) of
           Some q \<Rightarrow> (Some (), k\<lparr>SUB_QUEUE := q\<rparr>)
         | None \<Rightarrow> (None, k))"

definition link_receive :: "link \<Rightarrow> IncomingMessage option \<times> link" where
  "link_receive k =
     (case try_receive (INCOMING k) of Some (m, q) \<Rightarrow> (Some m, k\<lparr>INCOMING := q\<rparr>) | None \<Rightarrow> (None, k))"

definition wait_connected :: "link \<Rightarrow> unit option \<times> link" where
  "wait_connected k = (case signal_take (CONNECTED k) of Some (_, s) \<Rightarrow> (Some (), k\<lparr>CONNECTED := s\<rparr>) | None \<Rightarrow> (None, k))"

section \<open>The socket\<close>

text \<open>What a read of the TCP socket gives; \<open>'x\<close> are its errors. End of file is reported as an error.\<close>

datatype 'x socket_read = SocketData bytes | SocketError 'x

primrec tcp_recv :: "'x \<Rightarrow> 'x socket_read \<Rightarrow> 'x recv_event" where
  "tcp_recv connection_reset (SocketData bs) = (if bs = [] then RecvError connection_reset else Chunk bs)"
| "tcp_recv connection_reset (SocketError e) = RecvError e"

section \<open>One connection\<close>

definition client_options :: "time_ops \<Rightarrow> AppConfig \<Rightarrow> MqttOptions" where
  "client_options tu cfg =
     (let opts = with_keep_alive (KEEP_ALIVE tu)
            (MqttOptions_new tu (lit ''mqtt_gate'') (mqtt_host cfg) (mqtt_port cfg)) in
      case (mqtt_username cfg, mqtt_password cfg) of
        (Some user, Some pass) \<Rightarrow> with_credentials user pass opts
      | _ \<Rightarrow> opts)"

text \<open>\<open>map_err(|_| message)\<close> on an awaited result.\<close>

definition describe :: "string \<Rightarrow> ('e, 'a) awaited \<Rightarrow> (string, 'a) outcome option" where
  "describe msg r = (case r of None \<Rightarrow> None | Some (Ok v) \<Rightarrow> Some (Ok v) | Some (Err e) \<Rightarrow> Some (Err msg)
     | Some Panic \<Rightarrow> Some Panic)"

fun resubscribe :: "Subscription list \<Rightarrow> 'e MqttClient \<Rightarrow> (string, unit) outcome option \<times> 'e MqttClient" where
  "resubscribe [] c = (Some (Ok ()), c)"
| "resubscribe (s # ss) c =
     (case subscribe (subscribed_topic s) (subscribed_qos s) c of
        (Some (Ok _), c) \<Rightarrow> resubscribe ss c
      | (r, c) \<Rightarrow> (describe ''MQTT re-subscribe failed'' r, c))"

text \<open>From the open socket to the connection loop: handshake, subscriptions, stale messages, signal.\<close>

definition session_start ::
  "time_ops \<Rightarrow> AppConfig \<Rightarrow> 'e net \<Rightarrow> link \<Rightarrow> (string, unit) outcome option \<times> 'e MqttClient \<times> link" where
  "session_start tu cfg net k =
     (case connect tu (MqttClient_new MQTT_BUFFER_SIZE net (client_options tu cfg)) of
        (Some (Ok _), c) \<Rightarrow>
          (let k = k\<lparr>SUB_QUEUE := []\<rparr> in
           case resubscribe (SUBSCRIPTIONS k) c of
             (Some (Ok _), c) \<Rightarrow>
               (Some (Ok ()), c, k\<lparr>OUTGOING := [], CONNECTED := signal_set () (CONNECTED k)\<rparr>)
           | (r, c) \<Rightarrow> (r, c, k))
      | (r, c) \<Rightarrow> (describe ''MQTT CONNECT failed'' r, c, k))"

text \<open>
  The state of the connection loop: the client, and the message that
  \<open>INCOMING.send\<close> could not place yet because the queue is full.
\<close>

record 'e session =
  sess_client :: "'e MqttClient"
  sess_waiting :: "IncomingMessage option"

text \<open>What happens while an iteration waits.\<close>

record 'e pause =
  waited :: ticks
  arrivals :: "'e recv_event list"
  meanwhile :: "link \<Rightarrow> link"

definition pass_time :: "'e pause \<Rightarrow> 'e MqttClient \<Rightarrow> 'e MqttClient" where
  "pass_time e c = c\<lparr>transport := (transport c)\<lparr>clock := clock (transport c) + waited e,
     incoming := incoming (transport c) @ arrivals e\<rparr>\<rparr>"

definition deliver ::
  "IncomingMessage \<Rightarrow> 'e session \<Rightarrow> link \<Rightarrow> (string, unit) outcome option \<times> 'e session \<times> link" where
  "deliver m s k =
     (case try_send QUEUE_DEPTH m (INCOMING k) of
        Some q \<Rightarrow> (Some (Ok ()), s\<lparr>sess_waiting := None\<rparr>, k\<lparr>INCOMING := q\<rparr>)
      | None \<Rightarrow> (None, s\<lparr>sess_waiting := Some m\<rparr>, k))"

text \<open>The branch of \<open>select3\<close> in which \<open>poll\<close> completed.\<close>

definition poll_branch ::
  "('e mqtt_error, Publish option) outcome \<Rightarrow> 'e session \<Rightarrow> link \<Rightarrow> (string, unit) outcome option \<times> 'e session \<times> link" where
  "poll_branch r s k =
     (case r of
        Ok None \<Rightarrow> (Some (Ok ()), s, k)
      | Ok (Some p) \<Rightarrow> deliver \<lparr>in_topic = pub_topic p, in_payload = pub_payload p\<rparr> s k
      | Err e \<Rightarrow> (Some (Err ''MQTT connection error''), s, k)
      | Panic \<Rightarrow> (Some Panic, s, k))"

text \<open>The two queue branches: \<open>None\<close> when both queues are empty.\<close>

definition queue_branch ::
  "'e session \<Rightarrow> link \<Rightarrow> ((string, unit) outcome option \<times> 'e session \<times> link) option" where
  "queue_branch s k =
     (case try_receive (OUTGOING k) of
        Some (m, q) \<Rightarrow>
          Some (case publish (out_topic m) (out_payload m) (out_qos m) (out_retain m) (sess_client s) of
                  (r, c) \<Rightarrow> (describe ''MQTT publish failed'' r, s\<lparr>sess_client := c\<rparr>, k\<lparr>OUTGOING := q\<rparr>))
      | None \<Rightarrow>
          (case try_receive (SUB_QUEUE k) of
             Some (x, q) \<Rightarrow>
               Some (case subscribe (subscribed_topic x) (subscribed_qos x) (sess_client s) of
                  (r, c) \<Rightarrow> (describe ''MQTT subscribe failed'' r, s\<lparr>sess_client := c\<rparr>, k\<lparr>SUB_QUEUE := q\<rparr>))
           | None \<Rightarrow> None))"

text \<open>One iteration of the loop: \<open>None\<close> when all its futures are still pending after the pause.\<close>

definition session_iteration ::
  "time_ops \<Rightarrow> 'e pause \<Rightarrow> 'e session \<Rightarrow> link \<Rightarrow> (string, unit) outcome option \<times> 'e session \<times> link" where
  "session_iteration tu e s k =
     (case sess_waiting s of
        Some m \<Rightarrow> deliver m (s\<lparr>sess_client := pass_time e (sess_client s)\<rparr>) (meanwhile e k)
      | None \<Rightarrow>
          (case poll (sess_client s) of
             (Some r, c) \<Rightarrow> poll_branch r (s\<lparr>sess_client := c\<rparr>) k
           | (None, c) \<Rightarrow>
               (case queue_branch (s\<lparr>sess_client := c\<rparr>) k of
                  Some x \<Rightarrow> x
                | None \<Rightarrow>
                    let k = meanwhile e k in
                    (case poll_body (pass_time e c) of
                       (Some r, c) \<Rightarrow> poll_branch r (s\<lparr>sess_client := c\<rparr>) k
                     | (None, c) \<Rightarrow>
                         (case queue_branch (s\<lparr>sess_client := c\<rparr>) k of
                            Some x \<Rightarrow> x
                          | None \<Rightarrow> (if KEEP_ALIVE_CHECK tu \<le> waited e then Some (Ok ()) else None,
                                     s\<lparr>sess_client := c\<rparr>, k))))))"

text \<open>The loop over the pauses the environment provides; only an error ends it.\<close>

fun session_loop ::
  "time_ops \<Rightarrow> 'e pause list \<Rightarrow> 'e session \<Rightarrow> link \<Rightarrow> (string, unit) outcome option \<times> 'e session \<times> link" where
  "session_loop tu [] s k = (None, s, k)"
| "session_loop tu (e # es) s k =
     (case session_iteration tu e s k of
        (Some (Ok _), s, k) \<Rightarrow> session_loop tu es s k
      | (r, s, k) \<Rightarrow> (r, s, k))"

section \<open>Finding the broker\<close>

text \<open>
  The network library: parsing an address literal, the DNS query and the TCP
  connection, which gives the byte stream to the broker.
\<close>

record ('ip, 'q, 'e) network =
  parse_ip :: "str \<Rightarrow> 'ip option"
  dns_query :: "str \<Rightarrow> 'q + 'ip list"
  tcp_connect :: "'ip \<Rightarrow> u16 \<Rightarrow> 'e net option"

definition resolve :: "('ip, 'q, 'e) network \<Rightarrow> str \<Rightarrow> 'ip option" where
  "resolve nw host =
     (case parse_ip nw host of
        Some addr \<Rightarrow> Some addr
      | None \<Rightarrow> (case dns_query nw host of
                   Inl err \<Rightarrow> None
                 | Inr addrs \<Rightarrow> (case addrs of [] \<Rightarrow> None | addr # _ \<Rightarrow> Some addr)))"

definition run_once ::
  "time_ops \<Rightarrow> ('ip, 'q, 'e) network \<Rightarrow> AppConfig \<Rightarrow> 'e pause list \<Rightarrow> link \<Rightarrow> (string, unit) outcome option \<times> link" where
  "run_once tu nw cfg es k =
     (case resolve nw (mqtt_host cfg) of
        None \<Rightarrow> (Some (Err ''could not resolve MQTT host''), k)
      | Some ip \<Rightarrow>
          (case tcp_connect nw ip (mqtt_port cfg) of
             None \<Rightarrow> (Some (Err ''TCP connect to MQTT broker failed''), k)
           | Some net \<Rightarrow>
               (case session_start tu cfg net k of
                  (Some (Ok _), c, k) \<Rightarrow>
                    (case session_loop tu es \<lparr>sess_client = c, sess_waiting = None\<rparr> k of (r, s, k) \<Rightarrow> (r, k))
                | (r, c, k) \<Rightarrow> (r, k))))"

section \<open>The tasks on top\<close>

definition publish_state :: "controls \<Rightarrow> link \<Rightarrow> link" where
  "publish_state c k =
     fold (\<lambda>(topic, payload) k. link_publish topic payload AtLeastOnce True k) (state_messages c) k"

definition publish_messages :: "(str \<times> bytes) list \<Rightarrow> link \<Rightarrow> link" where
  "publish_messages ms k =
     fold (\<lambda>(topic, payload) k. link_publish topic payload AtLeastOnce True k) ms k"

definition publish_all :: "(json \<Rightarrow> bytes option) \<Rightarrow> str \<Rightarrow> link \<Rightarrow> ('e, link) outcome" where
  "publish_all to_vec version k = and_then (configs to_vec version) (\<lambda>ms. Ok (publish_messages ms k))"

text \<open>One round of the discovery task, once the connected signal has fired.\<close>

definition republish :: "(json \<Rightarrow> bytes option) \<Rightarrow> str \<Rightarrow> controls \<Rightarrow> link \<Rightarrow> ('e, link) outcome" where
  "republish to_vec version c k = and_then (publish_all to_vec version k) (\<lambda>k. Ok (publish_state c k))"

text \<open>The subscriptions that the handler task makes at its start.\<close>

definition subscribe_commands :: "link \<Rightarrow> link" where
  "subscribe_commands k = fold (\<lambda>t k. snd (link_subscribe t AtLeastOnce k)) COMMAND_TOPICS k"

text \<open>\<open>physical::gate::execute\<close> and one message of the handler task.\<close>

definition execute :: "Command \<Rightarrow> controls \<times> link \<Rightarrow> controls \<times> link" where
  "execute cmd x =
     (case x of (c, k) \<Rightarrow>
        let c = apply_command cmd c in
        (c, (case cmd of SetBarrierBypass _ \<Rightarrow> publish_state c k | _ \<Rightarrow> k)))"

definition handle_message :: "IncomingMessage \<Rightarrow> controls \<times> link \<Rightarrow> controls \<times> link" where
  "handle_message m x =
     (case parse (in_topic m) (in_payload m) of Ok cmd \<Rightarrow> execute cmd x | _ \<Rightarrow> x)"

section \<open>The outgoing queue\<close>

definition newest :: "nat \<Rightarrow> 'a list \<Rightarrow> 'a list" where
  "newest n xs = drop (length xs - n) xs"

lemma publish_loop_newest: "publish_loop m q = newest 16 (q @ [m])"
proof (induction "length q" arbitrary: q rule: less_induct)
  case less
  show ?case
  proof (cases "length q < 16")
    case True
    then show ?thesis by (subst publish_loop.simps) (simp add: try_send_def OUTGOING_DEPTH_def newest_def)
  next
    case False
    then obtain x q' where q: "q = x # q'" by (cases q) auto
    then have "length q' - 14 = Suc (length q' - 15)" using False by simp
    then show ?thesis
      using less [of q'] False q
      by (subst publish_loop.simps) (simp add: try_send_def OUTGOING_DEPTH_def try_receive_def newest_def)
  qed
qed

lemma newest_newest: "newest n (newest n xs @ ys) = newest n (xs @ ys)"
proof (cases "length xs \<le> n")
  case True
  then show ?thesis by (simp add: newest_def)
next
  case False
  then have l: "length (newest n xs) = n" by (simp add: newest_def)
  have e: "xs = take (length xs - n) xs @ newest n xs" by (simp add: newest_def)
  have "newest n (xs @ ys) = newest n (take (length xs - n) xs @ (newest n xs @ ys))"
    using e by (metis append.assoc)
  also have "\<dots> = newest n (newest n xs @ ys)" using l False by (simp add: newest_def)
  finally show ?thesis by simp
qed

definition state_message :: "str \<times> bytes \<Rightarrow> OutgoingMessage" where
  "state_message x = \<lparr>out_topic = fst x, out_payload = snd x, out_qos = AtLeastOnce, out_retain = True\<rparr>"

lemma newest_all: "length xs \<le> n \<Longrightarrow> newest n xs = xs"
  by (simp add: newest_def)

lemma link_publish_queue:
  "link_publish t p AtLeastOnce True k = k\<lparr>OUTGOING := newest 16 (OUTGOING k @ [state_message (t, p)])\<rparr>"
  by (simp add: link_publish_def publish_loop_newest state_message_def)

lemma publish_messages_queue:
  "ms \<noteq> [] \<Longrightarrow> publish_messages ms k = k\<lparr>OUTGOING := newest 16 (OUTGOING k @ map state_message ms)\<rparr>"
proof (induction ms arbitrary: k rule: list_nonempty_induct)
  case (single m)
  then show ?case by (cases m) (simp add: publish_messages_def link_publish_queue)
next
  case (cons m ms)
  obtain t p where m: "m = (t, p)" by force
  show ?case
    using cons.IH [of "link_publish t p AtLeastOnce True k"] newest_newest [of 16 "OUTGOING k @ [state_message m]" "map state_message ms"]
    by (simp add: publish_messages_def m link_publish_queue)
qed

lemma publish_state_queue:
  "publish_state c k = k\<lparr>OUTGOING := newest 16 (OUTGOING k @ map state_message (state_messages c))\<rparr>"
  using publish_messages_queue [of "state_messages c" k]
  by (simp add: publish_state_def publish_messages_def state_messages_def)

section \<open>Sessions\<close>

lemma connect_packet_fits:
  assumes "config_ok cfg"
  shows "connect_ok (connect_packet tu (client_options tu cfg))"
    and "5 + length (connect_content (connect_packet tu (client_options tu cfg))) \<le> MQTT_BUFFER_SIZE"
  using assms
  by (auto simp: connect_ok_def connect_content_def optional_field_def connect_packet_def client_options_def Let_def
      MqttOptions_new_def with_keep_alive_def with_credentials_def Connect_new_def Connect_with_credentials_def
      config_ok_def MQTT_BUFFER_SIZE_def split: option.splits)

lemma connect_packet_keep_alive:
  "time_units tu \<Longrightarrow> keep_alive (connect_packet tu (client_options tu cfg)) = 50"
  by (simp add: connect_packet_def client_options_def Let_def MqttOptions_new_def with_keep_alive_def
      with_credentials_def Connect_new_def Connect_with_credentials_def KEEP_ALIVE_def as_secs_def
      time_units.as_millis_from_secs split: option.splits)

definition subscribe_bytes :: "u16 \<Rightarrow> Subscription \<Rightarrow> bytes" where
  "subscribe_bytes pid s =
     frame 0x82 (to_be_bytes pid @ prefixed (subscribed_topic s) @ [qos_code (subscribed_qos s)])"

definition next_id :: "u16 \<Rightarrow> u16" where
  "next_id w = (if w + 1 = 0 then 1 else w + 1)"

lemma subscribe_ok:
  assumes "sends c" "length (tx_buffer c) = 512" "length (subscribed_topic s) \<le> 400"
  obtains c' where "subscribe (subscribed_topic s) (subscribed_qos s) c = (Some (Ok ()), c')" "sends c'"
    "length (tx_buffer c') = 512" "next_packet_id c' = next_id (next_packet_id c)" "inbox c' = inbox c"
    "sent (transport c') = sent (transport c) @ subscribe_bytes (next_id (next_packet_id c)) s"
proof -
  let ?pid = "next_id (next_packet_id c)"
  let ?s = "\<lparr>sub_packet_id = ?pid, sub_topics = [(subscribed_topic s, subscribed_qos s)]\<rparr>"
  let ?c = "c\<lparr>next_packet_id := ?pid\<rparr>"
  have f: "frame 0x82 (subscribe_content ?s) = subscribe_bytes ?pid s"
    by (simp add: subscribe_content_def subscribe_bytes_def)
  have e: "encodes (Subscribe_encode ?s) (tx_buffer ?c) (frame 0x82 (subscribe_content ?s))"
    using assms(2,3) by (intro Subscribe_encodes) (simp_all add: subscribe_content_def)
  have c: "sends ?c" using assms(1) by (simp add: sends_def)
  have r: "subscribe (subscribed_topic s) (subscribed_qos s) c = send_packet (Subscribe_encode ?s) ?c"
    by (simp add: subscribe_def get_next_packet_id_def Let_def next_id_def)
  show ?thesis
    by (rule send_packet_ok [OF c e], rule that)
      (use assms(2) r f in \<open>simp_all add: inbox_def buffered_def\<close>)
qed

primrec subscriptions_bytes :: "u16 \<Rightarrow> Subscription list \<Rightarrow> bytes" where
  "subscriptions_bytes w [] = []"
| "subscriptions_bytes w (s # ss) = subscribe_bytes (next_id w) s @ subscriptions_bytes (next_id w) ss"

lemma resubscribe_ok:
  assumes "sends c" "length (tx_buffer c) = 512" "\<forall>s \<in> set ss. length (subscribed_topic s) \<le> 400"
  shows "\<exists>c'. resubscribe ss c = (Some (Ok ()), c') \<and> sends c' \<and> inbox c' = inbox c
    \<and> sent (transport c') = sent (transport c) @ subscriptions_bytes (next_packet_id c) ss"
  using assms
proof (induction ss arbitrary: c)
  case Nil
  then show ?case by simp
next
  case (Cons s ss)
  obtain c1 where c1: "subscribe (subscribed_topic s) (subscribed_qos s) c = (Some (Ok ()), c1)" "sends c1"
      "length (tx_buffer c1) = 512" "next_packet_id c1 = next_id (next_packet_id c)" "inbox c1 = inbox c"
      "sent (transport c1) = sent (transport c) @ subscribe_bytes (next_id (next_packet_id c)) s"
    using subscribe_ok [OF Cons.prems(1,2), of s] Cons.prems(3) by auto
  show ?case using Cons.IH [OF c1(2,3)] Cons.prems(3) c1 by auto
qed

lemma state_topics_utf8:
  "utf8_valid COVER_STATE_TOPIC" "utf8_valid WIND_STATE_TOPIC" "utf8_valid BARRIER_BYPASS_STATE_TOPIC"
  unfolding topic_defs by (rule lit_utf8; simp)+

lemma state_topics_short:
  "length COVER_STATE_TOPIC \<le> 30" "length WIND_STATE_TOPIC \<le> 30" "length BARRIER_BYPASS_STATE_TOPIC \<le> 30"
  by (simp_all add: topic_defs)

lemma state_payloads_short: "length (cover_payload s) \<le> 7" "length (on_off b) \<le> 7"
  by (cases s) (simp_all add: cover_payload_def on_off_def payload_defs)

lemma state_message_ok:
  "(t, p) \<in> set (state_messages c) \<Longrightarrow> utf8_valid t \<and> length t \<le> 30 \<and> length p \<le> 7"
  using state_topics_utf8 state_topics_short state_payloads_short by (auto simp: state_messages_def)

section \<open>Properties\<close>

text \<open>
  The outgoing queue never holds more than 16 messages and keeps the newest
  ones in order: publishing appends, and only the oldest messages give way.
\<close>

theorem outgoing_queue_keeps_newest:
  "OUTGOING (link_publish t p q r k) =
     newest 16 (OUTGOING k @ [\<lparr>out_topic = t, out_payload = p, out_qos = q, out_retain = r\<rparr>]) \<and>
   length (OUTGOING (link_publish t p q r k)) = min 16 (length (OUTGOING k) + 1)"
  by (simp add: link_publish_def publish_loop_newest) (simp add: newest_def)

text \<open>
  After a reconnect everything is republished and nothing of it is dropped:
  with a serializer that succeeds, the queue then holds all discovery configs
  and the three state messages of the current state, in order.
\<close>

theorem republish_is_complete:
  assumes "\<And>j. to_vec j \<noteq> None" "OUTGOING k = []"
  shows "\<exists>ms k'. configs to_vec version = (Ok ms :: ('e, (str \<times> bytes) list) outcome) \<and>
    republish to_vec version c k = (Ok k' :: ('e, link) outcome) \<and>
    OUTGOING k' = map state_message (ms @ state_messages c)"
proof -
  define f where "f j = the (to_vec j)" for j
  have f: "to_vec j = Some (f j)" for j using assms(1) [of j] by (simp add: f_def)
  define ms where "ms = [(COVER_CONFIG_TOPIC, f (json_of_cover (cover_config version))),
    (WIND_CONFIG_TOPIC, f (json_of_sensor (wind_config version))), (SPARE_INPUT_CONFIG_TOPIC, []),
    (BARRIER_BYPASS_CONFIG_TOPIC, f (json_of_switch (barrier_bypass_config version))),
    (BUTTON_CONFIG_TOPIC, f (json_of_button (reset_anemometer_config version)))]"
  have ms: "configs to_vec version = (Ok ms :: ('e, (str \<times> bytes) list) outcome)"
    by (simp only: configs_def json_def f or_panic_simps and_then.simps ms_def)
  have l: "ms \<noteq> []" "length ms = 5" "length (state_messages c) = 3" by (simp_all add: ms_def state_messages_def)
  have "OUTGOING (publish_state c (publish_messages ms k)) = map state_message (ms @ state_messages c)"
    using l assms(2) by (simp add: publish_state_queue publish_messages_queue newest_all)
  then show ?thesis using ms by (auto simp: republish_def publish_all_def)
qed

theorem republish_is_complete_witness:
  "\<exists>ms k'. configs (\<lambda>j. Some [1]) (lit ''1.0'') = (Ok ms :: (unit, (str \<times> bytes) list) outcome) \<and>
    republish (\<lambda>j. Some [1]) (lit ''1.0'') Controls_new link_new = (Ok k' :: (unit, link) outcome) \<and>
    OUTGOING k' = map state_message (ms @ state_messages Controls_new)"
  by (rule republish_is_complete) (simp_all add: link_new_def)

text \<open>
  C24. A session that the broker accepts: for every configuration the setup form
  accepts, the CONNECT packet fits the 512-byte buffer, and the client sends it
  and one SUBSCRIBE per registered topic, forgets the stale outgoing messages
  and raises the connected signal; all bytes behind the CONNACK stay available.
\<close>

theorem session_establishes:
  fixes net :: "'e net"
  assumes "config_ok cfg" "send_script net = []" "available (incoming net) = [0x20, 0x02, flags, 0] @ rest"
    and "\<forall>s \<in> set (SUBSCRIPTIONS k). length (subscribed_topic s) \<le> 400"
  shows "\<exists>c k'. session_start tu cfg net k = (Some (Ok ()), c, k')
    \<and> sent (transport c) = sent net @ frame 0x10 (connect_content (connect_packet tu (client_options tu cfg))) @
        subscriptions_bytes 1 (SUBSCRIPTIONS k)
    \<and> conn_state c = Connected \<and> inbox c = rest
    \<and> OUTGOING k' = [] \<and> SUB_QUEUE k' = [] \<and> CONNECTED k' = Some () \<and> SUBSCRIPTIONS k' = SUBSCRIPTIONS k"
proof -
  define c0 :: "'e MqttClient" where "c0 = MqttClient_new MQTT_BUFFER_SIZE net (client_options tu cfg)"
  have o: "options c0 = client_options tu cfg" "transport c0 = net" "length (tx_buffer c0) = 512"
      "length (rx_buffer c0) = 512" "next_packet_id c0 = 1"
    by (simp_all add: c0_def MqttClient_new_def MQTT_BUFFER_SIZE_def)
  have p: "send_script (transport c0) = []" "connect_ok (connect_packet tu (options c0))"
      "5 + length (connect_content (connect_packet tu (options c0))) \<le> length (tx_buffer c0)"
      "length (tx_buffer c0) \<le> 268435456" "4 \<le> length (rx_buffer c0)"
      "available (incoming (transport c0)) = [0x20, 0x02, flags, 0] @ rest"
    using assms(2,3) connect_packet_fits [OF assms(1), of tu] o by (simp_all add: MQTT_BUFFER_SIZE_def)
  obtain c1 where c1: "connect tu c0 = (Some (Ok ()), c1)" "conn_state c1 = Connected" "inbox c1 = rest"
      "sent (transport c1) = sent net @ frame 0x10 (connect_content (connect_packet tu (client_options tu cfg)))"
      "send_script (transport c1) = []" "length (tx_buffer c1) = 512" "next_packet_id c1 = 1"
    by (rule connect_run [OF p]) (use o in simp)
  have "sends c1" using c1(2,5) by (simp add: sends_def)
  from resubscribe_ok [OF this c1(6) assms(4)]
  obtain c2 where c2: "resubscribe (SUBSCRIPTIONS k) c1 = (Some (Ok ()), c2)" "sends c2" "inbox c2 = rest"
      "sent (transport c2) = sent (transport c1) @ subscriptions_bytes 1 (SUBSCRIPTIONS k)"
    using c1(3,7) by auto
  show ?thesis
    using c1(1,4) c2 by (simp add: session_start_def c0_def [symmetric] Let_def sends_def)
qed

definition demo_config :: AppConfig where
  "demo_config = \<lparr>wifi_ssid = lit ''home'', wifi_password = [], mqtt_host = lit ''broker'', mqtt_port = 1883,
     mqtt_username = None, mqtt_password = None\<rparr>"

theorem session_establishes_witness:
  "\<exists>c k'. session_start mhz_clock demo_config
      (\<lparr>incoming = [Chunk [0x20, 2], Chunk [0, 0]], send_script = [], sent = [], clock = 0\<rparr> :: unit net)
      (subscribe_commands link_new) = (Some (Ok ()), c, k') \<and> conn_state c = Connected \<and> CONNECTED k' = Some ()"
proof -
  have "\<exists>c k'. session_start mhz_clock demo_config
      (\<lparr>incoming = [Chunk [0x20, 2], Chunk [0, 0]], send_script = [], sent = [], clock = 0\<rparr> :: unit net)
      (subscribe_commands link_new) = (Some (Ok ()), c, k')
    \<and> sent (transport c) = [] @
        frame 0x10 (connect_content (connect_packet mhz_clock (client_options mhz_clock demo_config))) @
        subscriptions_bytes 1 (SUBSCRIPTIONS (subscribe_commands link_new))
    \<and> conn_state c = Connected \<and> inbox c = []
    \<and> OUTGOING k' = [] \<and> SUB_QUEUE k' = [] \<and> CONNECTED k' = Some ()
    \<and> SUBSCRIPTIONS k' = SUBSCRIPTIONS (subscribe_commands link_new)"
    using session_establishes [of demo_config
        "\<lparr>incoming = [Chunk [0x20, 2], Chunk [0, 0]], send_script = [], sent = [], clock = 0\<rparr> :: unit net"
        0 "[]" "subscribe_commands link_new" mhz_clock]
    by (simp add: demo_config_def config_ok_def lit_def subscribe_commands_def COMMAND_TOPICS_def link_subscribe_def
        link_new_def try_send_def QUEUE_DEPTH_def topic_defs Let_def)
  then show ?thesis by blast
qed

text \<open>The queue branch transmits the oldest state message as one frame.\<close>

lemma queue_sends_state_message:
  assumes "sends c1" "length (tx_buffer c1) = 512" "OUTGOING k = state_message (t, p) # q" "(t, p) \<in> set (state_messages c)"
  defines "pub \<equiv> \<lparr>pub_topic = t, pub_qos = AtLeastOnce, pub_retain = True, pub_payload = p,
    pub_packet_id = Some (next_id (next_packet_id c1))\<rparr>"
  shows "\<exists>cl'. queue_branch \<lparr>sess_client = c1, sess_waiting = None\<rparr> k =
      Some (Some (Ok ()), \<lparr>sess_client = cl', sess_waiting = None\<rparr>, k\<lparr>OUTGOING := q\<rparr>) \<and>
    sent (transport cl') = sent (transport c1) @ publish_bytes pub"
    and "Publish_decode (publish_bytes pub) = Ok pub"
proof -
  note m = state_message_ok [OF assms(4)]
  let ?c = "c1\<lparr>next_packet_id := next_id (next_packet_id c1)\<rparr>"
  have ok: "publish_ok pub" using m by (simp add: publish_ok_def pub_def)
  have l: "length (publish_content pub) \<le> 41" using m by (simp add: publish_content_def pub_def)
  have e: "encodes (Publish_encode pub) (tx_buffer ?c) (publish_bytes pub)"
    unfolding publish_bytes_def using assms(2) m l by (intro Publish_encodes) (simp_all add: pub_def)
  have s: "sends ?c" using assms(1) by (simp add: sends_def)
  have r: "publish t p AtLeastOnce True c1 = send_packet (Publish_encode pub) ?c"
    by (simp add: publish_def get_next_packet_id_def Let_def next_id_def pub_def)
  obtain cl' where cl': "send_packet (Publish_encode pub) ?c = (Some (Ok ()), cl')"
      "sent (transport cl') = sent (transport c1) @ publish_bytes pub"
    by (rule send_packet_ok [OF s e]) simp
  then show "\<exists>cl'. queue_branch \<lparr>sess_client = c1, sess_waiting = None\<rparr> k =
      Some (Some (Ok ()), \<lparr>sess_client = cl', sess_waiting = None\<rparr>, k\<lparr>OUTGOING := q\<rparr>) \<and>
    sent (transport cl') = sent (transport c1) @ publish_bytes pub"
    using assms(3) r by (simp add: queue_branch_def try_receive_def state_message_def describe_def)
  show "Publish_decode (publish_bytes pub) = Ok pub"
    using Publish_decode_frame [OF ok, of "[]"] l by (simp add: publish_bytes_def)
qed

text \<open>
  A queued state message is sent: when the broker has nothing for the
  client, the iteration takes the oldest message from the queue and transmits,
  after a ping if one is due, one PUBLISH frame, retained and with QoS 1, whose
  bytes decode to exactly that topic and payload.
\<close>

theorem state_message_is_sent:
  assumes "client_ok cl" "sends cl" "length (tx_buffer cl) = 512" "fst (poll cl) = None"
    and "OUTGOING k = state_message (t, p) # q" "(t, p) \<in> set (state_messages c)"
  shows "\<exists>cl' packet. session_iteration tu e \<lparr>sess_client = cl, sess_waiting = None\<rparr> k
      = (Some (Ok ()), \<lparr>sess_client = cl', sess_waiting = None\<rparr>, k\<lparr>OUTGOING := q\<rparr>) \<and>
    sent (transport cl') = sent (transport cl) @ (if ping_due cl then [0xC0, 0] else []) @ packet \<and>
    Publish_decode packet = Ok \<lparr>pub_topic = t, pub_qos = AtLeastOnce, pub_retain = True, pub_payload = p,
      pub_packet_id = Some (next_id (next_packet_id cl))\<rparr>"
proof -
  obtain c1 where c1: "poll cl = (None, c1)" using assms(4) by (cases "poll cl") auto
  have pend: "sends c1" "length (tx_buffer c1) = 512" "next_packet_id c1 = next_packet_id cl"
      "sent (transport c1) = sent (transport cl) @ (if ping_due cl then [0xC0, 0] else [])"
    using poll_pending [OF assms(1,2) _ c1] assms(3) by simp_all
  from queue_sends_state_message [OF pend(1,2) assms(5,6)] pend(3,4) c1 show ?thesis
    by (auto simp: session_iteration_def)
qed

definition quiet_pause :: "'e pause" where
  "quiet_pause = \<lparr>waited = 0, arrivals = [], meanwhile = id\<rparr>"

lemma demo_client_facts:
  "client_ok (demo_client es)" "sends (demo_client es)" "length (tx_buffer (demo_client es)) = 512"
  "length (rx_buffer (demo_client es)) = 512" "next_packet_id (demo_client es) = 1"
  "sent (transport (demo_client es)) = []" "\<not> ping_due (demo_client es)" "inbox (demo_client es) = available es"
  by (simp_all add: demo_client_def MqttClient_new_def MqttOptions_new_def sends_def client_ok_def ping_due_def
      inbox_def buffered_def mhz_clock_def)

lemma demo_client_idle: "fst (poll (demo_client [])) = None"
  by (simp add: poll_def poll_body_def demo_client_def MqttClient_new_def MqttOptions_new_def bind_def
      keep_alive_ping_def next_packet_def drop_consumed_def next_packet_loop.simps complete_packet_len_def
      packet_len_loop.simps get_def Let_def net_recv_def mhz_clock_def)

theorem state_message_is_sent_witness:
  "\<exists>cl' packet. session_iteration mhz_clock quiet_pause \<lparr>sess_client = demo_client [], sess_waiting = None\<rparr>
      (link_new\<lparr>OUTGOING := [state_message (COVER_STATE_TOPIC, CLOSED_STATE)]\<rparr>)
      = (Some (Ok ()), \<lparr>sess_client = cl', sess_waiting = None\<rparr>, link_new) \<and>
    sent (transport cl') = packet \<and>
    Publish_decode packet = Ok \<lparr>pub_topic = COVER_STATE_TOPIC, pub_qos = AtLeastOnce, pub_retain = True,
      pub_payload = CLOSED_STATE, pub_packet_id = Some 2\<rparr>"
proof -
  have "(COVER_STATE_TOPIC, CLOSED_STATE) \<in> set (state_messages Controls_new)"
    by (simp add: state_messages_def cover_payload_def cover_state_def Controls_new_def dir_codes pos_codes)
  then show ?thesis
    using state_message_is_sent [OF demo_client_facts(1-3) demo_client_idle,
        of "link_new\<lparr>OUTGOING := [state_message (COVER_STATE_TOPIC, CLOSED_STATE)]\<rparr>"
        COVER_STATE_TOPIC CLOSED_STATE "[]" Controls_new mhz_clock quiet_pause]
    by (simp add: link_new_def next_id_def demo_client_facts)
qed

text \<open>
  From the wire to the gate: when the bytes of a command message have
  arrived, in whatever chunks, the next iteration of the connection hands the
  message to the application, which applies exactly that command to the shared
  controls; the bytes behind it stay for later.
\<close>

theorem network_command_is_applied:
  assumes "client_ok cl" "sends cl" "4 \<le> length (tx_buffer cl)" "deliverable cl p"
    and "inbox cl = publish_bytes p @ rest" "(pub_topic p, pub_payload p) = wire cmd" "INCOMING k = []"
  shows "\<exists>cl' k1 m k2 k3. session_iteration tu e \<lparr>sess_client = cl, sess_waiting = None\<rparr> k
      = (Some (Ok ()), \<lparr>sess_client = cl', sess_waiting = None\<rparr>, k1) \<and> inbox cl' = rest \<and>
    link_receive k1 = (Some m, k2) \<and> handle_message m (c, k2) = (apply_command cmd c, k3)"
proof -
  obtain cl' where cl': "poll cl = (Some (Ok (Some p)), cl')" "inbox cl' = rest"
    using poll_delivers [OF assms(1-5)] by blast
  let ?m = "\<lparr>in_topic = pub_topic p, in_payload = pub_payload p\<rparr>"
  have s: "session_iteration tu e \<lparr>sess_client = cl, sess_waiting = None\<rparr> k
      = (Some (Ok ()), \<lparr>sess_client = cl', sess_waiting = None\<rparr>, k\<lparr>INCOMING := [?m]\<rparr>)"
    using cl'(1) assms(7)
    by (simp add: session_iteration_def poll_branch_def deliver_def try_send_def QUEUE_DEPTH_def)
  have "parse (pub_topic p) (pub_payload p) = Ok cmd"
    using parse_wire_ok [of cmd] assms(6) by (metis fst_conv snd_conv)
  then have h: "\<exists>k3. handle_message ?m (c, k\<lparr>INCOMING := []\<rparr>) = (apply_command cmd c, k3)"
    by (simp add: handle_message_def execute_def Let_def)
  have "link_receive (k\<lparr>INCOMING := [?m]\<rparr>) = (Some ?m, k\<lparr>INCOMING := []\<rparr>)"
    by (simp add: link_receive_def try_receive_def)
  with s cl'(2) h show ?thesis by blast
qed

text \<open>An open command with QoS 1, as the broker sends it.\<close>

definition open_publish :: Publish where
  "open_publish = \<lparr>pub_topic = COVER_COMMAND_TOPIC, pub_qos = AtLeastOnce, pub_retain = False,
     pub_payload = OPEN_PAYLOAD, pub_packet_id = Some 7\<rparr>"

lemma open_publish_deliverable: "deliverable (demo_client es) open_publish"
proof -
  have l: "length COVER_COMMAND_TOPIC \<le> 40" "length OPEN_PAYLOAD \<le> 10" "utf8_valid COVER_COMMAND_TOPIC"
    unfolding topic_defs payload_defs by (simp_all add: lit_utf8)
  then have c: "length (publish_content open_publish) \<le> 60"
    by (simp add: publish_content_def open_publish_def)
  then have "length (publish_bytes open_publish) \<le> 512"
    using vbi_small [of "length (publish_content open_publish)"] by (simp add: publish_bytes_def length_frame)
  with l c show ?thesis
    by (simp add: deliverable_def publish_ok_def demo_client_facts open_publish_def)
qed

theorem network_command_is_applied_witness:
  "\<exists>cl' k1 m k2 k3. session_iteration mhz_clock quiet_pause
      \<lparr>sess_client = demo_client [Chunk (publish_bytes open_publish)], sess_waiting = None\<rparr> link_new
      = (Some (Ok ()), \<lparr>sess_client = cl', sess_waiting = None\<rparr>, k1) \<and>
    link_receive k1 = (Some m, k2) \<and> handle_message m (Controls_new, k2) = (send Open Controls_new, k3)"
proof -
  let ?c = "demo_client [Chunk (publish_bytes open_publish)]"
  have "publish_bytes open_publish \<noteq> []" by (simp add: publish_bytes_def frame_def)
  then have i: "inbox ?c = publish_bytes open_publish @ []" by (simp add: demo_client_facts)
  have w: "(pub_topic open_publish, pub_payload open_publish) = wire CmdOpen" by (simp add: open_publish_def)
  have "apply_command CmdOpen Controls_new = send Open Controls_new"
    by (simp add: controls_open_def Controls_new_def)
  with network_command_is_applied [OF demo_client_facts(1,2) _ open_publish_deliverable i w,
      of link_new mhz_clock quiet_pause Controls_new] show ?thesis
    by (auto simp: demo_client_facts link_new_def)
qed

lemma publish_frame:
  assumes "publish t p q r c = (x, c')"
  shows "options c' = options c" "clock (transport c') = clock (transport c)"
    "last_tx_time c' = last_tx_time c \<or> last_tx_time c' = clock (transport c)"
proof -
  obtain enc c0 where s: "send_packet enc c0 = (x, c')" "options c0 = options c" "transport c0 = transport c"
      "last_tx_time c0 = last_tx_time c"
    using assms by (auto simp: publish_def get_next_packet_id_def Let_def split: if_splits)
  from send_packet_frame(1,2,5) [OF s(1)] s(2-4) show "options c' = options c"
    "clock (transport c') = clock (transport c)" "last_tx_time c' = last_tx_time c \<or> last_tx_time c' = clock (transport c)"
    by simp_all
qed

lemma subscribe_frame:
  assumes "subscribe t q c = (x, c')"
  shows "options c' = options c" "clock (transport c') = clock (transport c)"
    "last_tx_time c' = last_tx_time c \<or> last_tx_time c' = clock (transport c)"
proof -
  obtain enc c0 where s: "send_packet enc c0 = (x, c')" "options c0 = options c" "transport c0 = transport c"
      "last_tx_time c0 = last_tx_time c"
    using assms by (auto simp: subscribe_def get_next_packet_id_def Let_def)
  from send_packet_frame(1,2,5) [OF s(1)] s(2-4) show "options c' = options c"
    "clock (transport c') = clock (transport c)" "last_tx_time c' = last_tx_time c \<or> last_tx_time c' = clock (transport c)"
    by simp_all
qed

text \<open>How long the client has not transmitted anything.\<close>

definition silence :: "'e MqttClient \<Rightarrow> ticks" where
  "silence c = clock (transport c) - last_tx_time c"

lemma publish_silence: "publish t p q r c = (x, c') \<Longrightarrow> silence c' \<le> silence c"
  using publish_frame [of t p q r c x c'] by (auto simp: silence_def)

lemma subscribe_silence: "subscribe t q c = (x, c') \<Longrightarrow> silence c' \<le> silence c"
  using subscribe_frame [of t q c x c'] by (auto simp: silence_def)

lemma queue_branch_silence:
  "queue_branch s k = Some (r, s', k') \<Longrightarrow> silence (sess_client s') \<le> silence (sess_client s)"
  unfolding queue_branch_def
  by (auto split: option.splits prod.splits dest!: publish_silence subscribe_silence)

lemma poll_branch_client: "poll_branch r s k = (x, s', k') \<Longrightarrow> sess_client s' = sess_client s"
  by (auto simp: poll_branch_def deliver_def split: outcome.splits option.splits)


definition demo_session_client :: "unit MqttClient" where
  "demo_session_client = (demo_client [])\<lparr>options := client_options mhz_clock
     \<lparr>wifi_ssid = lit ''home'', wifi_password = [], mqtt_host = lit ''broker'', mqtt_port = 1883,
       mqtt_username = None, mqtt_password = None\<rparr>\<rparr>"


text \<open>
  C40. Dropping a poll in the middle of an acknowledgement corrupts the outgoing
  stream: \<open>select3\<close> polls the client first, and when only half of the PUBACK fits
  into the socket while a message is queued, that message is transmitted right
  behind the half packet. The broker reads the first two bytes of the PUBLISH as
  the identifier of the acknowledged message.
\<close>

theorem dropped_acknowledgement_corrupts_stream:
  assumes "client_ok cl" "conn_state cl = Connected" "length (tx_buffer cl) = 512" "deliverable cl p" "\<not> ping_due cl"
    and "inbox cl = publish_bytes p @ rest" "pub_qos p = AtLeastOnce" "pub_packet_id p = Some pid"
    and "send_script (transport cl) = [SendDropped 2]"
    and "OUTGOING k = state_message (t, m) # q" "(t, m) \<in> set (state_messages c)"
  shows "\<exists>cl' packet. session_iteration tu e \<lparr>sess_client = cl, sess_waiting = None\<rparr> k
      = (Some (Ok ()), \<lparr>sess_client = cl', sess_waiting = None\<rparr>, k\<lparr>OUTGOING := q\<rparr>) \<and>
    sent (transport cl') = sent (transport cl) @ [0x40, 2] @ packet \<and>
    Publish_decode packet = Ok \<lparr>pub_topic = t, pub_qos = AtLeastOnce, pub_retain = True, pub_payload = m,
      pub_packet_id = Some (next_id (next_packet_id cl))\<rparr> \<and>
    complete_packet_len ([0x40, 2] @ packet) = Ok (Some 4) \<and>
    PubAck_decode (take 4 ([0x40, 2] @ packet)) = Ok \<lparr>ack_packet_id = the (from_be_bytes (take 2 packet))\<rparr>"
proof -
  have tx: "4 \<le> length (tx_buffer cl)" using assms(3) by simp
  obtain c1 where c1: "poll cl = (None, c1)" "sent (transport c1) = sent (transport cl) @ take 2 (puback pid)" "sends c1"
      "length (tx_buffer c1) = length (tx_buffer cl)" "next_packet_id c1 = next_packet_id cl"
    using poll_drops_ack [OF assms(1,2) tx assms(4-9)] .
  define pub where "pub = \<lparr>pub_topic = t, pub_qos = AtLeastOnce, pub_retain = True, pub_payload = m,
    pub_packet_id = Some (next_id (next_packet_id c1))\<rparr>"
  have tx1: "length (tx_buffer c1) = 512" using c1(4) assms(3) by simp
  obtain cl' where cl': "queue_branch \<lparr>sess_client = c1, sess_waiting = None\<rparr> k =
      Some (Some (Ok ()), \<lparr>sess_client = cl', sess_waiting = None\<rparr>, k\<lparr>OUTGOING := q\<rparr>)"
      "sent (transport cl') = sent (transport c1) @ publish_bytes pub"
    using queue_sends_state_message(1) [OF c1(3) tx1 assms(10,11)] unfolding pub_def by blast
  have dec: "Publish_decode (publish_bytes pub) = Ok pub"
    using queue_sends_state_message(2) [OF c1(3) tx1 assms(10,11)] unfolding pub_def .
  obtain x y ys where b: "publish_bytes pub = x # y # ys"
    by (cases "vbi (length (publish_content pub))") (auto simp: publish_bytes_def frame_def)
  have "complete_packet_len ([0x40, 2] @ x # y # ys) = Ok (Some 4)"
    by (simp add: complete_packet_len_def packet_len_loop.simps get_def Let_def)
  moreover have "PubAck_decode (take 4 ([0x40, 2] @ x # y # ys)) = Ok \<lparr>ack_packet_id = the (from_be_bytes [x, y])\<rparr>"
    by (simp add: PubAck_decode_def read_packet_id_def get_range_def from_be_bytes_def or_panic_def)
  moreover have "sent (transport cl') = sent (transport cl) @ [0x40, 2] @ publish_bytes pub"
    using cl'(2) c1(2) by (simp add: puback_def)
  moreover have "session_iteration tu e \<lparr>sess_client = cl, sess_waiting = None\<rparr> k
      = (Some (Ok ()), \<lparr>sess_client = cl', sess_waiting = None\<rparr>, k\<lparr>OUTGOING := q\<rparr>)"
    using c1(1) cl'(1) by (simp add: session_iteration_def)
  ultimately show ?thesis using dec c1(5) b by (intro exI [of _ cl'] exI [of _ "publish_bytes pub"]) (simp add: pub_def)
qed

theorem dropped_acknowledgement_corrupts_stream_witness:
  "\<exists>cl' packet. session_iteration mhz_clock quiet_pause
      \<lparr>sess_client = (demo_client [Chunk (publish_bytes open_publish)])\<lparr>transport := \<lparr>incoming = [Chunk (publish_bytes open_publish)],
         send_script = [SendDropped 2], sent = [], clock = 0\<rparr>\<rparr>, sess_waiting = None\<rparr>
      (link_new\<lparr>OUTGOING := [state_message (COVER_STATE_TOPIC, CLOSED_STATE)]\<rparr>)
      = (Some (Ok ()), \<lparr>sess_client = cl', sess_waiting = None\<rparr>, link_new) \<and>
    sent (transport cl') = [0x40, 2] @ packet \<and> complete_packet_len (sent (transport cl')) = Ok (Some 4)"
proof -
  let ?c = "(demo_client [Chunk (publish_bytes open_publish)])\<lparr>transport := \<lparr>incoming = [Chunk (publish_bytes open_publish)],
         send_script = [SendDropped 2], sent = [], clock = 0\<rparr>\<rparr>"
  have ne: "publish_bytes open_publish \<noteq> []" by (simp add: publish_bytes_def frame_def)
  have "deliverable ?c open_publish"
    using open_publish_deliverable [of "[]"] by (simp add: deliverable_def demo_client_def MqttClient_new_def)
  moreover have "inbox ?c = publish_bytes open_publish @ []"
    using ne by (simp add: inbox_def buffered_def demo_client_def MqttClient_new_def)
  moreover have "client_ok ?c" "conn_state ?c = Connected" "length (tx_buffer ?c) = 512" "\<not> ping_due ?c"
    by (simp_all add: client_ok_def demo_client_def MqttClient_new_def MqttOptions_new_def ping_due_def mhz_clock_def)
  moreover have "(COVER_STATE_TOPIC, CLOSED_STATE) \<in> set (state_messages Controls_new)"
    by (simp add: state_messages_def cover_payload_def cover_state_def Controls_new_def dir_codes pos_codes)
  ultimately show ?thesis
    using dropped_acknowledgement_corrupts_stream [of ?c open_publish "[]" 7
        "link_new\<lparr>OUTGOING := [state_message (COVER_STATE_TOPIC, CLOSED_STATE)]\<rparr>" COVER_STATE_TOPIC CLOSED_STATE "[]"
        Controls_new mhz_clock quiet_pause]
    by (simp add: link_new_def open_publish_def) (auto simp: open_publish_def)
qed

text \<open>
  The end of the TCP stream is never mistaken for a quiet connection: over
  the socket adapter \<open>next_packet\<close> waits, finds a packet or reports an error, but
  never answers that there was no data, so the connection loop cannot spin.
\<close>

theorem tcp_eof_is_reported:
  assumes "incoming (transport c) = map (tcp_recv reset) reads" "next_packet c = (r, c')"
  shows "r \<noteq> Some (Ok None)"
proof (rule next_packet_data [OF _ assms(2)])
  have "tcp_recv reset x \<noteq> Chunk []" for x by (cases x) auto
  then show "no_empty_read (incoming (transport c))"
    by (auto simp: no_empty_read_def assms(1)) metis
qed

theorem tcp_eof_is_reported_witness:
  "fst (next_packet ((demo_client [])\<lparr>transport := \<lparr>incoming = map (tcp_recv ()) [SocketData [0x20], SocketData []],
      send_script = [], sent = [], clock = 0\<rparr>\<rparr>)) \<noteq> Some (Ok None)"
  by (rule tcp_eof_is_reported [where reset = "()" and reads = "[SocketData [0x20], SocketData []]",
        OF _ prod.collapse [symmetric]]) simp

end
