(* ===== verification/Boot.thy ===== *)
theory Boot
  imports GateProps FlashStore MqttLink
begin

text \<open>
  How the device starts (\<open>main\<close> in \<open>src/bin/main.rs\<close>): the reset button
  (\<open>src/infra/reset_button.rs\<close>), the two records loaded from flash, the gate
  that is built from the stored state, the choice between station and setup
  mode, and the end of the setup mode. The Wi-Fi driver, the network stack, the
  HTTP server and the reset of the chip are library code: whether the driver
  initialises is an argument, and the reset starts the next boot.
\<close>

section \<open>The reset button\<close>

definition HOLD_MS :: nat where "HOLD_MS = 5000"
definition POLL_INTERVAL_MS :: nat where "POLL_INTERVAL_MS = 50"

text \<open>
  The samples of the button: the time since the start of the check and whether
  the pin is low. The loop answers \<open>None\<close> as long as it still waits.
\<close>

fun check_and_maybe_erase ::
  "time_ops \<Rightarrow> ('d, 'p, 'x) flash_ops \<Rightarrow> (ticks \<times> bool) list \<Rightarrow> 'd \<Rightarrow> 'd option" where
  "check_and_maybe_erase tu fo [] d = None"
| "check_and_maybe_erase tu fo ((elapsed, is_low) # samples) d =
     (if \<not> is_low then Some d
      else if from_millis tu HOLD_MS \<le> elapsed then Some (snd (erase fo d))
      else check_and_maybe_erase tu fo samples d)"

text \<open>The samples of a poll loop whose timer fires on time, for a button level per sample.\<close>

definition button_samples :: "time_ops \<Rightarrow> bool list \<Rightarrow> (ticks \<times> bool) list" where
  "button_samples tu lows = zip (map (\<lambda>i. i * from_millis tu POLL_INTERVAL_MS) [0..<length lows]) lows"

section \<open>The stored gate state\<close>

definition to_gate_state :: "snapshot \<Rightarrow> GateState" where
  "to_gate_state s = \<lparr>state_leaf_a = leaf_a_position s, state_leaf_b = leaf_b_position s,
     state_wind_locked = snap_wind_locked s\<rparr>"

definition boot_gate_state :: "('d, 'p, 'x) flash_ops \<Rightarrow> 'd \<Rightarrow> GateState" where
  "boot_gate_state fo d = (case load_gate_state fo d of Some st \<Rightarrow> st | None \<Rightarrow> GateState_default)"

definition boot_gate :: "time_ops \<Rightarrow> GateState \<Rightarrow> gate" where
  "boot_gate tu st = gate_of_settings tu Controls_new (settings_a tu (state_leaf_a st))
     (settings_b tu (state_leaf_b st)) (state_wind_locked st)"

section \<open>The mode\<close>

datatype mode = LocalOnly | StationMode AppConfig | ProvisioningMode

text \<open>\<open>wifi_ok\<close>: the Wi-Fi controller initialised.\<close>

definition choose_mode :: "bool \<Rightarrow> AppConfig option \<Rightarrow> mode" where
  "choose_mode wifi_ok app_config =
     (if \<not> wifi_ok then LocalOnly
      else case app_config of
        Some cfg \<Rightarrow> if wifi_ssid cfg \<noteq> [] then StationMode cfg else ProvisioningMode
      | None \<Rightarrow> ProvisioningMode)"

record 'd booted =
  booted_flash :: 'd
  booted_gate :: gate
  booted_mode :: mode

definition main ::
  "time_ops \<Rightarrow> ('d, 'p, 'x) flash_ops \<Rightarrow> (ticks \<times> bool) list \<Rightarrow> bool \<Rightarrow> 'd \<Rightarrow> 'd booted option" where
  "main tu fo button wifi_ok d =
     (case check_and_maybe_erase tu fo button d of
        None \<Rightarrow> None
      | Some d \<Rightarrow>
          let app_config = load fo d;
              gate_state = boot_gate_state fo d
          in Some \<lparr>booted_flash = d, booted_gate = boot_gate tu gate_state,
                   booted_mode = choose_mode wifi_ok app_config\<rparr>)"

text \<open>
  The setup mode from the submitted configuration to the reset of the chip: the
  configuration is saved, and whether that worked or not, the device reboots.
\<close>

definition run_provisioning_mode :: "('d, 'p, 'x) flash_ops \<Rightarrow> AppConfig signal \<Rightarrow> 'd \<Rightarrow> 'd option" where
  "run_provisioning_mode fo submitted d =
     (case signal_take submitted of
        None \<Rightarrow> None
      | Some (cfg, _) \<Rightarrow> Some (snd (save fo cfg d)))"

text \<open>The station settings: an empty password means an open network.\<close>

record station_config =
  sta_ssid :: str
  sta_password :: str
  sta_open :: bool

definition station_configure :: "AppConfig \<Rightarrow> station_config" where
  "station_configure cfg = \<lparr>sta_ssid = wifi_ssid cfg, sta_password = wifi_password cfg,
     sta_open = (wifi_password cfg = [])\<rparr>"

section \<open>Lemmas\<close>

lemma check_eq:
  "check_and_maybe_erase tu fo samples d =
     (case dropWhile (\<lambda>(t, low). low \<and> t < from_millis tu HOLD_MS) samples of
        [] \<Rightarrow> None
      | (t, low) # _ \<Rightarrow> Some (if low then snd (erase fo d) else d))"
  by (induction tu fo samples d rule: check_and_maybe_erase.induct) auto

lemma boot_gate_firmware:
  "boot_gate tu st = firmware_gate tu (state_leaf_a st) (state_leaf_b st) (state_wind_locked st)"
  by (simp add: boot_gate_def firmware_gate_def)

lemma boot_gate_snapshot: "to_gate_state (take_snapshot (boot_gate tu st)) = st"
  by (simp add: boot_gate_def gate_of_settings_def motor_of_settings_def motor_new_def settings_a_def settings_b_def
      Gate_new_def Let_def to_gate_state_def take_snapshot_def)

lemma main_released:
  "main tu fo [(0, False)] wifi_ok d =
     Some \<lparr>booted_flash = d, booted_gate = boot_gate tu (boot_gate_state fo d),
       booted_mode = choose_mode wifi_ok (load fo d)\<rparr>"
  by (simp add: main_def Let_def)

section \<open>Properties\<close>

text \<open>
  C31. The stored configuration is erased at boot iff the button is held down
  without interruption for five seconds: with a sample every 50 ms, the first
  101 samples decide, a single released one keeps the configuration, and the
  stored gate state survives in both cases.
\<close>

theorem reset_needs_five_seconds:
  assumes "flash_store fo" "erase fo d = (Ok (), d')" "101 \<le> length lows"
  shows "\<exists>d1. check_and_maybe_erase mhz_clock fo (button_samples mhz_clock lows) d = Some d1 \<and>
    (if \<forall>i < 101. lows ! i then d1 = d' \<and> load fo d1 = None else d1 = d) \<and>
    load_gate_state fo d1 = load_gate_state fo d"
proof -
  define P :: "nat \<times> bool \<Rightarrow> bool" where "P = (\<lambda>(t, low). low \<and> t < from_millis mhz_clock HOLD_MS)"
  define xs where "xs = button_samples mhz_clock lows"
  have len: "length xs = length lows" by (simp add: xs_def button_samples_def)
  have nth: "xs ! i = (i * 50000, lows ! i)" if "i < length lows" for i
    using that by (simp add: xs_def button_samples_def mhz_clock_def POLL_INTERVAL_MS_def)
  have hold: "from_millis mhz_clock HOLD_MS = 5000000" by (simp add: mhz_clock_def HOLD_MS_def)
  have P: "P (xs ! i) \<longleftrightarrow> lows ! i \<and> i < 100" if "i < length lows" for i
    using nth [OF that] hold by (auto simp: P_def)
  have e: "\<not> P (xs ! 100)" using P [of 100] assms(3) by simp
  define n where "n = (LEAST i. \<not> P (xs ! i))"
  have n1: "\<not> P (xs ! n)" unfolding n_def by (rule LeastI [of "\<lambda>i. \<not> P (xs ! i)", OF e])
  have n2: "n \<le> 100" unfolding n_def by (rule Least_le [of "\<lambda>i. \<not> P (xs ! i)", OF e])
  have n3: "\<forall>i < n. P (xs ! i)" unfolding n_def using not_less_Least by blast
  note n = n1 n2 n3
  have nl: "n < length xs" using n(2) len assms(3) by simp
  have "takeWhile P xs = take n xs" using n nl by (intro takeWhile_eq_take_P_nth) auto
  then have dw: "dropWhile P xs = xs ! n # drop (Suc n) xs"
    using nl by (metis Cons_nth_drop_Suc append_take_drop_id same_append_eq takeWhile_dropWhile_id)
  have c: "check_and_maybe_erase mhz_clock fo xs d = Some (if lows ! n then d' else d)"
    unfolding check_eq P_def [symmetric] dw using nth [of n] nl len assms(2) by simp
  have "lows ! n \<longleftrightarrow> (\<forall>i < 101. lows ! i)"
  proof
    assume l: "lows ! n"
    then have "n = 100" using n(1,2) P [of n] nl len by auto
    then have "lows ! i" if "i < 101" for i
      using that n(3) P [of i] l assms(3) by (cases "i = 100") auto
    then show "\<forall>i < 101. lows ! i" by blast
  qed (use n(2) in simp)
  with c flash_store.erased_config [OF assms(1,2)] show ?thesis by (auto simp: xs_def)
qed

theorem reset_needs_five_seconds_witness:
  "load ram_ops (the (check_and_maybe_erase mhz_clock ram_ops
     (button_samples mhz_clock (replicate 101 True)) blank_ram)) = None"
proof -
  have e: "erase ram_ops blank_ram = (Ok (), blank_ram\<lparr>items := (items blank_ram)(CONFIG_KEY := None)\<rparr>)"
    by (simp add: erase_def on_store_def open_store_def erase_config_def ram_ops_def blank_ram_def of_sum_def)
  show ?thesis
    using reset_needs_five_seconds [OF ram_store.flash_store_axioms e, of "replicate 101 True"] by auto
qed

text \<open>
  C32. Setting up the device: the configuration of an accepted form, once saved,
  is the one with which the next boot enters station mode, and the stored gate
  state is untouched by the setup.
\<close>

theorem provisioning_leads_to_station:
  assumes "flash_store fo" "submit form slot = (SAVED_PAGE, Some cfg)" "form_valid form"
    and "save fo cfg d = (Ok (), d')"
  shows "run_provisioning_mode fo (Some cfg) d = Some d' \<and> form_of cfg = form \<and>
    (\<exists>b. main tu fo [(0, False)] True d' = Some b \<and> booted_mode b = StationMode cfg \<and>
       booted_gate b = boot_gate tu (boot_gate_state fo d))"
proof -
  obtain c where c: "into_config form = Ok c" using into_config_valid [OF assms(3)] by blast
  then have cfg: "c = cfg" using assms(2) by (simp add: submit_def)
  have ok: "form_of cfg = form" "wifi_ssid cfg \<noteq> []"
    using c into_config_Ok [of form cfg] by (simp_all add: cfg config_ok_def)
  note f = flash_store.saved_config [OF assms(1,4)]
  have "boot_gate_state fo d' = boot_gate_state fo d" using f(2) by (simp add: boot_gate_state_def)
  with ok f(1) assms(4) show ?thesis
    by (simp add: run_provisioning_mode_def signal_take_def main_released choose_mode_def)
qed

definition demo_form :: SubmittedForm where
  "demo_form = \<lparr>form_ssid = lit ''home'', form_wifi_password = lit ''secret'', form_mqtt_host = lit ''broker'',
     form_mqtt_port = 1883, form_mqtt_username = [], form_mqtt_password = []\<rparr>"

definition demo_form_config :: AppConfig where
  "demo_form_config = \<lparr>wifi_ssid = lit ''home'', wifi_password = lit ''secret'', mqtt_host = lit ''broker'',
     mqtt_port = 1883, mqtt_username = None, mqtt_password = None\<rparr>"

lemma demo_form_facts:
  "form_valid demo_form" "submit demo_form None = (SAVED_PAGE, Some demo_form_config)"
  by (simp_all add: form_valid_def submit_def into_config_def demo_form_def demo_form_config_def then_some_def
      limit_defs lit_def)

lemma demo_save:
  "save ram_ops demo_form_config blank_ram =
     (Ok (), blank_ram\<lparr>items := [CONFIG_KEY \<mapsto> ram_config_to_bytes demo_form_config]\<rparr>)"
proof -
  have "length (ram_config_to_bytes demo_form_config) \<le> 500"
    by (simp add: ram_config_to_bytes_def put_str_def put_opt_def demo_form_config_def to_be_bytes_def lit_def)
  then show ?thesis
    by (simp add: save_def on_store_def open_store_def save_config_def ram_ops_def blank_ram_def of_sum_def)
qed

theorem provisioning_leads_to_station_witness:
  "\<exists>d' b. run_provisioning_mode ram_ops (snd (submit demo_form None)) blank_ram = Some d' \<and>
     main mhz_clock ram_ops [(0, False)] True d' = Some b \<and> booted_mode b = StationMode demo_form_config"
  using provisioning_leads_to_station [OF ram_store.flash_store_axioms demo_form_facts(2,1) demo_save, of mhz_clock]
    demo_form_facts(2) by auto

end
