(* ===== verification/GateFrame.thy ===== *)
theory GateFrame
  imports GateSafety
begin

text \<open>
  What the gate task leaves alone. A relation between gate states that every
  elementary update of the controller keeps holds between the two ends of a
  whole reaction. The locale \<open>gate_frame\<close> states that once; the progress
  proofs, the warning light and the persistence proofs interpret it with the
  part of the state they care about.
\<close>

locale gate_frame =
  fixes tu :: time_ops
    and R :: "gate \<Rightarrow> gate \<Rightarrow> bool"
  assumes R_refl: "R g g"
    and R_trans: "R g g' \<Longrightarrow> R g' g'' \<Longrightarrow> R g g''"
    and R_pending: "R g (g\<lparr>pending := p\<rparr>)"
    and R_task: "R g (g\<lparr>task := k\<rparr>)"
    and R_notify: "R g (notify g)"
    and R_clear: "R g (clear_command g)" "R g (clear_barrier g)" "R g (clear_reset g)"
    and R_settle: "R g (gate_settle g)"
    and R_entry: "R g (drive_entry d g)"
    and R_bypass: "R g (g\<lparr>controls := (controls g)\<lparr>barrier_bypass := False\<rparr>\<rparr>)"
    and R_stop: "wired g \<Longrightarrow> R g (stop_leaves tu g)"
    and R_pass: "wired g \<Longrightarrow> locals_ok tu g l \<Longrightarrow>
      leaf_pass tu (direction_of l) (dev g, leaf_a g, a_phase l, moved l) = (h1, ma, pa, v1) \<Longrightarrow>
      leaf_pass tu (direction_of l) (h1, leaf_b g, b_phase l, v1) = (h2, mb, pb, v2) \<Longrightarrow>
      R g (g\<lparr>dev := h2, leaf_a := ma, leaf_b := mb\<rparr>)"
begin

lemmas R_basic = R_refl R_pending R_task R_notify R_clear R_settle R_entry R_bypass

lemma R_step_done: "R g (step_done r g)"
  unfolding step_done_def by (rule R_trans [OF R_pending R_settle])

lemma R_drive_end:
  assumes "wired g"
  shows "R g (drive_end tu l r g)"
proof -
  have "R g (step_done r (stop_leaves tu g))" by (rule R_trans [OF R_stop [OF assms] R_step_done])
  moreover have "R g (step_done r ((stop_leaves tu g)\<lparr>controls := (controls (stop_leaves tu g))\<lparr>barrier_bypass := False\<rparr>\<rparr>))"
    by (rule R_trans [OF R_trans [OF R_stop [OF assms] R_bypass] R_step_done])
  ultimately show ?thesis by (simp add: drive_end_def Let_def)
qed

lemma R_drive_pass:
  assumes "wired g" "locals_ok tu g l"
  shows "R g (drive_pass tu l g)"
proof (cases "blocked (controls g) (direction_of l)")
  case None
  obtain h1 ma pa v1 where a: "leaf_pass tu (direction_of l) (dev g, leaf_a g, a_phase l, moved l) = (h1, ma, pa, v1)"
    by (metis prod_cases4)
  obtain h2 mb pb v2 where b: "leaf_pass tu (direction_of l) (h1, leaf_b g, b_phase l, v1) = (h2, mb, pb, v2)"
    by (metis prod_cases4)
  note p = R_pass [OF assms a b]
  let ?g = "g\<lparr>dev := h2, leaf_a := ma, leaf_b := mb\<rparr>"
  from assms have "wired ?g"
  proof (cases rule: drive_pass_cases)
    case (finished l' g' k1 w1)
    then show ?thesis using a b by (auto intro: wired_cong [OF finished(3)])
  next
    case (continues l' g' at k1 w1)
    then show ?thesis using a b by (auto intro: wired_cong [OF continues(3)])
  qed (simp add: None)
  with p R_drive_end [of ?g] R_task [of ?g] None a b show ?thesis
    by (auto simp: drive_pass_def Let_def split: option.split intro: R_trans)
qed (simp add: drive_pass_def R_drive_end [OF assms(1)])

lemma R_execute:
  assumes "wired g" "state (leaf_a g) = Idle" "state (leaf_b g) = Idle"
  shows "R g (execute_command tu cmd g)"
proof -
  have "R g (drive_begin tu d g)" for d
  proof (cases "blocked (controls g) d")
    case None
    show ?thesis
      unfolding drive_begin_unblocked [OF None]
      by (rule R_trans [OF R_entry R_drive_pass [OF drive_entry_ok [OF assms]]])
  qed (simp add: drive_begin_def R_step_done)
  then show ?thesis
    using R_trans [OF R_stop [OF assms(1)] R_step_done]
    by (simp add: execute_command_def split: gate_command.split)
qed

lemma R_react:
  assumes "gate_ok tu g" "gate_react tu w g = Some g'"
  shows "R g g'"
proof -
  have wd: "wired g" using assms(1) by (simp add: gate_ok_def)
  have loc: "locals_ok tu g l" if "task g = Driving l at" for l at
    using gate_ok_driving [OF assms(1) that] .
  have rest: "state (leaf_a g) = Idle \<and> state (leaf_b g) = Idle" if "\<nexists>l at. task g = Driving l at"
    using gate_ok_rest [OF assms(1) that] by simp
  from assms(2) show ?thesis
  proof (cases rule: gate_react_cases)
    case (call snap cmd)
    with wd rest show ?thesis by - (rule R_trans [OF R_pending [of g None]], simp add: R_execute)
  next
    case (command_idle cmd)
    with wd rest show ?thesis by - (rule R_trans [OF R_clear(1) [of g]], simp add: R_execute)
  next
    case reset_idle
    then show ?thesis using R_trans [OF R_clear(3) R_settle] by simp
  next
    case (timer l at)
    with wd loc show ?thesis by (simp add: R_drive_pass)
  next
    case (command l at cmd)
    with wd loc [OF command(2)] show ?thesis
      by - (rule R_trans [OF R_clear(1) [of g]], simp add: drive_command_def R_drive_pass R_drive_end)
  next
    case (barrier l at)
    with wd loc show ?thesis by - (rule R_trans [OF R_clear(2) [of g]], simp add: R_drive_pass)
  next
    case (reset l at)
    with wd loc show ?thesis
      by - (rule R_trans [OF R_trans [OF R_clear(3) R_notify]], simp add: R_drive_pass)
  qed (simp_all add: R_basic)
qed

end

section \<open>What a pass does to the two leaves\<close>

lemma pass_facts:
  assumes "wired g" "locals_ok tu g l"
    and "leaf_pass tu (direction_of l) (dev g, leaf_a g, a_phase l, moved l) = (h1, ma, pa, v1)"
    and "leaf_pass tu (direction_of l) (h1, leaf_b g, b_phase l, v1) = (h2, mb, pb, v2)"
  shows "same_leaf (leaf_a g) ma" "same_leaf (leaf_b g) mb" "now h2 = now (dev g)"
    "foreign_write (pins (leaf_a g)) (dev g) h1" "foreign_write (pins (leaf_b g)) h1 h2"
proof -
  have w: "hw_ok (dev g)" "motor_ok (dev g) (leaf_a g)" "motor_ok (dev g) (leaf_b g)"
      "pins (leaf_a g) \<inter> pins (leaf_b g) = {}"
    using assms(1) by (simp_all add: wired_def)
  have ph: "leaf_phase_ok tu (direction_of l) (leaf_a g) (a_phase l)" "runs (a_phase l) \<longrightarrow> moved l"
      "leaf_phase_ok tu (direction_of l) (leaf_b g) (b_phase l)" "runs (b_phase l) \<longrightarrow> moved l"
    using assms(2) by (simp_all add: locals_ok_def)
  note fa = leaf_pass_facts [OF assms(3) w(1,2) ph(1,2)]
  have okb: "motor_ok h1 (leaf_b g)"
    using w(4) by (intro foreign_write_motor_ok [OF fa(4) w(1,3)]) auto
  have v: "runs (b_phase l) \<longrightarrow> v1" using ph(4) fa(6) by blast
  note fb = leaf_pass_facts [OF assms(4) fa(1) okb ph(3) v]
  show "same_leaf (leaf_a g) ma" "same_leaf (leaf_b g) mb" "now h2 = now (dev g)"
    "foreign_write (pins (leaf_a g)) (dev g) h1" "foreign_write (pins (leaf_b g)) h1 h2"
    using fa fb foreign_write_now by auto
qed

text \<open>Only the four relay pins are written.\<close>

lemma foreign_write_mono: "foreign_write ps h h' \<Longrightarrow> ps \<subseteq> qs \<Longrightarrow> foreign_write qs h h'"
  unfolding foreign_write_def by blast

definition own_pins :: "gate \<Rightarrow> gate \<Rightarrow> bool" where
  "own_pins g g' \<longleftrightarrow> gate_pins g' = gate_pins g \<and> foreign_write (gate_pins g) (dev g) (dev g')"

lemma stop_leaves_foreign: "foreign_write (gate_pins g) (dev g) (dev (stop_leaves tu g))"
proof -
  obtain h1 ma where a: "motor_settle tu (dev g) (leaf_a g) = (h1, ma)" by fastforce
  obtain h2 mb where b: "motor_settle tu h1 (leaf_b g) = (h2, mb)" by fastforce
  have "foreign_write (gate_pins g) (dev g) h1" "foreign_write (gate_pins g) h1 h2"
    using motor_settle_foreign [OF a] motor_settle_foreign [OF b]
    by (auto simp: gate_pins_def elim: foreign_write_mono)
  then show ?thesis
    using a b by (auto simp: stop_leaves_def motor_stop_def intro: foreign_write_trans)
qed

lemma gate_pins_cong:
  "same_leaf (leaf_a g) (leaf_a g') \<Longrightarrow> same_leaf (leaf_b g) (leaf_b g') \<Longrightarrow> gate_pins g' = gate_pins g"
  by (simp add: gate_pins_def same_leaf_pins)

interpretation pin_frame: gate_frame tu own_pins for tu
proof (unfold_locales, goal_cases)
  case (12 g)
  then show ?case
    by (simp add: own_pins_def stop_leaves_foreign gate_pins_cong stop_leaves_wired)
next
  case (13 g l h1 ma pa v1 h2 mb pb v2)
  note f = pass_facts [OF 13]
  have "foreign_write (gate_pins g) (dev g) h1" "foreign_write (gate_pins g) h1 h2"
    using f(4,5) by (auto simp: gate_pins_def elim: foreign_write_mono)
  then show ?case using f(1,2) by (auto simp: own_pins_def gate_pins_cong intro: foreign_write_trans)
qed (auto simp: own_pins_def gate_pins_def intro: foreign_write_trans)

end
