(* ===== verification/WarningLight.thy ===== *)
theory WarningLight
  imports GateProps GateFrame
begin

text \<open>
  The warning light (\<open>gate-core/src/warning_light.rs\<close>) beside the gate task. Both
  tasks share \<open>Controls\<close>, the clock and the pins; \<open>site_step\<close> interleaves them in
  any order. The light's task is a state machine over its two awaits, the timer
  of a half period and the signal \<open>light_changed\<close>.

  The lemmas show that a dark light is never left sleeping while it should
  blink, that it is dark whenever it sleeps, that it alternates, and that the
  light never disturbs the gate.
\<close>

datatype lamp_task = LampStart | LampBlink ticks | LampDark

record lamp =
  lit :: bool
  lamp_pin :: pin_name
  lamp_task :: lamp_task

definition lamp_new :: "pin_name \<Rightarrow> lamp" where
  "lamp_new p = \<lparr>lit = False, lamp_pin = p, lamp_task = LampStart\<rparr>"

text \<open>The loop body, from its head to the await it ends in.\<close>

definition warning_light_pass :: "time_ops \<Rightarrow> ticks \<Rightarrow> controls \<Rightarrow> hw \<Rightarrow> lamp \<Rightarrow> hw \<times> lamp" where
  "warning_light_pass tu half_period c h p =
     (if warning_light_active c
      then (let p = p\<lparr>lit := \<not> lit p\<rparr>;
                h = pin_set tu (lamp_pin p) (lit p) h
            in (h, p\<lparr>lamp_task := LampBlink (now h + half_period)\<rparr>))
      else (let p = p\<lparr>lit := False\<rparr>;
                h = set_low tu (lamp_pin p) h
            in (h, p\<lparr>lamp_task := LampDark\<rparr>)))"

text \<open>A gate and a light on the same controls, clock and pins.\<close>

record site =
  the_gate :: gate
  the_lamp :: lamp

definition lamp_run :: "time_ops \<Rightarrow> ticks \<Rightarrow> site \<Rightarrow> site" where
  "lamp_run tu half s =
     (case warning_light_pass tu half (controls (the_gate s)) (dev (the_gate s)) (the_lamp s) of
        (h, p) \<Rightarrow> s\<lparr>the_gate := (the_gate s)\<lparr>dev := h\<rparr>, the_lamp := p\<rparr>)"

text \<open>What the light's task does when it is polled; \<open>None\<close> while it waits.\<close>

definition warning_light :: "time_ops \<Rightarrow> ticks \<Rightarrow> site \<Rightarrow> site option" where
  "warning_light tu half s =
     (case lamp_task (the_lamp s) of
        LampStart \<Rightarrow> Some (lamp_run tu half s)
      | LampBlink t \<Rightarrow> if t \<le> now (dev (the_gate s)) then Some (lamp_run tu half s) else None
      | LampDark \<Rightarrow>
          (case signal_take (light_changed (controls (the_gate s))) of
             Some (_, slot) \<Rightarrow>
               Some (lamp_run tu half (s\<lparr>the_gate := (the_gate s)\<lparr>controls :=
                 (controls (the_gate s))\<lparr>light_changed := slot\<rparr>\<rparr>\<rparr>))
           | None \<Rightarrow> None))"

inductive site_step :: "time_ops \<Rightarrow> ticks \<Rightarrow> site \<Rightarrow> site \<Rightarrow> bool" for tu :: time_ops and half :: ticks where
  gate_task: "gate_react tu w (the_gate s) = Some g' \<Longrightarrow> site_step tu half s (s\<lparr>the_gate := g'\<rparr>)"
| input_task: "site_step tu half s (s\<lparr>the_gate := (the_gate s)\<lparr>controls := control_exec x (controls (the_gate s))\<rparr>\<rparr>)"
| time: "site_step tu half s (s\<lparr>the_gate := (the_gate s)\<lparr>dev := clock_advance t (dev (the_gate s))\<rparr>\<rparr>)"
| light_task: "warning_light tu half s = Some s' \<Longrightarrow> site_step tu half s s'"

definition site_boot :: "time_ops \<Rightarrow> site \<Rightarrow> bool" where
  "site_boot tu s \<longleftrightarrow> boot tu (the_gate s) \<and>
     (\<exists>p. the_lamp s = lamp_new p \<and> p \<notin> gate_pins (the_gate s))"

section \<open>No wake-up is lost\<close>

interpretation light_inputs: wake_discipline control_exec "\<lambda>c _. warning_light_active c" "\<lambda>c. light_changed c \<noteq> None"
proof (unfold_locales, goal_cases)
  case (1 c d x)
  then show ?case by (cases x) (auto simp: warning_light_active_def control_defs Let_def split: if_splits)
next
  case (2 c x)
  then show ?case by (cases x) (auto simp: control_defs Let_def)
qed

text \<open>The gate task, too, raises the signal whenever it gives the light a reason to blink.\<close>

definition light_kept :: "gate \<Rightarrow> gate \<Rightarrow> bool" where
  "light_kept g g' \<longleftrightarrow>
     (light_changed (controls g) \<noteq> None \<longrightarrow> light_changed (controls g') \<noteq> None) \<and>
     (warning_light_active (controls g') \<longrightarrow> warning_light_active (controls g) \<or> light_changed (controls g') \<noteq> None)"

lemma light_changed_set_direction [simp]: "light_changed (set_direction d c) = Some ()"
  by (simp add: set_direction_def Let_def)

interpretation light_frame: gate_frame tu light_kept for tu
  by unfold_locales (auto simp: light_kept_def warning_light_active_def)

text \<open>A step of the gate task, of another task on the controls, or of the clock.\<close>

definition beside :: "time_ops \<Rightarrow> gate \<Rightarrow> gate \<Rightarrow> bool" where
  "beside tu g g' \<longleftrightarrow> (\<exists>w. gate_react tu w g = Some g') \<or>
     (\<exists>x. g' = g\<lparr>controls := control_exec x (controls g)\<rparr>) \<or> (\<exists>t. g' = g\<lparr>dev := clock_advance t (dev g)\<rparr>)"

lemma beside_step: "beside tu g g' \<Longrightarrow> gate_step tu g g'"
  by (auto simp: beside_def intro: gate_step.intros)

lemma beside_light:
  assumes "beside tu g g'" "gate_ok tu g"
    and "warning_light_active (controls g) \<longrightarrow> light_changed (controls g) \<noteq> None"
  shows "warning_light_active (controls g') \<longrightarrow> light_changed (controls g') \<noteq> None"
proof -
  consider w where "gate_react tu w g = Some g'" | x where "g' = g\<lparr>controls := control_exec x (controls g)\<rparr>"
    | t where "g' = g\<lparr>dev := clock_advance t (dev g)\<rparr>"
    using assms(1) by (auto simp: beside_def)
  then show ?thesis
  proof cases
    case 1
    from light_frame.R_react [OF assms(2) 1] assms(3) show ?thesis by (auto simp: light_kept_def)
  next
    case (2 x)
    with light_inputs.never_missed_step [OF assms(3), of x] show ?thesis by simp
  qed (use assms(3) in simp)
qed

lemma beside_pins:
  assumes "beside tu g g'" "gate_ok tu g"
  shows "gate_pins g' = gate_pins g" "p \<notin> gate_pins g \<Longrightarrow> levels (dev g') p = levels (dev g) p"
    "now (dev g) \<le> now (dev g')"
proof -
  have r: "own_pins g g'" if "gate_react tu w g = Some g'" for w
    using pin_frame.R_react [OF assms(2) that] .
  have "gate_pins g' = gate_pins g \<and> (p \<notin> gate_pins g \<longrightarrow> levels (dev g') p = levels (dev g) p)
      \<and> now (dev g) \<le> now (dev g')"
    using assms(1) r by (auto simp: beside_def own_pins_def foreign_write_def) (auto simp: gate_pins_def)
  then show "gate_pins g' = gate_pins g" "p \<notin> gate_pins g \<Longrightarrow> levels (dev g') p = levels (dev g) p"
    "now (dev g) \<le> now (dev g')"
    by simp_all
qed

section \<open>The invariant of the site\<close>

definition lamp_ok :: "ticks \<Rightarrow> controls \<Rightarrow> hw \<Rightarrow> lamp \<Rightarrow> bool" where
  "lamp_ok half c h p =
     (case lamp_task p of
        LampStart \<Rightarrow> \<not> lit p
      | LampBlink t \<Rightarrow> levels h (lamp_pin p) = lit p \<and> t \<le> now h + half
      | LampDark \<Rightarrow> \<not> lit p \<and> \<not> levels h (lamp_pin p) \<and> (warning_light_active c \<longrightarrow> light_changed c \<noteq> None))"

definition site_ok :: "time_ops \<Rightarrow> ticks \<Rightarrow> site \<Rightarrow> bool" where
  "site_ok tu half s \<longleftrightarrow> gate_ok tu (the_gate s) \<and> lamp_pin (the_lamp s) \<notin> gate_pins (the_gate s)
     \<and> lamp_ok half (controls (the_gate s)) (dev (the_gate s)) (the_lamp s)"

lemma lamp_run_eq:
  "lamp_run tu half s =
     (let on = warning_light_active (controls (the_gate s)) \<and> \<not> lit (the_lamp s) in
      s\<lparr>the_gate := (the_gate s)\<lparr>dev := pin_set tu (lamp_pin (the_lamp s)) on (dev (the_gate s))\<rparr>,
        the_lamp := (the_lamp s)\<lparr>lit := on, lamp_task := (if warning_light_active (controls (the_gate s))
          then LampBlink (now (dev (the_gate s)) + half) else LampDark)\<rparr>\<rparr>)"
  by (simp add: lamp_run_def warning_light_pass_def Let_def)

lemma lamp_run_ok:
  assumes "gate_ok tu (the_gate s)" "lamp_pin (the_lamp s) \<notin> gate_pins (the_gate s)"
  shows "site_ok tu half (lamp_run tu half s)"
proof -
  define on where "on = (warning_light_active (controls (the_gate s)) \<and> \<not> lit (the_lamp s))"
  define g where "g = (the_gate s)\<lparr>dev := pin_set tu (lamp_pin (the_lamp s)) on (dev (the_gate s))\<rparr>"
  have "gate_ok tu g" unfolding g_def by (rule gate_ok_foreign [OF assms])
  moreover have "gate_pins g = gate_pins (the_gate s)" "controls g = controls (the_gate s)"
      "now (dev g) = now (dev (the_gate s))" "levels (dev g) (lamp_pin (the_lamp s)) = on"
    by (simp_all add: g_def gate_pins_def)
  moreover have "the_gate (lamp_run tu half s) = g"
    by (simp add: lamp_run_eq Let_def g_def on_def)
  moreover have "the_lamp (lamp_run tu half s) = (the_lamp s)\<lparr>lit := on,
      lamp_task := (if warning_light_active (controls (the_gate s))
        then LampBlink (now (dev (the_gate s)) + half) else LampDark)\<rparr>"
    by (simp add: lamp_run_eq Let_def on_def)
  ultimately show ?thesis using assms(2) by (auto simp: site_ok_def lamp_ok_def on_def)
qed

lemma beside_ok:
  assumes "beside tu (the_gate s) g'" "site_ok tu half s"
  shows "site_ok tu half (s\<lparr>the_gate := g'\<rparr>)"
proof -
  have ok: "gate_ok tu (the_gate s)" "lamp_pin (the_lamp s) \<notin> gate_pins (the_gate s)"
    using assms(2) by (simp_all add: site_ok_def)
  note f = beside_pins [OF assms(1) ok(1)]
  have "lamp_ok half (controls g') (dev g') (the_lamp s)"
    using assms(2) f(2) [OF ok(2)] f(3) beside_light [OF assms(1) ok(1)]
    by (auto simp: site_ok_def lamp_ok_def split: lamp_task.splits)
  with ok(2) f(1) gate_step_ok [OF beside_step [OF assms(1)] ok(1)] show ?thesis by (simp add: site_ok_def)
qed

lemma site_step_cases [consumes 1, case_names beside light]:
  assumes "site_step tu half s s'"
  obtains (beside) g' where "beside tu (the_gate s) g'" "s' = s\<lparr>the_gate := g'\<rparr>"
  | (light) "warning_light tu half s = Some s'"
  using assms by (cases rule: site_step.cases) (auto simp: beside_def)

lemma site_step_ok:
  assumes "site_step tu half s s'" "site_ok tu half s"
  shows "site_ok tu half s'"
  using assms(1)
proof (cases rule: site_step_cases)
  case (beside g')
  with beside_ok [OF _ assms(2)] show ?thesis by simp
next
  case light
  have ok: "gate_ok tu (the_gate s)" "lamp_pin (the_lamp s) \<notin> gate_pins (the_gate s)"
    using assms(2) by (simp_all add: site_ok_def)
  let ?t = "s\<lparr>the_gate := (the_gate s)\<lparr>controls := (controls (the_gate s))\<lparr>light_changed := None\<rparr>\<rparr>\<rparr>"
  have "site_ok tu half (lamp_run tu half ?t)"
    by (rule lamp_run_ok) (use ok gate_ok_light_taken in \<open>simp_all add: gate_pins_def\<close>)
  moreover have "s' = lamp_run tu half s \<or> s' = lamp_run tu half ?t"
    using light by (auto simp: warning_light_def split: lamp_task.splits if_splits option.splits)
  ultimately show ?thesis using lamp_run_ok [OF ok] by auto
qed

lemma site_boot_ok: "site_boot tu s \<Longrightarrow> site_ok tu half s"
  by (auto simp: site_boot_def site_ok_def lamp_new_def lamp_ok_def boot_ok)

interpretation site_safe: inductive_invariant "site_boot tu" "site_step tu half" "site_ok tu half" for tu half
  by unfold_locales (auto intro: site_boot_ok site_step_ok)

abbreviation site_reachable :: "time_ops \<Rightarrow> ticks \<Rightarrow> site \<Rightarrow> bool" where
  "site_reachable tu half \<equiv> reach (site_boot tu) (site_step tu half)"

lemma lamp_run_simps:
  "levels (dev (the_gate (lamp_run tu half s))) (lamp_pin (the_lamp s)) =
     (warning_light_active (controls (the_gate s)) \<and> \<not> lit (the_lamp s))"
  "lamp_task (the_lamp (lamp_run tu half s)) =
     (if warning_light_active (controls (the_gate s)) then LampBlink (now (dev (the_gate s)) + half) else LampDark)"
  by (simp_all add: lamp_run_def warning_light_pass_def Let_def)

text \<open>The light's own steps are among those the gate tolerates: the site refines \<open>gate_step\<close>.\<close>

lemma lamp_run_gate_step:
  assumes "lamp_pin (the_lamp s) \<notin> gate_pins (the_gate s)"
  shows "gate_step tu (the_gate s) (the_gate (lamp_run tu half s))"
  using gate_step.other_pin [of "lamp_pin (the_lamp s)" "the_gate s" tu] assms
  by (simp add: lamp_run_eq Let_def gate_pins_def)

lemma site_step_gate:
  assumes "site_step tu half s s'" "site_ok tu half s"
  shows "(gate_step tu)\<^sup>*\<^sup>* (the_gate s) (the_gate s')"
  using assms(1)
proof (cases rule: site_step_cases)
  case (beside g')
  with beside_step show ?thesis by auto
next
  case light
  have p: "lamp_pin (the_lamp s) \<notin> gate_pins (the_gate s)" using assms(2) by (simp add: site_ok_def)
  let ?t = "s\<lparr>the_gate := (the_gate s)\<lparr>controls := (controls (the_gate s))\<lparr>light_changed := None\<rparr>\<rparr>\<rparr>"
  have "gate_step tu (the_gate s) (the_gate ?t)" by (simp add: gate_step.light)
  moreover have "gate_step tu (the_gate ?t) (the_gate (lamp_run tu half ?t))"
    by (rule lamp_run_gate_step) (use p in \<open>simp add: gate_pins_def\<close>)
  moreover have "s' = lamp_run tu half s \<or> s' = lamp_run tu half ?t"
    using light by (auto simp: warning_light_def split: lamp_task.splits if_splits option.splits)
  ultimately show ?thesis using lamp_run_gate_step [OF p] by (auto intro: converse_rtranclp_into_rtranclp)
qed

lemma site_reachable_gate: "site_reachable tu half s \<Longrightarrow> reachable tu (the_gate s)"
proof (induction rule: reach.induct)
  case (reach_init s)
  then show ?case by (auto simp: site_boot_def intro: reach.reach_init)
next
  case (reach_step s t)
  then show ?case using reach_steps site_step_gate [OF _ site_safe.reach_inv [OF reach_step(1)]] by metis
qed

section \<open>Properties\<close>

text \<open>
  C14. The warning light never sleeps through a reason to blink: in every
  interleaving of the two tasks, a light that sleeps while the gate moves or the
  bypass is armed has its signal set, and when it is polled it switches on at
  once and blinks with the half period.
\<close>

theorem light_is_never_missed:
  assumes "site_reachable tu half s" "lamp_task (the_lamp s) = LampDark"
    and "warning_light_active (controls (the_gate s))"
  shows "\<exists>s'. warning_light tu half s = Some s' \<and> levels (dev (the_gate s')) (lamp_pin (the_lamp s))
    \<and> lamp_task (the_lamp s') = LampBlink (now (dev (the_gate s)) + half)"
proof -
  have ok: "lamp_ok half (controls (the_gate s)) (dev (the_gate s)) (the_lamp s)"
    using site_safe.reach_inv [OF assms(1)] by (simp add: site_ok_def)
  let ?t = "s\<lparr>the_gate := (the_gate s)\<lparr>controls := (controls (the_gate s))\<lparr>light_changed := None\<rparr>\<rparr>\<rparr>"
  have "light_changed (controls (the_gate s)) \<noteq> None" "\<not> lit (the_lamp s)"
    using ok assms(2,3) by (simp_all add: lamp_ok_def)
  then have "warning_light tu half s = Some (lamp_run tu half ?t)" "\<not> lit (the_lamp s)"
    using assms(2) by (auto simp: warning_light_def signal_take_def)
  moreover have "warning_light_active (controls (the_gate ?t))"
    using assms(3) by (simp add: warning_light_active_def)
  ultimately show ?thesis using lamp_run_simps [of tu half ?t] by simp
qed

text \<open>
  The light's level: dark while its task sleeps; while it blinks, its next
  switch is at most a half period away, and at that moment it changes its level
  if there still is a reason to blink and goes dark otherwise.
\<close>

theorem light_blinks_and_goes_dark:
  assumes "site_reachable tu half s"
  shows "(lamp_task (the_lamp s) = LampDark \<longrightarrow> \<not> levels (dev (the_gate s)) (lamp_pin (the_lamp s))) \<and>
    (\<forall>t. lamp_task (the_lamp s) = LampBlink t \<longrightarrow> t \<le> now (dev (the_gate s)) + half \<and>
       (t \<le> now (dev (the_gate s)) \<longrightarrow>
          (\<exists>s'. warning_light tu half s = Some s' \<and>
             levels (dev (the_gate s')) (lamp_pin (the_lamp s)) =
               (warning_light_active (controls (the_gate s)) \<and> \<not> levels (dev (the_gate s)) (lamp_pin (the_lamp s))))))"
  using site_safe.reach_inv [OF assms]
  by (auto simp: site_ok_def lamp_ok_def warning_light_def lamp_run_simps)

section \<open>A concrete site\<close>

lemma play_site:
  "play tu xs g = Some g' \<Longrightarrow>
   (site_step tu half)\<^sup>*\<^sup>* \<lparr>the_gate = g, the_lamp = p\<rparr> \<lparr>the_gate = g', the_lamp = p\<rparr>"
proof (induction xs arbitrary: g)
  case (Cons x xs)
  then obtain g1 where g1: "act tu x g = Some g1" "play tu xs g1 = Some g'" by (auto split: option.splits)
  have "site_step tu half \<lparr>the_gate = g, the_lamp = p\<rparr> \<lparr>the_gate = g1, the_lamp = p\<rparr>"
    using g1(1) site_step.gate_task [of tu _ "\<lparr>the_gate = g, the_lamp = p\<rparr>" g1 half]
      site_step.input_task [of tu half "\<lparr>the_gate = g, the_lamp = p\<rparr>"]
      site_step.time [of tu half "\<lparr>the_gate = g, the_lamp = p\<rparr>"]
    by (cases x) auto
  with Cons.IH [OF g1(2)] show ?case by (rule converse_rtranclp_into_rtranclp [rotated])
qed simp

text \<open>The configured gate has started to open while its light slept.\<close>

definition dark_lamp :: lamp where
  "dark_lamp = \<lparr>lit = False, lamp_pin = ''GPIO21'', lamp_task = LampDark\<rparr>"

definition site_opening :: site where
  "site_opening = \<lparr>the_gate = gate_opening, the_lamp = dark_lamp\<rparr>"

lemma firmware_rest_dark:
  "\<not> warning_light_active (controls (firmware_gate mhz_clock 0 0 False))"
  "set_low mhz_clock ''GPIO21'' (dev (firmware_gate mhz_clock 0 0 False)) = dev (firmware_gate mhz_clock 0 0 False)"
  "''GPIO21'' \<notin> gate_pins (firmware_gate mhz_clock 0 0 False)"
  by (simp_all cong: eval_cong add: warning_light_active_def gate_pins_def pins_def run_defs fun_upd_idem_iff)

lemma site_opening_reachable: "site_reachable mhz_clock half site_opening"
proof -
  let ?g = "firmware_gate mhz_clock 0 0 False"
  let ?s = "\<lparr>the_gate = ?g, the_lamp = lamp_new ''GPIO21''\<rparr>"
  have "site_boot mhz_clock ?s" by (auto simp: site_boot_def firmware_boot firmware_rest_dark)
  then have r: "site_reachable mhz_clock half ?s" by (rule reach_init)
  have "warning_light mhz_clock half ?s = Some \<lparr>the_gate = ?g, the_lamp = dark_lamp\<rparr>"
    by (simp add: warning_light_def lamp_run_def warning_light_pass_def firmware_rest_dark lamp_new_def dark_lamp_def)
  then have "site_step mhz_clock half ?s \<lparr>the_gate = ?g, the_lamp = dark_lamp\<rparr>" by (rule light_task)
  with r have "site_reachable mhz_clock half \<lparr>the_gate = ?g, the_lamp = dark_lamp\<rparr>"
    by (rule reach_step)
  then show ?thesis
    unfolding site_opening_def
    by (rule reach_steps) (rule play_site [OF opening_run_plays])
qed

lemma site_opening_facts:
  "lamp_task (the_lamp site_opening) = LampDark" "warning_light_active (controls (the_gate site_opening))"
  by (simp_all cong: eval_cong add: site_opening_def dark_lamp_def warning_light_active_def demo_defs)

theorem light_is_never_missed_witness:
  "\<exists>s'. warning_light mhz_clock (WARNING_LIGHT_HALF_PERIOD mhz_clock) site_opening = Some s'
     \<and> levels (dev (the_gate s')) ''GPIO21''"
  using light_is_never_missed [OF site_opening_reachable site_opening_facts]
  by (auto simp: site_opening_def dark_lamp_def)

theorem light_blinks_and_goes_dark_witness:
  "\<not> levels (dev (the_gate site_opening)) ''GPIO21''"
  using light_blinks_and_goes_dark [OF site_opening_reachable, of 1] site_opening_facts(1)
  by (simp add: site_opening_def dark_lamp_def)

end
