(* ===== verification/Debounce.thy ===== *)
theory Debounce
  imports Prelude "HOL-Library.Sublist"
begin

text \<open>
  The input debouncer of \<open>gate-core/src/debounce.rs\<close>: a two-state filter that
  turns periodic samples of a push button into one event per press. The
  lemmas show that the sample counter never overflows, that a reported press
  is preceded by the configured number of consecutive pressed samples, that
  two reports are separated by as many consecutive released samples, and that
  a clean press is reported exactly once however long it is held.
\<close>

record debouncer =
  stable_samples :: u8
  armed :: bool
  stable :: u8

definition Debouncer_new :: "u8 \<Rightarrow> debouncer" where
  "Debouncer_new n = \<lparr>stable_samples = n, armed = True, stable = 0\<rparr>"

definition sample :: "debouncer \<Rightarrow> bool \<Rightarrow> bool \<times> debouncer" where
  "sample d pressed =
     (if pressed \<noteq> armed d then (False, d\<lparr>stable := 0\<rparr>)
      else let st = stable d + 1 in
        if st < stable_samples d then (False, d\<lparr>stable := st\<rparr>)
        else (armed d, d\<lparr>stable := 0, armed := \<not> armed d\<rparr>))"

text \<open>A run of the debouncer over a sequence of samples: which samples report a press.\<close>

fun fires :: "debouncer \<Rightarrow> bool list \<Rightarrow> bool list" where
  "fires d [] = []"
| "fires d (p # ps) = fst (sample d p) # fires (snd (sample d p)) ps"

fun feed :: "debouncer \<Rightarrow> bool list \<Rightarrow> debouncer" where
  "feed d [] = d"
| "feed d (p # ps) = feed (snd (sample d p)) ps"

text \<open>How many consecutive samples the filter needs: a threshold of 0 acts as 1.\<close>

definition threshold :: "debouncer \<Rightarrow> nat" where
  "threshold d = max 1 (unat (stable_samples d))"

definition debouncer_ok :: "debouncer \<Rightarrow> bool" where
  "debouncer_ok d \<longleftrightarrow> unat (stable d) < threshold d"

section \<open>One sample\<close>

lemma threshold_le: "threshold d \<le> 255"
  by (simp add: threshold_def word_nat)

lemma stable_no_wrap:
  assumes "debouncer_ok d"
  shows "unat (stable d + 1) = Suc (unat (stable d))"
  using assms threshold_le [of d] by (simp add: debouncer_ok_def unat_word_ariths)

lemma threshold_reached:
  assumes "debouncer_ok d"
  shows "stable d + 1 < stable_samples d \<longleftrightarrow> Suc (unat (stable d)) < threshold d"
  using stable_no_wrap [OF assms] by (auto simp: word_less_nat_alt threshold_def)

lemma sample_cases:
  assumes "debouncer_ok d"
  obtains (reset) "p \<noteq> armed d" "sample d p = (False, d\<lparr>stable := 0\<rparr>)"
  | (count) "p = armed d" "Suc (unat (stable d)) < threshold d"
      "sample d p = (False, d\<lparr>stable := stable d + 1\<rparr>)"
  | (toggle) "p = armed d" "Suc (unat (stable d)) = threshold d"
      "sample d p = (armed d, d\<lparr>stable := 0, armed := \<not> armed d\<rparr>)"
  using assms threshold_reached [OF assms]
  by (auto simp: sample_def Let_def debouncer_ok_def) (metis Suc_lessI)

lemma threshold_simps [simp]:
  "threshold (d\<lparr>stable := s\<rparr>) = threshold d"
  "threshold (d\<lparr>armed := a\<rparr>) = threshold d"
  by (simp_all add: threshold_def)

lemma threshold_sample [simp]: "threshold (snd (sample d p)) = threshold d"
  by (simp add: sample_def Let_def threshold_def)

lemma threshold_feed [simp]: "threshold (feed d ps) = threshold d"
  by (induction ps arbitrary: d) simp_all

lemma new_ok: "debouncer_ok (Debouncer_new n)"
  by (simp add: debouncer_ok_def Debouncer_new_def threshold_def)

lemma sample_ok: "debouncer_ok d \<Longrightarrow> debouncer_ok (snd (sample d p))"
  by (rule sample_cases [of d p]) (auto simp: debouncer_ok_def stable_no_wrap threshold_def)

lemma feed_ok: "debouncer_ok d \<Longrightarrow> debouncer_ok (feed d ps)"
  by (induction ps arbitrary: d) (simp_all add: sample_ok)

section \<open>Runs\<close>

lemma length_fires [simp]: "length (fires d ps) = length ps"
  by (induction ps arbitrary: d) simp_all

lemma fires_append: "fires d (ps @ qs) = fires d ps @ fires (feed d ps) qs"
  by (induction ps arbitrary: d) simp_all

text \<open>The counter stands for that many trailing samples of the awaited level.\<close>

abbreviation counted :: "debouncer \<Rightarrow> bool list" where
  "counted d \<equiv> replicate (unat (stable d)) (armed d)"

lemma suffix_Cons_append: "suffix r xs \<Longrightarrow> suffix r (us @ x # xs)"
  by (metis append_Cons append_assoc suffix_def)

lemma fires_suffix:
  assumes "debouncer_ok d" "i < length ps" "fires d ps ! i"
  shows "suffix (replicate (threshold d) True) (counted d @ take (Suc i) ps)"
  using assms
proof (induction ps arbitrary: d i)
  case (Cons p ps)
  have ok: "debouncer_ok (snd (sample d p))" by (rule sample_ok [OF Cons.prems(1)])
  have IH: "suffix (replicate (threshold d) True)
      (counted (snd (sample d p)) @ take (Suc j) ps)" if "i = Suc j" for j
    using Cons.IH [OF ok, of j] Cons.prems that by simp
  from Cons.prems(1) show ?case
  proof (cases rule: sample_cases [of d p])
    case reset
    with Cons.prems IH show ?thesis
      by (cases i) (auto intro: suffix_Cons_append)
  next
    case count
    with Cons.prems IH show ?thesis
      by (cases i) (auto simp: stable_no_wrap replicate_app_Cons_same)
  next
    case toggle
    show ?thesis
    proof (cases i)
      case 0
      with toggle Cons.prems have "armed d" by simp
      with toggle have "counted d @ [p] = replicate (threshold d) True"
        by (metis replicate_Suc replicate_append_same)
      with 0 show ?thesis by simp
    next
      case (Suc j)
      with toggle IH show ?thesis by (auto intro: suffix_Cons_append)
    qed
  qed
qed simp

text \<open>Once disarmed, a report needs a stable release first.\<close>

lemma disarmed_fires_sublist:
  assumes "debouncer_ok d" "\<not> armed d" "k < length ps" "fires d ps ! k"
  shows "sublist (replicate (threshold d) False) (counted d @ take k ps)"
  using assms
proof (induction ps arbitrary: d k)
  case (Cons p ps)
  have ok: "debouncer_ok (snd (sample d p))" by (rule sample_ok [OF Cons.prems(1)])
  have "k \<noteq> 0"
    using Cons.prems by (intro notI) (auto simp: sample_def Let_def split: if_splits)
  then obtain j where k: "k = Suc j" by (cases k) auto
  from Cons.prems(1) show ?case
  proof (cases rule: sample_cases [of d p])
    case reset
    with Cons k ok have "sublist (replicate (threshold d) False) (take j ps)"
      using Cons.IH [OF ok, of j] by auto
    then have "sublist (replicate (threshold d) False) ((counted d @ [p]) @ take j ps)"
      by (metis append_assoc sublist_def)
    with k show ?thesis by simp
  next
    case count
    with Cons k ok show ?thesis
      using Cons.IH [OF ok, of j] by (auto simp: stable_no_wrap replicate_app_Cons_same)
  next
    case toggle
    with Cons.prems(2) have "counted d @ [p] = replicate (threshold d) False"
      by (metis (full_types) replicate_Suc replicate_append_same)
    with k have "counted d @ take k (p # ps) = [] @ replicate (threshold d) False @ take j ps"
      by (metis append_Cons append_Nil append_assoc take_Suc_Cons)
    then show ?thesis by (metis sublist_appendI)
  qed
qed simp

lemma fire_disarms:
  assumes "debouncer_ok d" "fst (sample d p)"
  shows "\<not> armed (snd (sample d p)) \<and> stable (snd (sample d p)) = 0"
  using assms by (cases rule: sample_cases [of d p]) auto

text \<open>Holding the button once disarmed never reports again.\<close>

lemma disarmed_hold:
  assumes "debouncer_ok d" "\<not> armed d"
  shows "fires d (replicate k True) = replicate k False \<and> \<not> armed (feed d (replicate k True))"
  using assms
proof (induction k arbitrary: d)
  case (Suc k)
  then have "sample d True = (False, d\<lparr>stable := 0\<rparr>)"
    by (simp add: sample_def)
  with Suc.IH [of "d\<lparr>stable := 0\<rparr>"] Suc.prems show ?case
    by (simp add: debouncer_ok_def threshold_def)
qed simp

lemma armed_hold:
  assumes "debouncer_ok d" "armed d" "unat (stable d) + Suc m = threshold d"
  shows "fires d (replicate (Suc m + k) True) = replicate m False @ True # replicate k False"
  using assms
proof (induction m arbitrary: d)
  case 0
  then have "sample d True = (True, d\<lparr>stable := 0, armed := False\<rparr>)"
    by (cases rule: sample_cases [of d True]) auto
  moreover have "debouncer_ok (d\<lparr>stable := 0, armed := False\<rparr>)"
    by (simp add: debouncer_ok_def threshold_def)
  ultimately show ?case
    using disarmed_hold [of "d\<lparr>stable := 0, armed := False\<rparr>" k] by simp
next
  case (Suc m)
  from Suc.prems have "sample d True = (False, d\<lparr>stable := stable d + 1\<rparr>)"
    by (cases rule: sample_cases [of d True]) auto
  with Suc.IH [of "d\<lparr>stable := stable d + 1\<rparr>"] Suc.prems sample_ok [OF Suc.prems(1), of True]
  show ?case by (simp add: stable_no_wrap)
qed

section \<open>Properties of the debouncer\<close>

text \<open>
  The \<open>u8\<close> sample counter never overflows: after any sequence of samples
  the increment in \<open>sample\<close> is exact, whatever the configured threshold is
  (0 included).
\<close>

theorem debounce_counter_exact:
  "unat (stable (feed (Debouncer_new n) ps) + 1) = Suc (unat (stable (feed (Debouncer_new n) ps)))"
  by (intro stable_no_wrap feed_ok new_ok)

text \<open>
  A press is reported only after the configured number of consecutive
  pressed samples, so shorter spikes are ignored.
\<close>

theorem debounce_ignores_spikes:
  assumes "i < length ps" "fires (Debouncer_new n) ps ! i"
  shows "suffix (replicate (max 1 (unat n)) True) (take (Suc i) ps)"
  using fires_suffix [OF new_ok assms] by (simp add: Debouncer_new_def threshold_def)

theorem debounce_ignores_spikes_witness:
  "suffix [True, True] (take (Suc 3) [True, False, True, True])"
  using debounce_ignores_spikes [of 3 "[True, False, True, True]" 2]
  by (simp add: Debouncer_new_def sample_def)

text \<open>
  One report per press: between two reported presses the input was stably
  released for the configured number of consecutive samples.
\<close>

theorem debounce_once_per_press:
  assumes "i < k" "k < length ps" "fires (Debouncer_new n) ps ! i" "fires (Debouncer_new n) ps ! k"
  shows "sublist (replicate (max 1 (unat n)) False) (drop (Suc i) (take k ps))"
proof -
  define d where "d = feed (Debouncer_new n) (take i ps)"
  define d' where "d' = snd (sample d (ps ! i))"
  have ps: "ps = take i ps @ ps ! i # drop (Suc i) ps"
    using assms by (simp add: id_take_nth_drop)
  have f: "fires (Debouncer_new n) ps
      = fires (Debouncer_new n) (take i ps) @ fst (sample d (ps ! i)) # fires d' (drop (Suc i) ps)"
    by (subst ps) (simp add: fires_append d_def d'_def)
  have ok: "debouncer_ok d" by (simp add: d_def feed_ok new_ok)
  have "fst (sample d (ps ! i))" using assms f by (simp add: nth_append)
  then have dis: "\<not> armed d'" "stable d' = 0"
    using fire_disarms [OF ok] by (simp_all add: d'_def)
  have "fires d' (drop (Suc i) ps) ! (k - Suc i)"
    using assms f by (simp add: nth_append nth_Cons')
  then have "sublist (replicate (threshold d') False) (take (k - Suc i) (drop (Suc i) ps))"
    using disarmed_fires_sublist [of d' "k - Suc i" "drop (Suc i) ps"] assms dis ok
    by (simp add: d'_def sample_ok)
  moreover have "threshold d' = max 1 (unat n)"
    by (simp add: d'_def d_def) (simp add: threshold_def Debouncer_new_def)
  ultimately show ?thesis by (simp add: drop_take)
qed

theorem debounce_once_per_press_witness:
  "sublist (replicate 2 False) (drop (Suc 1) (take 5 [True, True, False, False, True, True]))"
  using debounce_once_per_press [of 1 5 "[True, True, False, False, True, True]" 2]
  by (simp add: Debouncer_new_def sample_def numeral_eq_Suc)

text \<open>
  Every clean press is reported, exactly once and at the sample that
  completes the threshold, however long the button is held afterwards.
\<close>

theorem debounce_reports_held_press:
  assumes "m = max 1 (unat n) - 1"
  shows "fires (Debouncer_new n) (replicate (Suc m + k) True)
    = replicate m False @ True # replicate k False"
  using assms by (intro armed_hold new_ok) (auto simp: Debouncer_new_def threshold_def)

theorem debounce_reports_held_press_witness:
  "fires (Debouncer_new 5) (replicate (Suc 4 + 20) True) = replicate 4 False @ True # replicate 20 False"
  using debounce_reports_held_press [of 4 5 20] by simp

end
