(* ===== verification/Inputs.thy ===== *)
theory Inputs
  imports Debounce MqttLink
begin

text \<open>
  The input watchers (\<open>src/physical/inputs.rs\<close>) and the functions they call
  (\<open>src/physical/gate.rs\<close>). \<open>edge_task\<close> samples a debounced pin and runs an action
  once per press; \<open>level_task\<close> follows a light barrier. A round of a watcher is
  the code between two of its timer awaits, a function of the sampled level and
  of the state \<open>'s\<close> its callback works on.
\<close>

definition EDGE_POLL_INTERVAL :: "time_ops \<Rightarrow> ticks" where "EDGE_POLL_INTERVAL tu = from_millis tu 10"
definition EDGE_STABLE_SAMPLES :: u8 where "EDGE_STABLE_SAMPLES = 5"
definition LEVEL_POLL_INTERVAL :: "time_ops \<Rightarrow> ticks" where "LEVEL_POLL_INTERVAL tu = from_millis tu 20"

definition edge_start :: debouncer where
  "edge_start = Debouncer_new EDGE_STABLE_SAMPLES"

definition edge_round :: "('s \<Rightarrow> 's) \<Rightarrow> bool \<Rightarrow> debouncer \<times> 's \<Rightarrow> debouncer \<times> 's" where
  "edge_round action is_low x =
     (case x of (d, s) \<Rightarrow> (case sample d is_low of (fired, d) \<Rightarrow> (d, if fired then action s else s)))"

definition edge_task :: "('s \<Rightarrow> 's) \<Rightarrow> bool list \<Rightarrow> 's \<Rightarrow> debouncer \<times> 's" where
  "edge_task action lows s = fold (edge_round action) lows (edge_start, s)"

definition level_start :: "(bool \<Rightarrow> 's \<Rightarrow> 's) \<Rightarrow> bool \<Rightarrow> 's \<Rightarrow> bool \<times> 's" where
  "level_start setter is_low s = (is_low, setter is_low s)"

definition level_round :: "(bool \<Rightarrow> 's \<Rightarrow> 's) \<Rightarrow> bool \<Rightarrow> bool \<times> 's \<Rightarrow> bool \<times> 's" where
  "level_round setter is_low x =
     (case x of (last_active, s) \<Rightarrow> if is_low \<noteq> last_active then (is_low, setter is_low s) else (last_active, s))"

definition level_task :: "(bool \<Rightarrow> 's \<Rightarrow> 's) \<Rightarrow> bool \<Rightarrow> bool list \<Rightarrow> 's \<Rightarrow> bool \<times> 's" where
  "level_task setter first lows s = fold (level_round setter) lows (level_start setter first s)"

section \<open>The callbacks\<close>

text \<open>The callbacks work on the statics: the shared controls and the queues of the broker connection.\<close>

type_synonym statics = "controls \<times> link"

definition on_controls :: "(controls \<Rightarrow> controls) \<Rightarrow> statics \<Rightarrow> statics" where
  "on_controls f x = (f (fst x), snd x)"

definition press_impulse :: "statics \<Rightarrow> statics" where
  "press_impulse = on_controls impulse"

definition press_wind_trigger :: "statics \<Rightarrow> statics" where
  "press_wind_trigger = on_controls wind_trigger"

definition press_reset_wind_lock :: "statics \<Rightarrow> statics" where
  "press_reset_wind_lock = on_controls reset_wind_lock"

definition level_barrier1 :: "bool \<Rightarrow> statics \<Rightarrow> statics" where
  "level_barrier1 active = on_controls (barrier1_set active)"

definition level_barrier2 :: "bool \<Rightarrow> statics \<Rightarrow> statics" where
  "level_barrier2 active = on_controls (barrier2_set active)"

definition arm_barrier_bypass :: "statics \<Rightarrow> statics" where
  "arm_barrier_bypass = execute (SetBarrierBypass True)"

section \<open>Edges\<close>

lemma edge_task_fires:
  "fold (edge_round action) lows (d, s) = (feed d lows, (action ^^ length (filter id (fires d lows))) s)"
proof (induction lows arbitrary: d s)
  case (Cons p ps)
  obtain f d' where sp: "sample d p = (f, d')" by force
  show ?case
    using Cons.IH [of d' "if f then action s else s"]
    by (auto simp: edge_round_def sp funpow_swap1)
qed simp

lemma no_press_no_fire:
  assumes "\<not> sublist (replicate (threshold d) True) (counted d @ ps)" "debouncer_ok d"
  shows "length (filter id (fires d ps)) = 0"
proof -
  have "\<not> fires d ps ! i" if "i < length ps" for i
  proof
    assume "fires d ps ! i"
    from fires_suffix [OF assms(2) that this]
    have "sublist (replicate (threshold d) True) (counted d @ take (Suc i) ps)" by blast
    then have "sublist (replicate (threshold d) True) ((counted d @ take (Suc i) ps) @ drop (Suc i) ps)"
      unfolding sublist_def by (metis append.assoc)
    with assms(1) show False by simp
  qed
  then show ?thesis by (auto simp: filter_empty_conv in_set_conv_nth)
qed

text \<open>After a stable release the debouncer is as good as new.\<close>

lemma disarmed_release:
  assumes "debouncer_ok d" "\<not> armed d" "unat (stable d) + Suc m = threshold d"
  shows "fires d (replicate (Suc m) False) = replicate (Suc m) False
    \<and> feed d (replicate (Suc m) False) = d\<lparr>stable := 0, armed := True\<rparr>"
  using assms
proof (induction m arbitrary: d)
  case 0
  then have "sample d False = (False, d\<lparr>stable := 0, armed := True\<rparr>)"
    by (cases rule: sample_cases [of d False]) auto
  then show ?case by simp
next
  case (Suc m)
  from Suc.prems have s: "sample d False = (False, d\<lparr>stable := stable d + 1\<rparr>)"
    by (cases rule: sample_cases [of d False]) auto
  with Suc.IH [of "d\<lparr>stable := stable d + 1\<rparr>"] Suc.prems sample_ok [OF Suc.prems(1), of False]
  show ?case by (simp add: stable_no_wrap)
qed

lemma stable_zero: "stable d = 0 \<Longrightarrow> d\<lparr>stable := 0\<rparr> = d"
  by (cases d) simp

lemma armed_idle:
  assumes "armed d" "stable d = 0"
  shows "fires d (replicate k False) = replicate k False \<and> feed d (replicate k False) = d"
  using assms by (induction k) (simp_all add: sample_def stable_zero)

lemma feed_append: "feed e (xs @ ys) = feed (feed e xs) ys"
  by (induction xs arbitrary: e) simp_all

lemma armed_press:
  assumes "debouncer_ok d" "armed d" "unat (stable d) + Suc m = threshold d"
  shows "feed d (replicate (Suc m + k) True) = d\<lparr>stable := 0, armed := False\<rparr>"
proof -
  have hold: "feed e (replicate k True) = e" if "\<not> armed e" "stable e = 0" for e
    using that by (induction k) (simp_all add: sample_def stable_zero)
  have "feed d (replicate (Suc m) True) = d\<lparr>stable := 0, armed := False\<rparr>"
    using assms
  proof (induction m arbitrary: d)
    case 0
    then have "sample d True = (True, d\<lparr>stable := 0, armed := False\<rparr>)"
      by (cases rule: sample_cases [of d True]) auto
    then show ?case by simp
  next
    case (Suc m)
    from Suc.prems have "sample d True = (False, d\<lparr>stable := stable d + 1\<rparr>)"
      by (cases rule: sample_cases [of d True]) auto
    with Suc.IH [of "d\<lparr>stable := stable d + 1\<rparr>"] Suc.prems sample_ok [OF Suc.prems(1), of True]
    show ?case by (simp add: stable_no_wrap)
  qed
  then show ?thesis using hold by (simp add: replicate_add feed_append)
qed

text \<open>A clean press: at least five pressed samples, then at least five released ones.\<close>

definition clean_press :: "nat \<times> nat \<Rightarrow> bool list" where
  "clean_press k = replicate (Suc 4 + fst k) True @ replicate (Suc 4 + snd k) False"

lemma edge_start_facts:
  "debouncer_ok edge_start" "armed edge_start" "stable edge_start = 0" "threshold edge_start = 5"
  by (simp_all add: edge_start_def new_ok) (simp_all add: Debouncer_new_def threshold_def EDGE_STABLE_SAMPLES_def)

lemma clean_press_acts:
  "fold (edge_round action) (clean_press k) (edge_start, s) = (edge_start, action s)"
proof -
  let ?d = "edge_start\<lparr>stable := 0, armed := False\<rparr>"
  have d: "debouncer_ok ?d" "\<not> armed ?d" "unat (stable ?d) + Suc 4 = threshold ?d"
    using edge_start_facts by (simp_all add: debouncer_ok_def threshold_def)
  have p: "fires edge_start (replicate (Suc 4 + fst k) True) = replicate 4 False @ True # replicate (fst k) False"
      "feed edge_start (replicate (Suc 4 + fst k) True) = ?d"
    using armed_hold [of edge_start 4 "fst k"] armed_press [of edge_start 4 "fst k"] edge_start_facts by simp_all
  have e: "?d\<lparr>stable := 0, armed := True\<rparr> = edge_start"
    using edge_start_facts(2,3) by (cases edge_start) simp
  have r: "fires ?d (replicate (Suc 4 + snd k) False) = replicate (Suc 4 + snd k) False"
      "feed ?d (replicate (Suc 4 + snd k) False) = edge_start"
    unfolding replicate_add fires_append feed_append
    using disarmed_release [OF d] armed_idle [OF edge_start_facts(2,3), of "snd k"] e by metis+
  have "filter id (replicate n False) = []" for n by simp
  then show ?thesis
    unfolding edge_task_fires clean_press_def fires_append feed_append p r by simp
qed

section \<open>Properties\<close>

text \<open>
  C27. One action per press: over any number of clean presses of any length the
  watcher runs its action exactly once for each and is then ready for the next
  one, and over samples that never stay pressed for five samples (50 ms) it
  does not run the action at all.
\<close>

theorem edge_task_acts_once_per_press:
  "edge_task action (concat (map clean_press ks)) s = (edge_start, (action ^^ length ks) s) \<and>
   (\<not> sublist (replicate 5 True) ps \<longrightarrow> snd (edge_task action ps s) = s)"
proof
  show "edge_task action (concat (map clean_press ks)) s = (edge_start, (action ^^ length ks) s)"
    unfolding edge_task_def
    by (induction ks arbitrary: s) (simp_all add: clean_press_acts funpow_swap1)
  show "\<not> sublist (replicate 5 True) ps \<longrightarrow> snd (edge_task action ps s) = s"
    using no_press_no_fire [of edge_start ps] edge_start_facts by (simp add: edge_task_def edge_task_fires)
qed

theorem edge_task_acts_once_per_press_witness:
  "snd (edge_task Suc [True, True, True, True, False, True, True, True, True, False] 7) = (7 :: nat)"
proof -
  have "\<not> sublist (replicate 5 True) [True, True, True, True, False, True, True, True, True, False]"
    by (simp add: numeral_eq_Suc sublist_Cons_right)
  with edge_task_acts_once_per_press [of Suc "[]" 7
      "[True, True, True, True, False, True, True, True, True, False]"] show ?thesis by blast
qed

lemma level_task_changes:
  "fold (level_round setter) lows (l, fold setter (remdups_adj (xs @ [l])) s) =
     (last (l # lows), fold setter (remdups_adj (xs @ l # lows)) s)"
proof (induction lows arbitrary: l xs)
  case (Cons y lows)
  have "level_round setter y (l, fold setter (remdups_adj (xs @ [l])) s) =
      (y, fold setter (remdups_adj ((xs @ [l]) @ [y])) s)"
    using remdups_adj_append_two [of xs l y] by (simp add: level_round_def)
  then show ?case using Cons.IH [of y "xs @ [l]"] by simp
qed simp

lemma level_task_eq:
  "level_task setter first lows s = (last (first # lows), fold setter (remdups_adj (first # lows)) s)"
  using level_task_changes [of setter lows first "[]" s] by (simp add: level_task_def level_start_def)

text \<open>
  C28. A light barrier is followed exactly: the watcher's setter runs once at the
  start and then once per change of level, with the new level, and after every
  sample the shared flag of the barrier equals the level just read.
\<close>

theorem level_task_follows_barrier:
  "level_task setter first lows s = (last (first # lows), fold setter (remdups_adj (first # lows)) s) \<and>
   barrier1_active (fst (snd (level_task level_barrier1 first lows x))) = last (first # lows) \<and>
   barrier2_active (fst (snd (level_task level_barrier2 first lows x))) = last (first # lows)"
proof -
  define zs where "zs = remdups_adj (first # lows)"
  have z: "zs \<noteq> []" "last zs = last (first # lows)" by (simp_all add: zs_def last_remdups_adj del: last.simps)
  have "barrier1_active (fst (fold level_barrier1 zs x)) = last zs"
      "barrier2_active (fst (fold level_barrier2 zs x)) = last zs"
    using z(1) by (induction zs rule: rev_induct)
      (simp_all add: level_barrier1_def level_barrier2_def on_controls_def barrier1_set_def barrier2_set_def send_def Let_def)
  then show ?thesis using z(2) by (simp add: level_task_eq zs_def [symmetric] del: last.simps)
qed

end
