(* ===== verification/Firmware.thy ===== *)
theory Firmware
  imports Boot WarningLight Inputs
begin

text \<open>
  The tasks that \<open>main\<close> spawns, together: the gate task with its persistence
  (\<open>task\<close> in \<open>src/physical/gate.rs\<close>), the warning light, the seven input watchers,
  the handler of broker messages with its subscriptions, the discovery task and
  the setup mode, on the shared statics. \<open>fw_task\<close> is one step of any of these
  tasks; \<open>fw_step\<close> adds a connection task that may do anything to the queues (the
  theory \<open>Broker\<close> has the real one).

  The lemmas show that this system refines the gate and light of the other
  theories, so that all their properties hold for the running firmware, that the
  published state is never stale, and that whenever the gate is at rest a power
  cycle resumes exactly where it stands.
\<close>

section \<open>The input panel\<close>

datatype panel_pin = PushButton | RadioButton | WindSensor | WindReset | LightBarrier1 | LightBarrier2 | BypassButton

text \<open>The locals of the watchers: a debouncer per edge input, the last level per light barrier.\<close>

record panel =
  edge_d :: "panel_pin \<Rightarrow> debouncer"
  level_w :: "panel_pin \<Rightarrow> bool option"

definition panel_new :: panel where
  "panel_new = \<lparr>edge_d = (\<lambda>_. edge_start), level_w = (\<lambda>_. None)\<rparr>"

text \<open>A round of a level watcher, its first one included.\<close>

definition level_step :: "(bool \<Rightarrow> 's \<Rightarrow> 's) \<Rightarrow> bool \<Rightarrow> bool option \<times> 's \<Rightarrow> bool option \<times> 's" where
  "level_step setter low x =
     (case x of
        (None, s) \<Rightarrow> map_prod Some id (level_start setter low s)
      | (Some l, s) \<Rightarrow> map_prod Some id (level_round setter low (l, s)))"

definition edge_sample :: "panel_pin \<Rightarrow> (statics \<Rightarrow> statics) \<Rightarrow> bool \<Rightarrow> panel \<times> statics \<Rightarrow> panel \<times> statics" where
  "edge_sample i callback low y =
     (case y of (p, x) \<Rightarrow> (case edge_round callback low (edge_d p i, x) of (d, x) \<Rightarrow> (p\<lparr>edge_d := (edge_d p)(i := d)\<rparr>, x)))"

definition level_sample :: "panel_pin \<Rightarrow> (bool \<Rightarrow> statics \<Rightarrow> statics) \<Rightarrow> bool \<Rightarrow> panel \<times> statics \<Rightarrow> panel \<times> statics" where
  "level_sample i setter low y =
     (case y of (p, x) \<Rightarrow> (case level_step setter low (level_w p i, x) of (w, x) \<Rightarrow> (p\<lparr>level_w := (level_w p)(i := w)\<rparr>, x)))"

definition sample_pin :: "panel_pin \<Rightarrow> bool \<Rightarrow> panel \<times> statics \<Rightarrow> panel \<times> statics" where
  "sample_pin i =
     (case i of
        PushButton \<Rightarrow> edge_sample i press_impulse
      | RadioButton \<Rightarrow> edge_sample i press_impulse
      | WindSensor \<Rightarrow> edge_sample i press_wind_trigger
      | WindReset \<Rightarrow> edge_sample i press_reset_wind_lock
      | LightBarrier1 \<Rightarrow> level_sample i level_barrier1
      | LightBarrier2 \<Rightarrow> level_sample i level_barrier2
      | BypassButton \<Rightarrow> edge_sample i arm_barrier_bypass)"

section \<open>The running firmware\<close>

text \<open>
  \<open>published\<close> records the calls of \<open>publish_state\<close> with the state they published,
  \<open>save_failed\<close> whether a flash write has failed, \<open>to_subscribe\<close> the topics that the
  message handler has not registered yet.
\<close>

record 'd fw =
  site_of :: site
  panel_of :: panel
  link_of :: link
  flash_of :: 'd
  saved :: GateState
  published :: "controls list"
  save_failed :: bool
  to_subscribe :: "str list"

abbreviation gate_of :: "'d fw \<Rightarrow> gate" where
  "gate_of f \<equiv> the_gate (site_of f)"

text \<open>After a reaction of the gate task: its notifications have published the state.\<close>

definition after_gate :: "gate \<Rightarrow> 'd fw \<Rightarrow> 'd fw" where
  "after_gate g' f =
     (let news = drop (length (notified (gate_of f))) (notified g') in
      f\<lparr>site_of := (site_of f)\<lparr>the_gate := g'\<rparr>, link_of := fold publish_state news (link_of f),
        published := published f @ news\<rparr>)"

text \<open>The loop of the gate task between two calls of \<open>step\<close>.\<close>

definition persist :: "('d, 'p, 'x) flash_ops \<Rightarrow> snapshot \<Rightarrow> 'd fw \<Rightarrow> 'd fw" where
  "persist fo snap f =
     (let st = to_gate_state snap in
      if st = saved f then f
      else (case save_gate_state fo st (flash_of f) of
              (Ok _, d) \<Rightarrow> f\<lparr>flash_of := d, saved := st\<rparr>
            | (_, d) \<Rightarrow> f\<lparr>flash_of := d, save_failed := True\<rparr>))"

definition put_statics :: "statics \<Rightarrow> 'd fw \<Rightarrow> 'd fw" where
  "put_statics x f = f\<lparr>site_of := (site_of f)\<lparr>the_gate := (gate_of f)\<lparr>controls := fst x\<rparr>\<rparr>, link_of := snd x\<rparr>"

definition note_publication :: "bool \<Rightarrow> 'd fw \<Rightarrow> 'd fw" where
  "note_publication b f = (if b then f\<lparr>published := published f @ [controls (gate_of f)]\<rparr> else f)"

definition sample_input :: "panel_pin \<Rightarrow> bool \<Rightarrow> 'd fw \<Rightarrow> 'd fw" where
  "sample_input i low f =
     (case sample_pin i low (panel_of f, controls (gate_of f), link_of f) of
        (p, x) \<Rightarrow> note_publication (i = BypassButton \<and> fst (sample (edge_d (panel_of f) BypassButton) low))
                   (put_statics x (f\<lparr>panel_of := p\<rparr>)))"

definition is_bypass :: "(CommandError, Command) outcome \<Rightarrow> bool" where
  "is_bypass r = (case r of Ok (SetBarrierBypass _) \<Rightarrow> True | _ \<Rightarrow> False)"

definition receive_message :: "IncomingMessage \<Rightarrow> 'd fw \<Rightarrow> 'd fw" where
  "receive_message m f =
     note_publication (is_bypass (parse (in_topic m) (in_payload m)))
       (put_statics (handle_message m (controls (gate_of f), link_of f)) f)"

text \<open>
  One step of a task of the firmware, from one of its awaits to the next. The
  serializer and the version of the discovery task are any.
\<close>

inductive fw_task :: "time_ops \<Rightarrow> ticks \<Rightarrow> ('d, 'p, 'x) flash_ops \<Rightarrow> 'd fw \<Rightarrow> 'd fw \<Rightarrow> bool"
  for tu :: time_ops and half :: ticks and fo :: "('d, 'p, 'x) flash_ops" where
  wake: "gate_react tu w (gate_of f) = Some g' \<Longrightarrow> w \<noteq> CallStep \<Longrightarrow> fw_task tu half fo f (after_gate g' f)"
| call: "task (gate_of f) = Returned snap \<Longrightarrow> gate_react tu CallStep (gate_of f) = Some g' \<Longrightarrow>
    fw_task tu half fo f (after_gate g' (persist fo snap f))"
| lamp: "warning_light tu half (site_of f) = Some s' \<Longrightarrow> fw_task tu half fo f (f\<lparr>site_of := s'\<rparr>)"
| tick: "fw_task tu half fo f (f\<lparr>site_of := (site_of f)\<lparr>the_gate := (gate_of f)\<lparr>dev := clock_advance t (dev (gate_of f))\<rparr>\<rparr>\<rparr>)"
| input_pin: "fw_task tu half fo f (sample_input p low f)"
| subscribe_topic: "to_subscribe f = t # ts \<Longrightarrow> link_subscribe t AtLeastOnce (link_of f) = (Some (), k) \<Longrightarrow>
    fw_task tu half fo f (f\<lparr>link_of := k, to_subscribe := ts\<rparr>)"
| message: "to_subscribe f = [] \<Longrightarrow> link_receive (link_of f) = (Some m, k) \<Longrightarrow>
    fw_task tu half fo f (receive_message m (f\<lparr>link_of := k\<rparr>))"
| announce: "wait_connected (link_of f) = (Some (), k) \<Longrightarrow>
    republish to_vec version (controls (gate_of f)) k = (Ok k' :: (unit, link) outcome) \<Longrightarrow>
    fw_task tu half fo f (f\<lparr>link_of := k', published := published f @ [controls (gate_of f)]\<rparr>)"
| provision: "save fo cfg (flash_of f) = (r, d) \<Longrightarrow>
    fw_task tu half fo f (f\<lparr>flash_of := d, save_failed := (save_failed f \<or> r \<noteq> Ok ())\<rparr>)"

text \<open>All tasks, with a connection task that may do anything to the queues.\<close>

inductive fw_step :: "time_ops \<Rightarrow> ticks \<Rightarrow> ('d, 'p, 'x) flash_ops \<Rightarrow> 'd fw \<Rightarrow> 'd fw \<Rightarrow> bool"
  for tu :: time_ops and half :: ticks and fo :: "('d, 'p, 'x) flash_ops" where
  a_task: "fw_task tu half fo f f' \<Longrightarrow> fw_step tu half fo f f'"
| network: "fw_step tu half fo f (f\<lparr>link_of := k\<rparr>)"

definition fw_start :: "time_ops \<Rightarrow> ('d, 'p, 'x) flash_ops \<Rightarrow> 'd \<Rightarrow> 'd fw" where
  "fw_start tu fo d =
     (let g = boot_gate tu (boot_gate_state fo d) in
      \<lparr>site_of = \<lparr>the_gate = g, the_lamp = lamp_new ''GPIO21''\<rparr>, panel_of = panel_new,
       link_of = fold publish_state (notified g) link_new, flash_of = d,
       saved = to_gate_state (take_snapshot g), published = notified g, save_failed = False,
       to_subscribe = COMMAND_TOPICS\<rparr>)"

abbreviation fw_reachable :: "time_ops \<Rightarrow> ticks \<Rightarrow> ('d, 'p, 'x) flash_ops \<Rightarrow> 'd fw \<Rightarrow> bool" where
  "fw_reachable tu half fo \<equiv> reach (\<lambda>f. \<exists>d. f = fw_start tu fo d) (fw_step tu half fo)"

section \<open>Inputs and messages as operations on the controls\<close>

primrec op_of :: "Command \<Rightarrow> control_op" where
  "op_of CmdOpen = DoOpen"
| "op_of CmdClose = DoClose"
| "op_of CmdStop = DoStop"
| "op_of ResetWindLock = DoResetWindLock"
| "op_of (SetBarrierBypass b) = DoBypass b"

lemma apply_command_op: "apply_command cmd c = control_exec (op_of cmd) c"
  by (cases cmd) simp_all

text \<open>A change of the controls by another task; the bypass changes only with a publication.\<close>

definition touched :: "bool \<Rightarrow> controls \<Rightarrow> controls \<Rightarrow> bool" where
  "touched pub c c' \<longleftrightarrow> c' = c \<or> (\<exists>x. c' = control_exec x c \<and> (pub \<or> (\<forall>v. x \<noteq> DoBypass v)))"

lemma edge_round_controls:
  "edge_round (on_controls (control_exec x)) low (d, c, k) = (d', c', k') \<Longrightarrow> (\<forall>v. x \<noteq> DoBypass v) \<Longrightarrow> touched b c c'"
  by (auto simp: edge_round_def on_controls_def touched_def split: prod.splits if_splits)

lemma level_step_controls:
  "level_step (\<lambda>v. on_controls (control_exec (f v))) low (w, c, k) = (w', c', k') \<Longrightarrow>
   (\<forall>u v. f u \<noteq> DoBypass v) \<Longrightarrow> touched b c c'"
  by (auto simp: level_step_def level_start_def level_round_def on_controls_def touched_def
      split: option.splits if_splits)

lemma callbacks_exec:
  "press_impulse = on_controls (control_exec DoImpulse)"
  "press_wind_trigger = on_controls (control_exec DoWindTrigger)"
  "press_reset_wind_lock = on_controls (control_exec DoResetWindLock)"
  "level_barrier1 = (\<lambda>v. on_controls (control_exec (DoBarrier1 v)))"
  "level_barrier2 = (\<lambda>v. on_controls (control_exec (DoBarrier2 v)))"
  by (simp_all add: fun_eq_iff press_impulse_def press_wind_trigger_def press_reset_wind_lock_def
      level_barrier1_def level_barrier2_def on_controls_def)

lemma sample_pin_touches:
  assumes "sample_pin i low (p, c, k) = (p', c', k')"
  shows "touched (i = BypassButton \<and> fst (sample (edge_d p BypassButton) low)) c c'"
proof (cases i)
  case BypassButton
  then show ?thesis
    using assms by (auto simp: sample_pin_def edge_sample_def edge_round_def arm_barrier_bypass_def execute_def Let_def touched_def
        split: prod.splits if_splits intro: exI [of _ "DoBypass True"])
qed (use assms in \<open>auto simp: sample_pin_def edge_sample_def level_sample_def callbacks_exec split: prod.splits
    dest!: edge_round_controls level_step_controls\<close>)

lemma handle_message_touches:
  assumes "handle_message m (c, k) = (c', k')"
  shows "touched (is_bypass (parse (in_topic m) (in_payload m))) c c'"
proof (cases "parse (in_topic m) (in_payload m)")
  case (Ok cmd)
  then have "c' = control_exec (op_of cmd) c"
    using assms by (simp add: handle_message_def execute_def Let_def apply_command_op)
  moreover have "is_bypass (parse (in_topic m) (in_payload m)) \<or> (\<forall>v. op_of cmd \<noteq> DoBypass v)"
    using Ok by (cases cmd) (simp_all add: is_bypass_def)
  ultimately show ?thesis by (auto simp: touched_def)
qed (use assms in \<open>simp_all add: handle_message_def touched_def\<close>)

section \<open>The firmware refines the site\<close>

lemma put_statics_touched:
  assumes "touched b (controls (gate_of f)) (fst x)"
  shows "(site_step tu half)\<^sup>*\<^sup>* (site_of f) (site_of (put_statics x f))"
proof -
  have "site_of (put_statics x f) = site_of f \<or>
      (\<exists>op. site_of (put_statics x f) =
        (site_of f)\<lparr>the_gate := (gate_of f)\<lparr>controls := control_exec op (controls (gate_of f))\<rparr>\<rparr>)"
    using assms by (auto simp: touched_def put_statics_def)
  then show ?thesis using site_step.input_task by fastforce
qed

lemma ghost_site [simp]:
  "site_of (note_publication b f) = site_of f"
  "site_of (after_gate g' f) = (site_of f)\<lparr>the_gate := g'\<rparr>"
  "site_of (persist fo snap f) = site_of f"
  by (simp_all add: note_publication_def after_gate_def Let_def persist_def split: prod.split outcome.split)

lemma sample_input_touches:
  "\<exists>b x p. sample_input i low f = note_publication b (put_statics x (f\<lparr>panel_of := p\<rparr>))
     \<and> touched b (controls (gate_of f)) (fst x)"
proof -
  obtain p c k where s: "sample_pin i low (panel_of f, controls (gate_of f), link_of f) = (p, c, k)"
    by (metis prod_cases3)
  from sample_pin_touches [OF s] s show ?thesis unfolding sample_input_def by fastforce
qed

lemma receive_message_touches:
  "\<exists>b x. receive_message m f = note_publication b (put_statics x f) \<and> touched b (controls (gate_of f)) (fst x)"
proof -
  obtain c k where s: "handle_message m (controls (gate_of f), link_of f) = (c, k)" by fastforce
  from handle_message_touches [OF s] s show ?thesis unfolding receive_message_def by fastforce
qed

lemma fw_task_site:
  assumes "fw_task tu half fo f f'"
  shows "(site_step tu half)\<^sup>*\<^sup>* (site_of f) (site_of f')"
  using assms
proof (cases rule: fw_task.cases)
  case (input_pin i low)
  obtain b x p where "f' = note_publication b (put_statics x (f\<lparr>panel_of := p\<rparr>))"
      "touched b (controls (gate_of f)) (fst x)"
    using sample_input_touches [of i low f] input_pin by blast
  then show ?thesis using put_statics_touched [of b "f\<lparr>panel_of := p\<rparr>" x] by simp
next
  case (message m k)
  obtain b x where "f' = note_publication b (put_statics x (f\<lparr>link_of := k\<rparr>))"
      "touched b (controls (gate_of f)) (fst x)"
    using receive_message_touches [of m "f\<lparr>link_of := k\<rparr>"] message by auto
  then show ?thesis using put_statics_touched [of b "f\<lparr>link_of := k\<rparr>" x] by simp
qed (auto intro: r_into_rtranclp site_step.intros)

lemma fw_step_site: "fw_step tu half fo f f' \<Longrightarrow> (site_step tu half)\<^sup>*\<^sup>* (site_of f) (site_of f')"
  by (auto elim!: fw_step.cases dest: fw_task_site)

lemma fw_start_site: "site_boot tu (site_of (fw_start tu fo d))"
  by (simp add: site_boot_def fw_start_def Let_def boot_gate_firmware firmware_boot)
     (simp add: gate_pins_def firmware_gate_def gate_of_settings_def motor_of_settings_def motor_new_def settings_a_def
        settings_b_def Gate_new_def gate_settle_def notify_def pins_def lamp_new_def Let_def exI [of _ "''GPIO21''"])

lemma fw_reachable_site: "fw_reachable tu half fo f \<Longrightarrow> site_reachable tu half (site_of f)"
proof (induction rule: reach.induct)
  case (reach_init f)
  then show ?case by (auto intro: reach.reach_init fw_start_site)
next
  case (reach_step f f')
  then show ?case using reach_steps fw_step_site by metis
qed

section \<open>What the gate task announces\<close>

text \<open>The reaction ended a call of \<open>step\<close>: the callback saw the final state, the snapshot is that state's.\<close>

definition settled :: "gate \<Rightarrow> gate \<Rightarrow> bool" where
  "settled g g' \<longleftrightarrow> (\<exists>xs. notified g' = notified g @ xs @ [controls g']) \<and> task g' = Returned (take_snapshot g')"

text \<open>The reaction left a movement under way, with the state announced or unchanged.\<close>

definition underway :: "gate \<Rightarrow> gate \<Rightarrow> bool" where
  "underway g g' \<longleftrightarrow> (\<exists>l at. task g' = Driving l at) \<and>
     ((\<exists>xs. notified g' = notified g @ xs @ [controls g']) \<or>
      (\<exists>l at. task g = Driving l at) \<and> notified g' = notified g \<and> cover_state (controls g') = cover_state (controls g) \<and>
        barrier_bypass (controls g') = barrier_bypass (controls g))"

lemma gate_settle_settled: "notified h = notified g @ xs \<Longrightarrow> settled g (gate_settle h)"
  by (simp add: settled_def gate_settle_def notify_def take_snapshot_def Let_def)

lemma stop_leaves_notified [simp]: "notified (stop_leaves tu g) = notified g"
  by (simp add: stop_leaves_def split: prod.split)

lemma step_done_settled: "notified h = notified g @ xs \<Longrightarrow> settled g (step_done r h)"
  by (simp add: step_done_def gate_settle_settled)

lemma drive_end_settled: "notified h = notified g @ xs \<Longrightarrow> settled g (drive_end tu l r h)"
  by (simp add: drive_end_def Let_def step_done_settled)

lemma drive_pass_outcome:
  assumes "notified h = notified g @ xs"
  shows "settled g (drive_pass tu l h) \<or>
    (\<exists>l' at. task (drive_pass tu l h) = Driving l' at) \<and> notified (drive_pass tu l h) = notified h \<and>
      controls (drive_pass tu l h) = controls h"
  using assms by (auto simp: drive_pass_def Let_def drive_end_settled split: option.split prod.split)

lemma drive_pass_told:
  assumes "notified h = notified g @ xs @ [controls h]"
  shows "settled g (drive_pass tu l h) \<or> underway g (drive_pass tu l h)"
  using drive_pass_outcome [of h g "xs @ [controls h]" tu l] assms by (auto simp: underway_def)

lemma execute_outcome:
  assumes "notified h = notified g"
  shows "settled g (execute_command tu cmd h) \<or> underway g (execute_command tu cmd h)"
proof -
  have "settled g (drive_begin tu d h) \<or> underway g (drive_begin tu d h)" for d
    using assms step_done_settled [of h g "[]"]
    by (auto simp: drive_begin_def Let_def notify_def split: option.split intro!: drive_pass_told [where xs = "[]"])
  then show ?thesis
    using assms by (auto simp: execute_command_def step_done_settled split: gate_command.split)
qed

lemma react_outcome:
  assumes "gate_react tu w g = Some g'"
  shows "settled g g' \<or> underway g g' \<or>
    (\<exists>snap. task g = Returned snap \<and> w = CallStep \<and> g' = g\<lparr>task := AwaitCommand\<rparr>)"
  using assms
proof (cases rule: gate_react_cases)
  case (call snap cmd)
  then show ?thesis using execute_outcome [of "g\<lparr>pending := None\<rparr>" g tu cmd] by auto
next
  case (command_idle cmd)
  then show ?thesis using execute_outcome [of "clear_command g" g tu cmd] by (auto simp add: clear_command_def)
next
  case reset_idle
  then show ?thesis using gate_settle_settled [of "clear_reset g" g "[]"] by (simp add: clear_reset_def)
next
  case (timer l at)
  then show ?thesis using drive_pass_outcome [of g g "[]" tu l] by (auto simp: underway_def)
next
  case (command l at cmd)
  then show ?thesis
    using drive_pass_outcome [of "clear_command g" g "[]" tu l] drive_end_settled [of "clear_command g" g "[]"]
    by (auto simp: underway_def drive_command_def clear_command_def cover_state_def)
next
  case (barrier l at)
  then show ?thesis
    using drive_pass_outcome [of "clear_barrier g" g "[]" tu l]
    by (auto simp: underway_def clear_barrier_def cover_state_def)
next
  case (reset l at)
  then show ?thesis using drive_pass_told [of "notify (clear_reset g)" g "[]" tu l] by (simp add: notify_def clear_reset_def)
qed simp_all

section \<open>The invariant of the firmware\<close>

text \<open>A change of the wind lock comes with a signal to the gate task.\<close>

definition lock_seen :: "bool \<Rightarrow> controls \<Rightarrow> bool" where
  "lock_seen v c \<longleftrightarrow> v = wind_locked c \<or> command c \<noteq> None \<or> wind_lock_reset c \<noteq> None"

definition shown :: "controls \<Rightarrow> controls \<Rightarrow> bool" where
  "shown seen c \<longleftrightarrow> cover_state seen = cover_state c \<and> barrier_bypass seen = barrier_bypass c"

definition matches :: "GateState \<Rightarrow> gate \<Rightarrow> bool" where
  "matches st g \<longleftrightarrow> state_leaf_a st = position (leaf_a g) \<and> state_leaf_b st = position (leaf_b g)
     \<and> lock_seen (state_wind_locked st) (controls g)"

text \<open>What the broker was told and what the gate task carries, in terms of the gate.\<close>

definition told :: "controls list \<Rightarrow> gate \<Rightarrow> bool" where
  "told pub g \<longleftrightarrow> pub \<noteq> [] \<and> shown (last pub) (controls g) \<and>
     ((\<nexists>l at. task g = Driving l at) \<longrightarrow> lock_seen (wind_locked (last pub)) (controls g)) \<and>
     (\<forall>snap. task g = Returned snap \<longrightarrow>
        matches (to_gate_state snap) g)"

definition stored :: "('d, 'p, 'x) flash_ops \<Rightarrow> 'd fw \<Rightarrow> bool" where
  "stored fo f \<longleftrightarrow> save_failed f \<or>
     boot_gate_state fo (flash_of f) = saved f \<and>
     (task (gate_of f) = AwaitCommand \<longrightarrow>
        matches (saved f) (gate_of f))"

definition fw_ok :: "('d, 'p, 'x) flash_ops \<Rightarrow> 'd fw \<Rightarrow> bool" where
  "fw_ok fo f \<longleftrightarrow> told (published f) (gate_of f) \<and> stored fo f"

lemma exec_lock_seen: "lock_seen v c \<Longrightarrow> lock_seen v (control_exec x c)"
  by (cases x) (auto simp: lock_seen_def control_defs Let_def)

lemma exec_shown: "shown c c' \<Longrightarrow> (\<forall>v. x \<noteq> DoBypass v) \<Longrightarrow> shown c (control_exec x c')"
  by (cases x) (auto simp: shown_def cover_state_def control_defs Let_def)

lemma told_now:
  "notified g' = old @ xs @ [controls g'] \<Longrightarrow> task g' = Returned (take_snapshot g') \<or> (\<exists>l at. task g' = Driving l at) \<Longrightarrow>
   told (pub @ xs @ [controls g']) g'"
  by (auto simp: told_def shown_def matches_def lock_seen_def take_snapshot_def to_gate_state_def)

lemma react_told:
  assumes "gate_react tu w g = Some g'" "told pub g"
  shows "told (pub @ drop (length (notified g)) (notified g')) g'"
proof -
  consider xs where "notified g' = notified g @ xs @ [controls g']"
      "task g' = Returned (take_snapshot g') \<or> (\<exists>l at. task g' = Driving l at)"
    | "\<exists>l at. task g' = Driving l at" "notified g' = notified g" "cover_state (controls g') = cover_state (controls g)"
      "barrier_bypass (controls g') = barrier_bypass (controls g)"
    | snap where "task g = Returned snap" "g' = g\<lparr>task := AwaitCommand\<rparr>"
    using react_outcome [OF assms(1)] by (auto simp: settled_def underway_def)
  then show ?thesis
  proof cases
    case (1 xs)
    then show ?thesis using told_now [OF 1, of pub] by simp
  qed (use assms(2) in \<open>auto simp: told_def shown_def\<close>)
qed

lemma react_stored:
  assumes "gate_react tu w (gate_of f) = Some g'" "stored fo f"
    and "\<And>snap. task (gate_of f) = Returned snap \<Longrightarrow> w = CallStep \<Longrightarrow> save_failed f \<or>
      matches (saved f) (gate_of f)"
  shows "stored fo (after_gate g' f)"
proof -
  have same: "saved (after_gate g' f) = saved f" "flash_of (after_gate g' f) = flash_of f"
      "save_failed (after_gate g' f) = save_failed f"
    by (simp_all add: after_gate_def Let_def)
  have "task g' \<noteq> AwaitCommand \<or>
      (\<exists>snap. task (gate_of f) = Returned snap \<and> w = CallStep \<and> g' = (gate_of f)\<lparr>task := AwaitCommand\<rparr>)"
    using react_outcome [OF assms(1)] by (auto simp: settled_def underway_def)
  with assms(2,3) same show ?thesis by (auto simp: stored_def matches_def)
qed

lemma light_unseen:
  "shown seen (c\<lparr>light_changed := v\<rparr>) = shown seen c" "lock_seen b (c\<lparr>light_changed := v\<rparr>) = lock_seen b c"
  by (simp_all add: shown_def lock_seen_def cover_state_def)

lemma fw_ok_beside:
  assumes "task (the_gate s') = task (gate_of f)" "leaf_a (the_gate s') = leaf_a (gate_of f)"
    "leaf_b (the_gate s') = leaf_b (gate_of f)"
    and "\<And>seen. shown seen (controls (the_gate s')) = shown seen (controls (gate_of f))"
    and "\<And>b. lock_seen b (controls (the_gate s')) = lock_seen b (controls (gate_of f))"
    and "fw_ok fo f"
  shows "fw_ok fo (f\<lparr>site_of := s'\<rparr>)"
  using assms(6) by (simp add: fw_ok_def told_def stored_def matches_def assms(1-5))

context flash_store
begin

text \<open>Between two calls of \<open>step\<close>, what is in flash catches up with the snapshot.\<close>

lemma persist_cases:
  obtains (same) "persist fo snap f = f" "to_gate_state snap = saved f"
  | (written) d where "persist fo snap f = f\<lparr>flash_of := d, saved := to_gate_state snap\<rparr>"
      "boot_gate_state fo d = to_gate_state snap"
  | (failed) d where "persist fo snap f = f\<lparr>flash_of := d, save_failed := True\<rparr>"
proof -
  obtain r d where s: "save_gate_state fo (to_gate_state snap) (flash_of f) = (r, d)" by fastforce
  consider "to_gate_state snap = saved f" | "to_gate_state snap \<noteq> saved f" "r = Ok ()"
    | "to_gate_state snap \<noteq> saved f" "r \<noteq> Ok ()" by blast
  then show ?thesis
  proof cases
    case 1
    then show ?thesis using same by (simp add: persist_def)
  next
    case 2
    have "boot_gate_state fo d = to_gate_state snap"
      using saved_gate_state(1) s 2 by (simp add: boot_gate_state_def)
    with 2 s show ?thesis using written by (simp add: persist_def)
  next
    case 3
    with s have "persist fo snap f = f\<lparr>flash_of := d, save_failed := True\<rparr>"
      by (cases r) (simp_all add: persist_def)
    then show ?thesis by (rule failed)
  qed
qed

lemma persist_stored:
  assumes "fw_ok fo f" "task (gate_of f) = Returned snap"
  shows "stored fo (persist fo snap f)" "published (persist fo snap f) = published f"
    "save_failed (persist fo snap f) \<or> matches (saved (persist fo snap f)) (gate_of f)"
proof -
  have m: "matches (to_gate_state snap) (gate_of f)" and st: "stored fo f"
    using assms by (simp_all add: fw_ok_def told_def)
  show "stored fo (persist fo snap f)"
    by (rule persist_cases [of snap f]) (use st assms(2) in \<open>simp_all add: stored_def\<close>)
  show "published (persist fo snap f) = published f" by (rule persist_cases [of snap f]) simp_all
  show "save_failed (persist fo snap f) \<or> matches (saved (persist fo snap f)) (gate_of f)"
    by (rule persist_cases [of snap f]) (use m in simp_all)
qed

lemma touched_ok:
  assumes "touched b (controls (gate_of f)) (fst x)" "fw_ok fo f"
  shows "fw_ok fo (note_publication b (put_statics x f))"
proof -
  let ?c = "controls (gate_of f)"
  have l: "lock_seen v ?c \<Longrightarrow> lock_seen v (fst x)" for v
    using assms(1) exec_lock_seen by (auto simp: touched_def)
  have s: "shown c ?c \<Longrightarrow> b \<or> shown c (fst x)" for c
    using assms(1) exec_shown by (auto simp: touched_def)
  have "told (published (note_publication b (put_statics x f))) (gate_of (put_statics x f))"
    using assms(2) l s [of "last (published f)"]
    by (auto simp: fw_ok_def told_def matches_def note_publication_def put_statics_def lock_seen_def shown_def)
  moreover have "stored fo (note_publication b (put_statics x f))"
    using assms(2) l by (auto simp: fw_ok_def stored_def matches_def note_publication_def put_statics_def)
  ultimately show ?thesis by (simp add: fw_ok_def)
qed

lemma fw_task_ok:
  assumes "fw_task tu half fo f f'" "fw_ok fo f"
  shows "fw_ok fo f'"
  using assms(1)
proof (cases rule: fw_task.cases)
  case (wake w g')
  then show ?thesis
    using react_told [OF wake(2)] react_stored [OF wake(2), of fo] assms(2)
    by (simp add: fw_ok_def after_gate_def Let_def)
next
  case (call snap g')
  define p where "p = persist fo snap f"
  note ps = persist_stored [OF assms(2) call(2), folded p_def]
  have gp: "gate_react tu CallStep (gate_of p) = Some g'" "gate_of p = gate_of f"
    using call(3) by (simp_all add: p_def)
  have "told (published (after_gate g' p)) g'"
    using react_told [OF gp(1)] assms(2) ps(2) gp(2) by (simp add: fw_ok_def after_gate_def Let_def)
  moreover have "stored fo (after_gate g' p)" by (rule react_stored [OF gp(1) ps(1)]) (use ps(3) gp(2) in simp)
  ultimately show ?thesis using call(1) by (simp add: fw_ok_def p_def)
next
  case (lamp s')
  have "task (the_gate s') = task (gate_of f)" "leaf_a (the_gate s') = leaf_a (gate_of f)"
      "leaf_b (the_gate s') = leaf_b (gate_of f)" "\<exists>v. controls (the_gate s') = (controls (gate_of f))\<lparr>light_changed := v\<rparr>"
    using lamp(2) by (auto simp: warning_light_def lamp_run_eq Let_def split: lamp_task.splits if_splits option.splits
        intro: exI [of _ "light_changed (controls (gate_of f))"])
  then have "fw_ok fo (f\<lparr>site_of := s'\<rparr>)" by - (rule fw_ok_beside, auto simp: light_unseen assms(2))
  then show ?thesis using lamp(1) by simp
next
  case (tick t)
  then show ?thesis using assms(2) by (auto intro: fw_ok_beside)
next
  case (input_pin i low)
  obtain b x p where t: "f' = note_publication b (put_statics x (f\<lparr>panel_of := p\<rparr>))"
      "touched b (controls (gate_of f)) (fst x)"
    using sample_input_touches [of i low f] input_pin by blast
  have "fw_ok fo (f\<lparr>panel_of := p\<rparr>)" using assms(2) by (simp add: fw_ok_def stored_def)
  with t touched_ok [of b "f\<lparr>panel_of := p\<rparr>" x] show ?thesis by simp
next
  case (message m k)
  obtain b x where t: "f' = note_publication b (put_statics x (f\<lparr>link_of := k\<rparr>))"
      "touched b (controls (gate_of f)) (fst x)"
    using receive_message_touches [of m "f\<lparr>link_of := k\<rparr>"] message by auto
  have "fw_ok fo (f\<lparr>link_of := k\<rparr>)" using assms(2) by (simp add: fw_ok_def stored_def)
  with t touched_ok [of b "f\<lparr>link_of := k\<rparr>" x] show ?thesis by simp
next
  case (subscribe_topic t ts k)
  then show ?thesis using assms(2) by (simp add: fw_ok_def stored_def)
next
  case (announce k to_vec version k')
  then show ?thesis using assms(2) by (auto simp: fw_ok_def stored_def told_def shown_def lock_seen_def)
next
  case (provision cfg r d)
  have "boot_gate_state fo d = boot_gate_state fo (flash_of f)" if "r = Ok ()"
    using saved_config(2) provision(2) that by (simp add: boot_gate_state_def)
  then show ?thesis using assms(2) provision(1) by (auto simp: fw_ok_def stored_def)
qed

lemma fw_step_ok:
  assumes "fw_step tu half fo f f'" "fw_ok fo f"
  shows "fw_ok fo f'"
  using assms(1)
proof (cases rule: fw_step.cases)
  case a_task
  then show ?thesis by (rule fw_task_ok [OF _ assms(2)])
next
  case (network k)
  then show ?thesis using assms(2) by (simp add: fw_ok_def stored_def)
qed

lemma fw_start_ok: "fw_ok fo (fw_start tu fo d)"
proof -
  let ?g = "boot_gate tu (boot_gate_state fo d)"
  have "notified ?g = [] @ [] @ [controls ?g]" "task ?g = Returned (take_snapshot ?g)"
    by (simp_all add: boot_gate_def gate_of_settings_def Gate_new_def gate_settle_def notify_def take_snapshot_def Let_def
        split: prod.split)
  with told_now [of ?g "[]" "[]" "[]"] show ?thesis
    by (simp add: fw_ok_def fw_start_def Let_def stored_def boot_gate_snapshot)
qed

end

sublocale flash_store \<subseteq> running: inductive_invariant "\<lambda>f. \<exists>d. f = fw_start tu fo d" "fw_step tu half fo" "fw_ok fo" for tu half
  by unfold_locales (auto intro: fw_start_ok fw_step_ok)

context flash_store
begin

lemmas running_ok = running.reach_inv

end

section \<open>Publications and the outgoing queue\<close>

lemma fold_publish_state:
  "length (OUTGOING k) \<le> 16 \<Longrightarrow>
   OUTGOING (fold publish_state cs k) = newest 16 (OUTGOING k @ map state_message (concat (map state_messages cs)))"
proof (induction cs arbitrary: k)
  case (Cons c cs)
  have "length (OUTGOING (publish_state c k)) \<le> 16" by (simp add: publish_state_queue newest_def)
  from Cons.IH [OF this] show ?case by (simp add: publish_state_queue newest_newest)
qed (simp add: newest_all)

lemma execute_queue:
  "snd (execute cmd (c, k)) = (if is_bypass (Ok cmd) then publish_state (fst (execute cmd (c, k))) k else k)"
  by (cases cmd) (simp_all add: execute_def is_bypass_def Let_def)

lemma sample_input_queue:
  "link_of (sample_input i low f) =
     fold publish_state (drop (length (published f)) (published (sample_input i low f))) (link_of f)"
proof (cases i)
  case BypassButton
  then show ?thesis
    by (auto simp: sample_input_def sample_pin_def edge_sample_def level_sample_def edge_round_def arm_barrier_bypass_def execute_def note_publication_def
        put_statics_def Let_def split: prod.split)
qed (auto simp: sample_input_def sample_pin_def edge_sample_def level_sample_def edge_round_def level_step_def level_start_def level_round_def
    callbacks_exec on_controls_def note_publication_def put_statics_def Let_def split: prod.split option.split)

lemma receive_message_queue:
  "link_of (receive_message m f) =
     fold publish_state (drop (length (published f)) (published (receive_message m f))) (link_of f)"
proof (cases "parse (in_topic m) (in_payload m)")
  case (Ok cmd)
  then show ?thesis
    using execute_queue [of cmd "controls (gate_of f)" "link_of f"]
    by (auto simp: receive_message_def handle_message_def note_publication_def put_statics_def)
qed (simp_all add: receive_message_def handle_message_def note_publication_def put_statics_def is_bypass_def)

section \<open>Properties\<close>

text \<open>
  C11. The firmware refines the gate: every step of its tasks, on the flash and the
  queues and with all inputs, is a sequence of steps of the gate and the light,
  and in particular of the gate alone, so whatever holds of every reachable
  gate holds of the gate in the running firmware.
\<close>

theorem firmware_refines_gate:
  assumes "fw_reachable tu half fo f" "fw_step tu half fo f f'"
  shows "reachable tu (gate_of f) \<and> (site_step tu half)\<^sup>*\<^sup>* (site_of f) (site_of f') \<and>
    (gate_step tu)\<^sup>*\<^sup>* (gate_of f) (gate_of f')"
proof -
  have s: "site_reachable tu half (site_of f)" by (rule fw_reachable_site [OF assms(1)])
  have "(gate_step tu)\<^sup>*\<^sup>* (the_gate u) (the_gate v)" if "(site_step tu half)\<^sup>*\<^sup>* u v" "site_reachable tu half u" for u v
    using that
  proof (induction rule: rtranclp_induct)
    case (step v w)
    have "site_ok tu half v" using site_safe.reach_inv reach_steps [OF step(4,1)] by blast
    with step site_step_gate show ?case by (meson rtranclp_trans)
  qed simp
  with s site_reachable_gate [OF s] fw_step_site [OF assms(2)] show ?thesis by blast
qed


text \<open>
  Every publication is queued: what a reaction of the gate task, a sample of
  an input or a broker message publishes is appended, in order, to the queue
  towards the broker, of which the newest sixteen messages are kept.
\<close>

theorem publications_are_queued:
  assumes "length (OUTGOING (link_of f)) \<le> 16"
    and "f' = after_gate g' f \<or> f' = sample_input i low f \<or> f' = receive_message m f"
  shows "OUTGOING (link_of f') = newest 16 (OUTGOING (link_of f) @
    map state_message (concat (map state_messages (drop (length (published f)) (published f')))))"
proof -
  have "link_of f' = fold publish_state (drop (length (published f)) (published f')) (link_of f)"
    using assms(2) sample_input_queue [of i low f] receive_message_queue [of m f]
    by (auto simp: after_gate_def Let_def)
  then show ?thesis using fold_publish_state [OF assms(1)] by simp
qed

text \<open>
  C12. A power cycle resumes where the gate stands: whenever the gate waits for a
  command, no signal is pending and no write has failed, booting again from the
  flash gives a gate with the same leaf positions, wind lock and cover state.
\<close>

theorem power_cycle_resumes:
  assumes "flash_store fo" "fw_reachable tu half fo f" "\<not> save_failed f" "task (gate_of f) = AwaitCommand"
    and "command (controls (gate_of f)) = None" "wind_lock_reset (controls (gate_of f)) = None"
  shows "take_snapshot (gate_of (fw_start tu' fo (flash_of f))) = take_snapshot (gate_of f) \<and>
    cover_state (controls (gate_of (fw_start tu' fo (flash_of f)))) = cover_state (controls (gate_of f))"
proof -
  define g where "g = gate_of (fw_start tu' fo (flash_of f))"
  have m: "boot_gate_state fo (flash_of f) = saved f" "matches (saved f) (gate_of f)"
    using flash_store.running_ok [OF assms(1,2)] assms(3,4) by (simp_all add: fw_ok_def stored_def)
  have "to_gate_state (take_snapshot g) = saved f"
    using m(1) boot_gate_snapshot [of tu' "saved f"] by (simp add: g_def fw_start_def Let_def)
  also have "\<dots> = to_gate_state (take_snapshot (gate_of f))"
    using m(2) assms(5,6) by (simp add: matches_def lock_seen_def to_gate_state_def take_snapshot_def)
  finally have "to_gate_state (take_snapshot g) = to_gate_state (take_snapshot (gate_of f))" .
  then have snap: "take_snapshot g = take_snapshot (gate_of f)"
    by (simp add: to_gate_state_def take_snapshot_def)
  have "gate_ok tu (gate_of f)"
    using site_safe.reach_inv [OF fw_reachable_site [OF assms(2)]] by (simp add: site_ok_def)
  then have r: "at_rest (gate_of f)" using assms(4) by (simp add: gate_ok_def task_ok_def)
  have "gate_ok tu' g"
    using site_boot_ok [OF fw_start_site [of tu' fo "flash_of f"]] by (simp add: site_ok_def g_def)
  moreover have "\<exists>snap. task g = Returned snap"
    by (simp add: g_def fw_start_def Let_def boot_gate_def gate_of_settings_def Gate_new_def gate_settle_def notify_def
        split: prod.split)
  ultimately have "at_rest g" by (auto simp: gate_ok_def task_ok_def)
  with r snap have "cover_state (controls g) = cover_state (controls (gate_of f))"
    by (simp add: at_rest_def cover_state_def)
  with snap show ?thesis by (simp add: g_def)
qed

text \<open>
  Nothing is saved while the gate moves: from the start of a movement to its
  end, what the next boot would load stays what it was before the movement.
\<close>

theorem movement_is_not_persisted:
  assumes "flash_store fo" "(\<lambda>f f'. fw_step tu half fo f f' \<and> (\<exists>l at. task (gate_of f) = Driving l at))\<^sup>*\<^sup>* f f'"
    and "\<not> save_failed f'"
  shows "boot_gate_state fo (flash_of f') = boot_gate_state fo (flash_of f)"
proof -
  have keep: "save_failed h \<or> \<not> save_failed g \<and> boot_gate_state fo (flash_of h) = boot_gate_state fo (flash_of g)"
    if "fw_task tu half fo g h" "task (gate_of g) = Driving l at" for g h l at
    using that(1)
  proof (cases rule: fw_task.cases)
    case (provision cfg r d)
    have "boot_gate_state fo d = boot_gate_state fo (flash_of g)" if "r = Ok ()"
      using flash_store.saved_config(2) [OF assms(1)] provision(2) that by (simp add: boot_gate_state_def)
    with provision(1) show ?thesis by auto
  qed (use that(2) in \<open>simp_all add: after_gate_def Let_def sample_input_def receive_message_def note_publication_def
      put_statics_def split: prod.split\<close>)
  have "save_failed f' \<or> boot_gate_state fo (flash_of f') = boot_gate_state fo (flash_of f)"
    using assms(2)
  proof (induction rule: rtranclp_induct)
    case (step g h)
    then consider l at where "fw_task tu half fo g h" "task (gate_of g) = Driving l at"
      | k where "h = g\<lparr>link_of := k\<rparr>" by (auto elim: fw_step.cases)
    then show ?case using keep [of g h] step(3) by cases auto
  qed simp
  with assms(3) show ?thesis by simp
qed

text \<open>
  C20. The state of the running firmware is well formed at every moment: the
  atomics hold declared codes only, the command slot respects the wind lock, the
  relay log explains the levels of the pins, the waiting gate task has idle
  leaves and direction, and a moving one has published its direction and waits
  for the earliest deadline of its leaves.
\<close>

theorem firmware_state_well_formed:
  assumes "fw_reachable tu half fo f"
  shows "controls_ok (controls (gate_of f)) \<and> lock_respected (controls (gate_of f)) \<and>
    (\<forall>p. levels (dev (gate_of f)) p = level_in (switches (dev (gate_of f))) p) \<and>
    (case task (gate_of f) of
       Driving l t \<Rightarrow> current_direction (controls (gate_of f)) = direction_code (direction_of l) \<and>
         next_deadline (a_phase l) (b_phase l) = Some t
     | _ \<Rightarrow> state (leaf_a (gate_of f)) = Idle \<and> state (leaf_b (gate_of f)) = Idle \<and>
         current_direction (controls (gate_of f)) = DIR_IDLE)"
proof -
  have "gate_ok tu (gate_of f)"
    using site_safe.reach_inv [OF fw_reachable_site [OF assms]] by (simp add: site_ok_def)
  then show ?thesis
    by (auto simp: gate_ok_def wired_def hw_ok_def task_ok_def at_rest_def locals_ok_def split: gate_task.split)
qed

section \<open>A concrete device\<close>

text \<open>A flash with a half-open gate; after the first call of \<open>step\<close> the gate waits.\<close>

definition half_open_ram :: ram where
  "half_open_ram = blank_ram\<lparr>items := [GATE_STATE_KEY \<mapsto> [3, 9, 0]]\<rparr>"

definition fw_waiting :: "ram fw" where
  "fw_waiting = (let f = fw_start mhz_clock ram_ops half_open_ram in
     after_gate ((gate_of f)\<lparr>task := AwaitCommand\<rparr>) f)"

lemma half_open_state:
  "boot_gate_state ram_ops half_open_ram = \<lparr>state_leaf_a = 3, state_leaf_b = 9, state_wind_locked = False\<rparr>"
  by (simp add: half_open_ram_def boot_gate_state_def load_gate_state_def open_store_def store_load_gate_state_def
      fetch_as_def flatten_def ram_ops_def blank_ram_def ram_state_from_bytes_def)

lemma fw_start_facts:
  assumes "f = fw_start tu fo d"
  shows "task (gate_of f) = Returned (take_snapshot (gate_of f))" "saved f = to_gate_state (take_snapshot (gate_of f))"
    "command (controls (gate_of f)) = None" "wind_lock_reset (controls (gate_of f)) = None"
    "pending (gate_of f) = (if state_wind_locked (boot_gate_state fo d) then Some Open else None)"
    "flash_of f = d" "\<not> save_failed f" "OUTGOING (link_of f) = map state_message (state_messages (controls (gate_of f)))"
  by (simp_all add: assms fw_start_def boot_gate_def gate_of_settings_def Gate_new_def gate_settle_def notify_def Let_def
      take_snapshot_def Controls_new_def signal_new_def link_new_def publish_state_queue newest_def state_messages_def
      split: prod.split)

lemma fw_waiting_facts:
  "fw_reachable mhz_clock half ram_ops fw_waiting"
  "task (gate_of fw_waiting) = AwaitCommand" "flash_of fw_waiting = half_open_ram" "\<not> save_failed fw_waiting"
  "command (controls (gate_of fw_waiting)) = None" "wind_lock_reset (controls (gate_of fw_waiting)) = None"
proof -
  define f where "f = fw_start mhz_clock ram_ops half_open_ram"
  note ff = fw_start_facts [OF f_def]
  have w: "fw_waiting = after_gate ((gate_of f)\<lparr>task := AwaitCommand\<rparr>) f" by (simp add: fw_waiting_def f_def Let_def)
  have "gate_react mhz_clock CallStep (gate_of f) = Some ((gate_of f)\<lparr>task := AwaitCommand\<rparr>)"
    using ff(1,5) by (simp add: gate_react_def half_open_state)
  from fw_step.a_task [OF fw_task.call [OF ff(1) this, of half ram_ops]] have "fw_step mhz_clock half ram_ops f fw_waiting"
    using ff(2) by (simp add: persist_def w)
  moreover have "fw_reachable mhz_clock half ram_ops f" by (rule reach_init) (auto simp: f_def)
  ultimately show "fw_reachable mhz_clock half ram_ops fw_waiting" by (rule reach_step [rotated])
  show "task (gate_of fw_waiting) = AwaitCommand" "flash_of fw_waiting = half_open_ram" "\<not> save_failed fw_waiting"
    "command (controls (gate_of fw_waiting)) = None" "wind_lock_reset (controls (gate_of fw_waiting)) = None"
    using ff by (simp_all add: w after_gate_def Let_def)
qed

theorem firmware_refines_gate_witness: "reachable mhz_clock (gate_of fw_waiting)"
  using firmware_refines_gate [OF fw_waiting_facts(1) fw_step.network] by blast

theorem firmware_state_well_formed_witness:
  "current_direction (controls (gate_of fw_waiting)) = DIR_IDLE \<and> lock_respected (controls (gate_of fw_waiting))"
  using firmware_state_well_formed [OF fw_waiting_facts(1)] fw_waiting_facts(2) by simp


theorem publications_are_queued_witness:
  "let f = fw_start mhz_clock ram_ops half_open_ram;
       m = \<lparr>in_topic = BARRIER_BYPASS_COMMAND_TOPIC, in_payload = ON_PAYLOAD\<rparr>
   in OUTGOING (link_of (receive_message m f)) = map state_message
        (state_messages (controls (gate_of f)) @ state_messages (set_barrier_bypass True (controls (gate_of f))))"
proof -
  let ?f = "fw_start mhz_clock ram_ops half_open_ram"
  let ?m = "\<lparr>in_topic = BARRIER_BYPASS_COMMAND_TOPIC, in_payload = ON_PAYLOAD\<rparr>"
  have "distinct COMMAND_TOPICS" by (rule topics_distinct)
  then have p: "parse BARRIER_BYPASS_COMMAND_TOPIC ON_PAYLOAD = Ok (SetBarrierBypass True)"
    by (auto simp: parse_eq COMMAND_TOPICS_def)
  have l: "length (OUTGOING (link_of ?f)) = 3" by (simp add: fw_start_facts [OF refl] state_messages_def)
  have "published (receive_message ?m ?f) = published ?f @ [set_barrier_bypass True (controls (gate_of ?f))]"
    by (simp add: receive_message_def note_publication_def is_bypass_def p put_statics_def handle_message_def execute_def
        Let_def)
  with publications_are_queued [of ?f "receive_message ?m ?f" _ _ _ ?m] l show ?thesis
    by (simp add: newest_all fw_start_facts [OF refl] state_messages_def)
qed

theorem power_cycle_resumes_witness:
  "take_snapshot (gate_of (fw_start mhz_clock ram_ops (flash_of fw_waiting))) = take_snapshot (gate_of fw_waiting)"
  using power_cycle_resumes [OF ram_store.flash_store_axioms fw_waiting_facts(1,4,2,5,6)] by blast

theorem movement_is_not_persisted_witness:
  "boot_gate_state ram_ops (flash_of (fw_waiting\<lparr>site_of := site_opening\<rparr>)) =
     \<lparr>state_leaf_a = 3, state_leaf_b = 9, state_wind_locked = False\<rparr>"
proof -
  let ?f = "fw_waiting\<lparr>site_of := site_opening\<rparr>"
  have d: "\<exists>l at. task (gate_of ?f) = Driving l at" by (simp add: site_opening_def gate_opening_task)
  from fw_step.a_task [OF fw_task.tick [of mhz_clock 0 ram_ops ?f 14000000]] d
  have "(\<lambda>f f'. fw_step mhz_clock 0 ram_ops f f' \<and> (\<exists>l at. task (gate_of f) = Driving l at))\<^sup>*\<^sup>* ?f
     (?f\<lparr>site_of := (site_of ?f)\<lparr>the_gate := (gate_of ?f)\<lparr>dev := clock_advance 14000000 (dev (gate_of ?f))\<rparr>\<rparr>\<rparr>)"
    by (intro r_into_rtranclp) blast
  from movement_is_not_persisted [OF ram_store.flash_store_axioms this] fw_waiting_facts(3,4) half_open_state
  show ?thesis by simp
qed

end
