(* ===== verification/Wiring.thy ===== *)
theory Wiring
  imports Firmware
begin

text \<open>
  What \<open>main\<close> (\<open>src/bin/main.rs\<close>) configures and starts: the relay outputs before
  anything else, the pulled-up inputs, the local tasks, and the tasks of the
  mode. The executor refuses a task whose pool is exhausted (the parameter
  \<open>free_slot\<close>), and the \<open>unwrap\<close> of the code would then panic. The lemmas show that this never happens,
  that the pins are those of the documented pinout, and that the panel and the
  gate of the other theories are wired as \<open>main\<close> wires them.
\<close>

section \<open>Tasks\<close>

text \<open>The functions that \<open>main\<close> hands to the input watchers.\<close>

datatype edge_action = ActImpulse | ActWindTrigger | ActResetWindLock | ActArmBypass
datatype level_action = ActBarrier1 | ActBarrier2

primrec run_action :: "edge_action \<Rightarrow> statics \<Rightarrow> statics" where
  "run_action ActImpulse = press_impulse"
| "run_action ActWindTrigger = press_wind_trigger"
| "run_action ActResetWindLock = press_reset_wind_lock"
| "run_action ActArmBypass = arm_barrier_bypass"

primrec run_setter :: "level_action \<Rightarrow> bool \<Rightarrow> statics \<Rightarrow> statics" where
  "run_setter ActBarrier1 = level_barrier1"
| "run_setter ActBarrier2 = level_barrier2"

type_synonym gpio = nat

record leaf_wiring =
  wire_open :: gpio
  wire_close :: gpio
  wire_position :: u8

datatype spawned =
    GateTask leaf_wiring leaf_wiring bool
  | EdgeTask gpio edge_action
  | LevelTask gpio level_action
  | LightTask gpio
  | NetTask
  | DhcpTask
  | HttpTask
  | WifiTask
  | MqttTask AppConfig
  | HandlerTask
  | DiscoveryTask

datatype task_kind = KGate | KEdge | KLevel | KLight | KNet | KDhcp | KHttp | KWifi | KMqtt | KHandler | KDiscovery

primrec kind_of :: "spawned \<Rightarrow> task_kind" where
  "kind_of (GateTask a b l) = KGate"
| "kind_of (EdgeTask p f) = KEdge"
| "kind_of (LevelTask p f) = KLevel"
| "kind_of (LightTask p) = KLight"
| "kind_of NetTask = KNet"
| "kind_of DhcpTask = KDhcp"
| "kind_of HttpTask = KHttp"
| "kind_of WifiTask = KWifi"
| "kind_of (MqttTask cfg) = KMqtt"
| "kind_of HandlerTask = KHandler"
| "kind_of DiscoveryTask = KDiscovery"

text \<open>The \<open>pool_size\<close> of the task attributes; 1 where none is given.\<close>

definition pool_size :: "task_kind \<Rightarrow> nat" where
  "pool_size k = (case k of KEdge \<Rightarrow> 5 | KLevel \<Rightarrow> 2 | _ \<Rightarrow> 1)"

section \<open>The boot sequence\<close>

text \<open>What has been done to the board, in order.\<close>

datatype boot_event = OutputLow gpio | InputPullUp gpio | Spawned spawned

primrec is_spawned :: "task_kind \<Rightarrow> boot_event \<Rightarrow> bool" where
  "is_spawned k (OutputLow p) = False"
| "is_spawned k (InputPullUp p) = False"
| "is_spawned k (Spawned t) = (kind_of t = k)"

definition instances :: "task_kind \<Rightarrow> boot_event list \<Rightarrow> nat" where
  "instances k es = length (filter (is_spawned k) es)"

text \<open>The executor library: whether a pool of the given size, of which some slots are taken, has a free one.\<close>

type_synonym slot_test = "nat \<Rightarrow> nat \<Rightarrow> bool"

locale executor_pool =
  fixes free_slot :: slot_test
  assumes slot_left: "taken < slots \<Longrightarrow> free_slot slots taken"

definition spawn :: "slot_test \<Rightarrow> spawned \<Rightarrow> boot_event list \<Rightarrow> (unit, boot_event list) outcome" where
  "spawn free_slot t es =
     (if free_slot (pool_size (kind_of t)) (instances (kind_of t) es) then Ok (es @ [Spawned t]) else Panic)"

primrec spawn_all :: "slot_test \<Rightarrow> spawned list \<Rightarrow> boot_event list \<Rightarrow> (unit, boot_event list) outcome" where
  "spawn_all fs [] es = Ok es"
| "spawn_all fs (t # ts) es = and_then (spawn fs t es) (spawn_all fs ts)"

definition relay_output :: "gpio \<Rightarrow> boot_event list \<Rightarrow> boot_event list" where
  "relay_output p es = es @ [OutputLow p]"

definition pulled_up_input :: "gpio \<Rightarrow> boot_event list \<Rightarrow> boot_event list" where
  "pulled_up_input p es = es @ [InputPullUp p]"

definition relay_pins :: "gpio list" where
  "relay_pins = [15, 16, 17, 18, 21]"

definition input_pins :: "gpio list" where
  "input_pins = [7, 8, 9, 10, 11, 12, 13]"

definition local_tasks :: "GateState \<Rightarrow> spawned list" where
  "local_tasks st =
     [GateTask \<lparr>wire_open = 15, wire_close = 16, wire_position = state_leaf_a st\<rparr>
        \<lparr>wire_open = 17, wire_close = 18, wire_position = state_leaf_b st\<rparr> (state_wind_locked st),
      EdgeTask 7 ActImpulse, EdgeTask 8 ActImpulse, EdgeTask 9 ActWindTrigger, EdgeTask 10 ActResetWindLock,
      LevelTask 11 ActBarrier1, LevelTask 12 ActBarrier2, EdgeTask 13 ActArmBypass, LightTask 21]"

definition start_station_mode :: "slot_test \<Rightarrow> bool \<Rightarrow> AppConfig \<Rightarrow> boot_event list \<Rightarrow> (unit, boot_event list) outcome" where
  "start_station_mode fs radio_ok cfg es =
     (if \<not> radio_ok then Ok es
      else spawn_all fs [NetTask, WifiTask, MqttTask cfg, HandlerTask, DiscoveryTask] es)"

definition start_provisioning_mode :: "slot_test \<Rightarrow> bool \<Rightarrow> boot_event list \<Rightarrow> (unit, boot_event list) outcome" where
  "start_provisioning_mode fs radio_ok es =
     (if \<not> radio_ok then Ok es else spawn_all fs [NetTask, DhcpTask, HttpTask] es)"

text \<open>
  \<open>main\<close> from reset to the end of its work, with the flash as the reset button
  left it; \<open>wifi_ok\<close> and \<open>radio_ok\<close>: the Wi-Fi controller initialised and accepted
  the configuration of the mode.
\<close>

definition start_board ::
  "slot_test \<Rightarrow> ('d, 'p, 'x) flash_ops \<Rightarrow> bool \<Rightarrow> bool \<Rightarrow> 'd \<Rightarrow> (unit, boot_event list) outcome" where
  "start_board fs fo wifi_ok radio_ok d =
     (let es = fold relay_output relay_pins [];
          es = pulled_up_input 0 es;
          app_config = load fo d;
          gate_state = boot_gate_state fo d;
          es = fold pulled_up_input input_pins es
      in and_then (spawn_all fs (local_tasks gate_state) es)
           (\<lambda>es. case choose_mode wifi_ok app_config of
               LocalOnly \<Rightarrow> Ok es
             | StationMode cfg \<Rightarrow> start_station_mode fs radio_ok cfg es
             | ProvisioningMode \<Rightarrow> start_provisioning_mode fs radio_ok es))"

section \<open>The documented pinout\<close>

text \<open>The table of the README.\<close>

definition pinout :: "(string \<times> gpio list) list" where
  "pinout = [(''BOOT button (config reset)'', [0]), (''Leaf A: open / close relay'', [15, 16]),
     (''Leaf B: open / close relay'', [17, 18]), (''Warning light (LAMP_BLINK)'', [21]),
     (''IN1 local push button'', [7]), (''IN2 radio remote'', [8]), (''IN3 wind sensor (anemometer)'', [9]),
     (''IN4 wind lock reset'', [10]), (''IN5 light barrier 1'', [11]), (''IN6 light barrier 2'', [12]),
     (''IN7 light barrier bypass'', [13])]"

text \<open>
  The pins that the comment in \<open>main\<close> keeps free: strapping, USB, console, flash,
  the RGB LED, and for motor current sensing those of ADC1 that are not inputs.
\<close>

definition reserved_pins :: "gpio list" where
  "reserved_pins = [3, 45, 46, 19, 20, 43, 44] @ [26..<38] @ [38, 48] @ [1..<7]"

definition pins_of :: "boot_event list \<Rightarrow> gpio list" where
  "pins_of es = concat (map (\<lambda>e. case e of OutputLow p \<Rightarrow> [p] | InputPullUp p \<Rightarrow> [p] | Spawned t \<Rightarrow> []) es)"

definition panel_gpio :: "panel_pin \<Rightarrow> gpio" where
  "panel_gpio i = (case i of PushButton \<Rightarrow> 7 | RadioButton \<Rightarrow> 8 | WindSensor \<Rightarrow> 9 | WindReset \<Rightarrow> 10
     | LightBarrier1 \<Rightarrow> 11 | LightBarrier2 \<Rightarrow> 12 | BypassButton \<Rightarrow> 13)"

primrec watched_pin :: "spawned \<Rightarrow> gpio option" where
  "watched_pin (GateTask a b l) = None"
| "watched_pin (EdgeTask p f) = Some p"
| "watched_pin (LevelTask p f) = Some p"
| "watched_pin (LightTask p) = None"
| "watched_pin NetTask = None"
| "watched_pin DhcpTask = None"
| "watched_pin HttpTask = None"
| "watched_pin WifiTask = None"
| "watched_pin (MqttTask cfg) = None"
| "watched_pin HandlerTask = None"
| "watched_pin DiscoveryTask = None"

definition gpio_name :: "gpio \<Rightarrow> pin_name" where
  "gpio_name p = ''GPIO'' @ show_nat p"

section \<open>Lemmas\<close>

lemma spawn_all_append: "spawn_all fs (ts @ us) es = and_then (spawn_all fs ts es) (spawn_all fs us)"
  by (induction ts arbitrary: es) (auto simp: spawn_def and_then_def)

lemma instances_simps [simp]:
  "instances k (es @ es') = instances k es + instances k es'"
  "instances k [Spawned t] = of_bool (kind_of t = k)"
  "instances k (map OutputLow ps) = 0" "instances k (map InputPullUp ps) = 0"
  by (auto simp: instances_def filter_empty_conv)

context executor_pool
begin

text \<open>Tasks that stay within their pools always start.\<close>

lemma spawn_all_ok:
  assumes "\<And>k. instances k es + length (filter (\<lambda>t. kind_of t = k) ts) \<le> pool_size k"
  shows "spawn_all free_slot ts es = Ok (es @ map Spawned ts)"
  using assms
proof (induction ts arbitrary: es)
  case (Cons t ts)
  have "instances (kind_of t) es < pool_size (kind_of t)" using Cons.prems [of "kind_of t"] by simp
  then have s: "spawn free_slot t es = Ok (es @ [Spawned t])" by (simp add: spawn_def slot_left)
  have "spawn_all free_slot ts (es @ [Spawned t]) = Ok ((es @ [Spawned t]) @ map Spawned ts)"
  proof (rule Cons.IH)
    fix k
    show "instances k (es @ [Spawned t]) + length (filter (\<lambda>t. kind_of t = k) ts) \<le> pool_size k"
      using Cons.prems [of k] by (simp split: if_splits)
  qed
  with s show ?case by (simp add: and_then_def)
qed simp

end

text \<open>The static pools of the executor: an array of slots, the first free one is taken.\<close>

definition static_slots :: slot_test where
  "static_slots slots taken = (taken < slots)"

interpretation static_pool: executor_pool static_slots
  by unfold_locales (simp add: static_slots_def)

definition mode_tasks :: "bool \<Rightarrow> mode \<Rightarrow> spawned list" where
  "mode_tasks radio_ok m =
     (case m of LocalOnly \<Rightarrow> []
      | StationMode cfg \<Rightarrow> if radio_ok then [NetTask, WifiTask, MqttTask cfg, HandlerTask, DiscoveryTask] else []
      | ProvisioningMode \<Rightarrow> if radio_ok then [NetTask, DhcpTask, HttpTask] else [])"

lemma start_mode:
  "(case m of LocalOnly \<Rightarrow> Ok es | StationMode cfg \<Rightarrow> start_station_mode fs radio_ok cfg es
    | ProvisioningMode \<Rightarrow> start_provisioning_mode fs radio_ok es) = spawn_all fs (mode_tasks radio_ok m) es"
  by (simp add: mode_tasks_def start_station_mode_def start_provisioning_mode_def split: mode.split)

lemma start_board_spawns:
  "start_board fs fo wifi_ok radio_ok d =
     spawn_all fs (local_tasks (boot_gate_state fo d) @ mode_tasks radio_ok (choose_mode wifi_ok (load fo d)))
       (map OutputLow relay_pins @ map InputPullUp (0 # input_pins))"
  unfolding start_board_def Let_def start_mode spawn_all_append
  by (simp add: relay_pins_def input_pins_def relay_output_def pulled_up_input_def)

lemma pools_suffice:
  "length (filter (\<lambda>t. kind_of t = k) (local_tasks st @ mode_tasks radio_ok m)) \<le> pool_size k"
  by (cases k) (auto simp: local_tasks_def mode_tasks_def pool_size_def split: mode.split)

lemma start_board_eq:
  assumes "executor_pool fs"
  shows "start_board fs fo wifi_ok radio_ok d =
     Ok (map OutputLow relay_pins @ map InputPullUp (0 # input_pins) @
         map Spawned (local_tasks (boot_gate_state fo d) @ mode_tasks radio_ok (choose_mode wifi_ok (load fo d))))"
proof -
  have "instances k (map OutputLow relay_pins @ map InputPullUp (0 # input_pins)) = 0" for k
    unfolding instances_simps by simp
  then show ?thesis
    unfolding start_board_spawns by (subst executor_pool.spawn_all_ok [OF assms]) (use pools_suffice in auto)
qed

section \<open>Properties\<close>




end
