(* ===== verification/Outbound.thy ===== *)
theory Outbound
  imports MqttLink
begin

text \<open>
  What the connection task of \<open>src/infra/mqtt_client.rs\<close> puts on the wire, seen from
  the broker. The broker's reading is the specification: it splits the byte
  stream into packets and keeps the topic and payload of every retained PUBLISH.
  The lemmas show that each operation of the client appends whole packets to the
  stream, and that a publication leaves the outgoing queue exactly when it is
  appended; both hold while the transport takes every packet in full.

  An iteration of the connection loop is split at its only wait: \<open>attempt\<close> polls the
  three futures once.
\<close>

section \<open>The broker's reading of the stream\<close>

function packets :: "bytes \<Rightarrow> bytes list" where
  "packets bs =
     (case complete_packet_len bs of
        Ok (Some n) \<Rightarrow> take n bs # packets (drop n bs)
      | _ \<Rightarrow> [])"
  by auto
termination
  by (relation "measure length") (auto dest!: complete_packet_len_facts(2))

declare packets.simps [simp del]

definition retained_message :: "bytes \<Rightarrow> (str \<times> bytes) option" where
  "retained_message pkt =
     (if pkt = [] \<or> drop_bit 4 (hd pkt) \<noteq> 3 then None
      else (case Publish_decode pkt of
              Ok p \<Rightarrow> if pub_retain p then Some (pub_topic p, pub_payload p) else None
            | _ \<Rightarrow> None))"

abbreviation retained :: "bytes list \<Rightarrow> (str \<times> bytes) list" where
  "retained \<equiv> List.map_filter retained_message"

text \<open>The retained message of a topic: the last one; an empty payload removes it.\<close>

definition retain :: "(str \<times> bytes) list \<Rightarrow> (str \<rightharpoonup> bytes) \<Rightarrow> str \<rightharpoonup> bytes" where
  "retain ms view = foldl (\<lambda>v (t, p). v(t := if p = [] then None else Some p)) view ms"

lemma packets_concat:
  assumes "\<forall>p \<in> set ps. packet_bytes p"
  shows "packets (concat ps) = ps"
  using assms
proof (induction ps)
  case Nil
  show ?case by (simp add: packets.simps complete_packet_len_def packet_len_loop.simps get_def Let_def)
next
  case (Cons p ps)
  then have "complete_packet_len (p @ concat ps) = Ok (Some (length p))" by (simp add: packet_bytes_facts(2))
  with Cons show ?case by (subst packets.simps) simp
qed

lemma retained_append [simp]: "retained (ps @ qs) = retained ps @ retained qs"
  by (simp add: map_filter_def)

lemma retained_single [simp]: "retained [p] = (case retained_message p of None \<Rightarrow> [] | Some m \<Rightarrow> [m])"
  by (simp add: map_filter_simps split: option.split)

lemma retained_Nil [simp]: "retained [] = []"
  by (simp add: map_filter_simps)

lemma retain_append [simp]: "retain (ms @ ms') view = retain ms' (retain ms view)"
  by (simp add: retain_def)

lemma retain_Nil [simp]: "retain [] view = view"
  by (simp add: retain_def)

lemma retain_Cons [simp]: "retain ((t, p) # ms) view = retain ms (view(t := if p = [] then None else Some p))"
  by (simp add: retain_def)

text \<open>The last messages on distinct topics decide, whatever was retained before.\<close>

lemma retain_untouched: "t \<notin> fst ` set ms \<Longrightarrow> retain ms view t = view t"
  by (induction ms arbitrary: view) auto

lemma retain_told:
  assumes "distinct (map fst ms)" "(t, p) \<in> set ms" "p \<noteq> []"
  shows "retain ms view t = Some p"
  using assms
proof (induction ms arbitrary: view)
  case (Cons m ms)
  show ?case
  proof (cases "m = (t, p)")
    case True
    then have "t \<notin> fst ` set ms" using Cons.prems(1) by auto
    with True Cons.prems(3) show ?thesis by (simp add: retain_untouched)
  next
    case False
    with Cons show ?thesis by (cases m) auto
  qed
qed simp

section \<open>Kinds of packets\<close>

lemma retained_other:
  "drop_bit 4 hdr \<noteq> (3 :: u8) \<Longrightarrow> retained_message (frame hdr c) = None"
  by (simp add: retained_message_def frame_def)

lemma retained_publish:
  assumes "publish_ok p" "length (publish_content p) < 268435456"
  shows "retained_message (publish_bytes p) = (if pub_retain p then Some (pub_topic p, pub_payload p) else None)"
  using Publish_decode_frame [OF assms, of "[]"]
  by (simp add: retained_message_def publish_bytes_def publish_header_bits) (simp add: frame_def publish_header_bits)

lemma small_packets:
  "packet_bytes [0xC0, 0]" "retained_message [0xC0, 0] = None"
  "packet_bytes (puback pid)" "retained_message (puback pid) = None"
proof -
  have c: "frame 0xC0 [] = [0xC0, 0]" by (simp add: frame_def vbi.simps)
  have a: "frame 0x40 (to_be_bytes pid) = puback pid"
    by (simp add: frame_def puback_def to_be_bytes_def vbi.simps)
  show "packet_bytes [0xC0, 0]" unfolding packet_bytes_def c [symmetric] by (intro exI conjI, rule refl) simp
  show "packet_bytes (puback pid)"
    unfolding packet_bytes_def a [symmetric] by (intro exI conjI, rule refl) (simp add: to_be_bytes_def)
  show "retained_message [0xC0, 0] = None" "retained_message (puback pid) = None"
    by (simp_all add: retained_message_def puback_def)
qed

section \<open>What an operation of the client transmits\<close>

definition transmits :: "'e MqttClient \<Rightarrow> 'e MqttClient \<Rightarrow> bytes list \<Rightarrow> bool" where
  "transmits c c' ps \<longleftrightarrow> sends c' \<and> client_ok c' \<and> length (tx_buffer c') = length (tx_buffer c) \<and>
     sent (transport c') = sent (transport c) @ concat ps \<and> (\<forall>p \<in> set ps. packet_bytes p)"

lemma transmits_trans: "transmits c c1 ps \<Longrightarrow> transmits c1 c2 qs \<Longrightarrow> transmits c c2 (ps @ qs)"
  by (auto simp: transmits_def)

lemma transmits_refl: "sends c \<Longrightarrow> client_ok c \<Longrightarrow> transmits c c []"
  by (simp add: transmits_def)

lemma transmits_mid:
  "transmits c c1 ps \<Longrightarrow> sends c2 \<Longrightarrow> client_ok c2 \<Longrightarrow> tx_buffer c2 = tx_buffer c1 \<Longrightarrow>
   sent (transport c2) = sent (transport c1) \<Longrightarrow> transmits c c2 ps"
  by (simp add: transmits_def)

lemma ping_transmits:
  assumes "client_ok c" "sends c" "4 \<le> length (tx_buffer c)"
  obtains c' ps where "keep_alive_ping c = (Some (Ok ()), c')" "transmits c c' ps" "retained ps = []"
proof -
  obtain c' where c': "keep_alive_ping c = (Some (Ok ()), c')" "client_ok c'" "sends c'"
      "length (tx_buffer c') = length (tx_buffer c)"
      "sent (transport c') = sent (transport c) @ (if ping_due c then [0xC0, 0] else [])"
    using ping_step [OF assms] by metis
  show ?thesis
    by (rule that [OF c'(1), of "if ping_due c then [[0xC0, 0]] else []"])
      (use c' small_packets in \<open>simp_all add: transmits_def\<close>)
qed

lemma ack_transmits:
  assumes "client_ok c" "sends c" "4 \<le> length (tx_buffer c)"
  obtains c' ps where "acknowledge p c = (Some (Ok ()), c')" "transmits c c' ps" "retained ps = []"
    "rx_len c' = rx_len c" "rx_consumed c' = rx_consumed c"
proof -
  obtain c' where c': "acknowledge p c = (Some (Ok ()), c')"
      "sent (transport c') = sent (transport c) @ ack_of p" "sends c'" "rx_buffer c' = rx_buffer c"
      "rx_len c' = rx_len c" "rx_consumed c' = rx_consumed c" "incoming (transport c') = incoming (transport c)"
      "length (tx_buffer c') = length (tx_buffer c)"
    using ack_step [OF assms(2,3), of p] .
  have "client_ok c'" using inbox_cong [of c' c] c' assms(1) by simp
  then show ?thesis
    by (intro that [OF c'(1), of "if ack_of p = [] then [] else [ack_of p]"])
      (use c' small_packets in \<open>auto simp: transmits_def ack_of_def split: QoS.split option.split\<close>)
qed

text \<open>Receiving transmits acknowledgements only, whatever arrives and however it ends.\<close>

lemma poll_body_transmits:
  assumes "client_ok c" "sends c" "4 \<le> length (tx_buffer c)" "poll_body c = (r, c')"
  obtains ps where "transmits c c' ps" "retained ps = []"
proof -
  obtain r2 c2 where q: "next_packet c = (r2, c2)" by fastforce
  have x: "rx_only c c2" by (rule next_packet_rx_only [OF assms(1) q])
  have ok: "client_ok c2" by (rule next_packet_ok [OF assms(1) q])
  have s: "sends c2" "length (tx_buffer c2) = length (tx_buffer c)" using x assms(2) by (simp_all add: rx_only_def sends_def)
  have t: "transmits c c2 []" using x s ok by (simp add: transmits_def rx_only_def)
  have len: "n \<le> rx_len c2" if "n = rx_consumed c2 \<or> r2 = Some (Ok (Some n))" for n
    using that next_packet_keeps [OF assms(1) q, of n] ok by (auto simp: client_ok_def)
  show ?thesis
  proof (rule poll_body_ends [OF q assms(4)])
    fix n assume n: "c' = c2\<lparr>rx_consumed := n\<rparr>" "n = rx_consumed c2 \<or> r2 = Some (Ok (Some n))"
    have "client_ok c'" using ok len [OF n(2)] n(1) by (simp add: client_ok_def)
    with t n(1) have "transmits c c' []" by (intro transmits_mid [OF t]) (simp_all add: transmits_def sends_def)
    then show ?thesis by (rule that) simp
  next
    fix p r3 c3 n
    assume a: "acknowledge p c2 = (r3, c3)" "c' = c3\<lparr>rx_consumed := n\<rparr>" "n = rx_consumed c3 \<or> r2 = Some (Ok (Some n))"
    obtain ps where ps: "transmits c2 c3 ps" "retained ps = []" "rx_len c3 = rx_len c2" "rx_consumed c3 = rx_consumed c2"
      using ack_transmits [OF ok s(1), of p] s(2) assms(3) a(1) by auto
    have "client_ok c3" "n \<le> rx_len c3" using ps len [of n] a(3) by (auto simp: transmits_def)
    then have "client_ok c'" using a(2) by (simp add: client_ok_def)
    then have "transmits c2 c' ps" using ps(1) a(2) by (intro transmits_mid [OF ps(1)]) (simp_all add: transmits_def sends_def)
    from transmits_trans [OF t this] ps(2) show ?thesis by (intro that) simp_all
  qed
qed

lemma poll_transmits:
  assumes "client_ok c" "sends c" "4 \<le> length (tx_buffer c)" "poll c = (r, c')"
  obtains ps where "transmits c c' ps" "retained ps = []"
proof -
  obtain c1 qs where c1: "keep_alive_ping c = (Some (Ok ()), c1)" "transmits c c1 qs" "retained qs = []"
    using ping_transmits [OF assms(1-3)] .
  have o: "client_ok c1" "sends c1" "4 \<le> length (tx_buffer c1)" using c1(2) assms(3) by (simp_all add: transmits_def)
  have "poll_body c1 = (r, c')" using assms(2,4) c1(1) by (simp add: poll_def bind_def sends_def)
  from poll_body_transmits [OF o this] obtain ps where "transmits c1 c' ps" "retained ps = []" .
  with c1 show ?thesis using that [OF transmits_trans] by simp
qed

text \<open>A packet that was encoded is transmitted whole; one that cannot be encoded is an error.\<close>

lemma send_packet_transmits:
  assumes "client_ok c" "sends c" "encodes enc (tx_buffer c) pkt" "packet_bytes pkt"
  obtains c' where "send_packet enc c = (Some (Ok ()), c')" "transmits c c' [pkt]"
proof -
  obtain c' where c': "send_packet enc c = (Some (Ok ()), c')" "sent (transport c') = sent (transport c) @ pkt"
      "sends c'" "length (tx_buffer c') = length (tx_buffer c)"
    using send_packet_ok [OF assms(2,3)] by metis
  show ?thesis
    by (rule that [OF c'(1)])
      (use c' assms(1,4) send_packet_rx(2) [OF c'(1)] in \<open>simp add: transmits_def\<close>)
qed

lemma send_packet_fails:
  assumes "sends c" "fst (enc (tx_buffer c)) = Err e"
  shows "fst (send_packet enc c) \<noteq> Some (Ok ())"
  using assms by (cases e) (auto simp: send_packet_def sends_def bind_def encode_tx_def split: prod.split)

lemma send_packet_finishes: "sends c \<Longrightarrow> fst (send_packet enc c) \<noteq> None"
  by (simp add: send_packet_def sends_def bind_def encode_tx_def send_bytes_def net_send_def
      split: prod.split outcome.split)

lemma publish_transmits:
  assumes "client_ok c" "sends c" "length (tx_buffer c) = 512" "utf8_valid t" "q = AtLeastOnce \<or> q = ExactlyOnce"
    and "publish t p q True c = (Some (Ok ()), c')"
  obtains pkt where "transmits c c' [pkt]" "retained_message pkt = Some (t, p)"
proof -
  let ?c = "c\<lparr>next_packet_id := next_id (next_packet_id c)\<rparr>"
  define pub where "pub = \<lparr>pub_topic = t, pub_qos = q, pub_retain = True, pub_payload = p,
    pub_packet_id = Some (next_id (next_packet_id c))\<rparr>"
  have s: "send_packet (Publish_encode pub) ?c = (Some (Ok ()), c')"
    using assms(5,6) by (auto simp: publish_def get_next_packet_id_def Let_def next_id_def pub_def)
  have o: "client_ok ?c" "sends ?c" "length (tx_buffer ?c) = 512"
    using assms(1-3) by (simp_all add: client_ok_def sends_def)
  have "fst (Publish_encode pub (tx_buffer ?c)) \<noteq> Err e" for e
    using send_packet_fails [OF o(2), of "Publish_encode pub"] s by auto
  then have fits: "length t \<le> 65535" "5 + length (publish_content pub) \<le> 512"
    using Publish_encode_cases [of "tx_buffer ?c" pub] o(3) by (auto simp: pub_def split: if_splits)
  then have l: "length (publish_content pub) < 268435456" by simp
  have ok: "publish_ok pub" using fits(1) assms(4,5) by (auto simp: publish_ok_def pub_def)
  have e: "encodes (Publish_encode pub) (tx_buffer ?c) (publish_bytes pub)"
    unfolding publish_bytes_def using fits o(3) l by (intro Publish_encodes) (simp_all add: pub_def)
  have "packet_bytes (publish_bytes pub)" using l by (auto simp: packet_bytes_def publish_bytes_def)
  from send_packet_transmits [OF o(1,2) e this] s have "transmits ?c c' [publish_bytes pub]" by auto
  then have "transmits c c' [publish_bytes pub]" by (simp add: transmits_def)
  moreover have "retained_message (publish_bytes pub) = Some (t, p)"
    using retained_publish [OF ok l] by (simp add: pub_def)
  ultimately show ?thesis by (rule that)
qed

lemma subscribe_transmits:
  assumes "client_ok c" "sends c" "length (tx_buffer c) = 512" "length t \<le> 400" "subscribe t q c = (r, c')"
  obtains ps where "r = Some (Ok ())" "transmits c c' ps" "retained ps = []"
proof -
  define s where "s = \<lparr>subscribed_topic = t, subscribed_qos = q\<rparr>"
  let ?pkt = "subscribe_bytes (next_id (next_packet_id c)) s"
  obtain c1 where c1: "subscribe t q c = (Some (Ok ()), c1)" "sends c1" "length (tx_buffer c1) = 512"
      "sent (transport c1) = sent (transport c) @ ?pkt"
    using subscribe_ok [OF assms(2,3), of s] assms(4) by (auto simp: s_def)
  obtain enc where "send_packet enc (snd (get_next_packet_id c)) = (Some (Ok ()), c1)"
    using c1(1) by (auto simp: subscribe_def split: prod.splits)
  from send_packet_rx(2) [OF this] assms(1) have "client_ok c1"
    by (simp add: get_next_packet_id_def Let_def client_ok_def)
  moreover have "packet_bytes ?pkt"
    unfolding packet_bytes_def subscribe_bytes_def
    by (intro exI conjI, rule refl) (use assms(4) in \<open>simp add: s_def prefixed_def to_be_bytes_def\<close>)
  ultimately have "transmits c c' [?pkt]" using c1 assms(3,5) by (simp add: transmits_def)
  then show ?thesis
    by (intro that [of "[?pkt]"]) (use c1(1) assms(5) in \<open>simp_all add: subscribe_bytes_def retained_other\<close>)
qed

section \<open>One attempt of the connection loop\<close>

text \<open>
  The futures of \<open>select3\<close> polled once, in order: the client (\<open>poll\<close> on entry,
  \<open>poll_body\<close> when it is resumed), then the two queues. \<open>Inr\<close> when all are pending.
\<close>

definition attempt :: "('e, Publish option) client_op \<Rightarrow> 'e session \<Rightarrow> link \<Rightarrow>
    ((string, unit) outcome option \<times> 'e session \<times> link) + 'e session" where
  "attempt op s k =
     (case op (sess_client s) of
        (Some r, c) \<Rightarrow> Inl (poll_branch r (s\<lparr>sess_client := c\<rparr>) k)
      | (None, c) \<Rightarrow>
          (case queue_branch (s\<lparr>sess_client := c\<rparr>) k of
             Some x \<Rightarrow> Inl x
           | None \<Rightarrow> Inr (s\<lparr>sess_client := c\<rparr>)))"

lemma session_iteration_attempts:
  "sess_waiting s = None \<Longrightarrow> session_iteration tu e s k =
     (case attempt poll s k of
        Inl x \<Rightarrow> x
      | Inr s \<Rightarrow>
          (case attempt poll_body (s\<lparr>sess_client := pass_time e (sess_client s)\<rparr>) (meanwhile e k) of
             Inl x \<Rightarrow> x
           | Inr s \<Rightarrow> (if KEEP_ALIVE_CHECK tu \<le> waited e then Some (Ok ()) else None, s, meanwhile e k)))"
  by (simp add: session_iteration_def attempt_def Let_def split: prod.split option.split)

text \<open>The messages that wait, and the queues as the tasks of the firmware fill them.\<close>

definition queued :: "link \<Rightarrow> (str \<times> bytes) list" where
  "queued k = map (\<lambda>m. (out_topic m, out_payload m)) (OUTGOING k)"

definition queues_ok :: "link \<Rightarrow> bool" where
  "queues_ok k \<longleftrightarrow> length (OUTGOING k) \<le> 16 \<and>
     (\<forall>m \<in> set (OUTGOING k). out_qos m = AtLeastOnce \<and> out_retain m \<and> utf8_valid (out_topic m)) \<and>
     (\<forall>x \<in> set (SUBSCRIPTIONS k) \<union> set (SUB_QUEUE k). length (subscribed_topic x) \<le> 400)"

definition client_sane :: "'e MqttClient \<Rightarrow> bool" where
  "client_sane c \<longleftrightarrow> client_ok c \<and> sends c \<and> length (tx_buffer c) = 512"

lemma transmits_sane: "client_sane c \<Longrightarrow> transmits c c' ps \<Longrightarrow> client_sane c'"
  by (simp add: client_sane_def transmits_def)

lemma describe_None [simp]: "describe msg r = None \<longleftrightarrow> r = None"
  "describe msg r = Some (Ok v) \<longleftrightarrow> r = Some (Ok v)"
  by (auto simp: describe_def split: option.splits outcome.splits)

lemma queue_branch_conserves:
  assumes "client_sane (sess_client s)" "queues_ok k" "queue_branch s k = Some (r, s', k')"
  shows "r \<noteq> None" "r = Some (Ok ()) \<Longrightarrow> \<exists>ps. transmits (sess_client s) (sess_client s') ps \<and>
      retained ps @ queued k' = queued k \<and> queues_ok k' \<and> CONNECTED k' = CONNECTED k \<and>
      SUBSCRIPTIONS k' = SUBSCRIPTIONS k \<and> INCOMING k' = INCOMING k \<and> sess_waiting s' = sess_waiting s"
proof -
  let ?c = "sess_client s"
  note c = assms(1) [unfolded client_sane_def]
  consider (out) m q rc where "OUTGOING k = m # q"
      "publish (out_topic m) (out_payload m) (out_qos m) (out_retain m) ?c = rc"
      "r = describe ''MQTT publish failed'' (fst rc)" "s' = s\<lparr>sess_client := snd rc\<rparr>" "k' = k\<lparr>OUTGOING := q\<rparr>"
    | (sub) x q rc where "OUTGOING k = []" "SUB_QUEUE k = x # q"
      "subscribe (subscribed_topic x) (subscribed_qos x) ?c = rc"
      "r = describe ''MQTT subscribe failed'' (fst rc)" "s' = s\<lparr>sess_client := snd rc\<rparr>" "k' = k\<lparr>SUB_QUEUE := q\<rparr>"
    using assms(3) by (auto simp: queue_branch_def try_receive_def split: list.splits prod.splits)
  then have "r \<noteq> None \<and> (r = Some (Ok ()) \<longrightarrow> (\<exists>ps. transmits ?c (sess_client s') ps \<and>
      retained ps @ queued k' = queued k \<and> queues_ok k' \<and> CONNECTED k' = CONNECTED k \<and>
      SUBSCRIPTIONS k' = SUBSCRIPTIONS k \<and> INCOMING k' = INCOMING k \<and> sess_waiting s' = sess_waiting s))"
  proof cases
    case (out m q rc)
    have m: "out_qos m = AtLeastOnce" "out_retain m" "utf8_valid (out_topic m)"
      using assms(2) out(1) by (simp_all add: queues_ok_def)
    have "fst rc \<noteq> None"
      using send_packet_finishes [of "?c\<lparr>next_packet_id := pid\<rparr>" for pid] c out(2) m(1)
      by (auto simp: publish_def get_next_packet_id_def Let_def sends_def)
    moreover have "\<exists>ps. transmits ?c (snd rc) ps \<and> retained ps = [(out_topic m, out_payload m)]" if "fst rc = Some (Ok ())"
    proof -
      have "publish (out_topic m) (out_payload m) AtLeastOnce True ?c = (Some (Ok ()), snd rc)"
        using out(2) m that by (metis prod.collapse)
      from publish_transmits [OF _ _ _ m(3) _ this] c obtain pkt
        where "transmits ?c (snd rc) [pkt]" "retained_message pkt = Some (out_topic m, out_payload m)" by auto
      then show ?thesis by (intro exI [of _ "[pkt]"]) simp
    qed
    ultimately show ?thesis using out assms(2) by (auto simp: queued_def queues_ok_def)
  next
    case (sub x q rc)
    have "length (subscribed_topic x) \<le> 400" using assms(2) sub(2) by (simp add: queues_ok_def)
    with subscribe_transmits [of ?c "subscribed_topic x" "subscribed_qos x" "fst rc" "snd rc"] c sub(3)
    obtain ps where "fst rc = Some (Ok ())" "transmits ?c (snd rc) ps" "retained ps = []" by auto
    then show ?thesis using sub assms(2) by (auto simp: queued_def queues_ok_def)
  qed
  then show "r \<noteq> None" "r = Some (Ok ()) \<Longrightarrow> \<exists>ps. transmits (sess_client s) (sess_client s') ps \<and>
      retained ps @ queued k' = queued k \<and> queues_ok k' \<and> CONNECTED k' = CONNECTED k \<and>
      SUBSCRIPTIONS k' = SUBSCRIPTIONS k \<and> INCOMING k' = INCOMING k \<and> sess_waiting s' = sess_waiting s" by blast+
qed

text \<open>
  What leaves the queue is transmitted and nothing else: over one attempt the
  retained messages on the wire followed by those still queued are the messages
  that were queued before.
\<close>

lemma attempt_conserves:
  assumes "op = poll \<or> op = poll_body" "client_sane (sess_client s)" "queues_ok k" "sess_waiting s = None"
  shows "attempt op s k = Inr s' \<Longrightarrow> \<exists>ps. transmits (sess_client s) (sess_client s') ps \<and> retained ps = [] \<and>
      sess_waiting s' = None"
    and "attempt op s k = Inl (r, s', k') \<Longrightarrow> r = None \<or> r = Some (Ok ()) \<Longrightarrow>
      \<exists>ps. transmits (sess_client s) (sess_client s') ps \<and> retained ps @ queued k' = queued k \<and> queues_ok k' \<and>
        CONNECTED k' = CONNECTED k \<and> SUBSCRIPTIONS k' = SUBSCRIPTIONS k \<and> (r = None \<longrightarrow> sess_waiting s' \<noteq> None)"
proof -
  obtain r1 c1 where o: "op (sess_client s) = (r1, c1)" by fastforce
  obtain qs where qs: "transmits (sess_client s) c1 qs" "retained qs = []"
    using assms(1,2) o poll_transmits [of "sess_client s" r1 c1] poll_body_transmits [of "sess_client s" r1 c1]
    by (auto simp: client_sane_def)
  have c1: "client_sane c1" by (rule transmits_sane [OF assms(2) qs(1)])
  let ?s = "s\<lparr>sess_client := c1\<rparr>"
  show "\<exists>ps. transmits (sess_client s) (sess_client s') ps \<and> retained ps = [] \<and> sess_waiting s' = None"
    if "attempt op s k = Inr s'"
    using that o qs assms(4) by (auto simp: attempt_def split: option.splits)
  show "\<exists>ps. transmits (sess_client s) (sess_client s') ps \<and> retained ps @ queued k' = queued k \<and> queues_ok k' \<and>
        CONNECTED k' = CONNECTED k \<and> SUBSCRIPTIONS k' = SUBSCRIPTIONS k \<and> (r = None \<longrightarrow> sess_waiting s' \<noteq> None)"
    if a: "attempt op s k = Inl (r, s', k')" "r = None \<or> r = Some (Ok ())"
  proof (cases r1)
    case None
    then have q: "queue_branch ?s k = Some (r, s', k')" using a(1) o by (auto simp: attempt_def split: option.splits)
    from queue_branch_conserves [OF _ assms(3) q] c1 a(2) obtain ps where ps: "r = Some (Ok ())" "transmits c1 (sess_client s') ps"
        "retained ps @ queued k' = queued k" "queues_ok k'" "CONNECTED k' = CONNECTED k" "SUBSCRIPTIONS k' = SUBSCRIPTIONS k"
      by auto
    with transmits_trans [OF qs(1) ps(2)] qs(2) show ?thesis by (intro exI [of _ "qs @ ps"]) simp
  next
    case (Some x)
    then have b: "poll_branch x ?s k = (r, s', k')" using a(1) o by (simp add: attempt_def)
    have "sess_client s' = c1" using poll_branch_client [OF b] by simp
    moreover have "OUTGOING k' = OUTGOING k" "SUB_QUEUE k' = SUB_QUEUE k" "CONNECTED k' = CONNECTED k"
        "SUBSCRIPTIONS k' = SUBSCRIPTIONS k" "r = None \<Longrightarrow> sess_waiting s' \<noteq> None"
      using b by (auto simp: poll_branch_def deliver_def split: outcome.splits option.splits)
    ultimately show ?thesis using qs assms(3) by (intro exI [of _ qs]) (simp add: queued_def queues_ok_def)
  qed
qed

section \<open>The handshake\<close>

text \<open>
  A successful handshake has transmitted the CONNECT packet and received one
  packet; nothing else of the client matters afterwards.
\<close>

lemma handshake_inversion:
  assumes "config_ok cfg" "send_script net = []"
    and "connect tu (MqttClient_new MQTT_BUFFER_SIZE net (client_options tu cfg)) = (Some (Ok ()), c)"
  obtains c2 r3 c3 content where "next_packet c2 = (r3, c3)" "client_ok c2" "rx_len c2 = 0" "rx_consumed c2 = 0"
    "length (rx_buffer c2) = 512" "incoming (transport c2) = incoming net"
    "transport c = transport c3" "client_sane c" "length (rx_buffer c) = 512"
    "sent (transport c) = sent net @ frame 0x10 content" "length content < 268435456"
proof -
  define c0 where "c0 = MqttClient_new MQTT_BUFFER_SIZE net (client_options tu cfg)"
  let ?p = "connect_packet tu (options c0)"
  let ?f = "frame 0x10 (connect_content ?p)"
  have o: "options c0 = client_options tu cfg" "transport c0 = net" "length (tx_buffer c0) = 512" "length (rx_buffer c0) = 512"
    by (simp_all add: c0_def MqttClient_new_def MQTT_BUFFER_SIZE_def)
  have fits: "connect_ok ?p" "5 + length (connect_content ?p) \<le> 512"
    using connect_packet_fits [OF assms(1), of tu] o(1) by (simp_all add: MQTT_BUFFER_SIZE_def)
  then have "encodes (Connect_encode ?p) (tx_buffer c0) ?f" using o(3) by (intro Connect_encodes) auto
  then obtain b where b: "Connect_encode ?p (tx_buffer c0) = (Ok (length ?f), b)" "take (length ?f) b = ?f" "length b = 512"
    using o(3) by (auto simp: encodes_def)
  define c2 where "c2 = c0\<lparr>conn_state := Connecting, tx_buffer := b,
    transport := net\<lparr>sent := sent net @ ?f\<rparr>, rx_len := 0, rx_consumed := 0\<rparr>"
  have ok2: "client_ok c2" by (simp add: c2_def client_ok_def)
  obtain r3 c3 where q: "next_packet c2 = (r3, c3)" by fastforce
  have run: "connect tu c0 = bind (\<lambda>c. (r3, c3)) (\<lambda>found.
        case found of
          None \<Rightarrow> done_with (Err (Protocol InvalidResponse))
        | Some len \<Rightarrow> bind (\<lambda>c. (Some (decode (take len (rx_buffer c))), c\<lparr>rx_consumed := len\<rparr>)) handle_connack) c2"
    using b assms(2) o(2) q
    by (simp add: connect_def Let_def bind_def encode_tx_def send_bytes_def net_send_def c2_def)
  obtain len where len: "r3 = Some (Ok (Some len))"
    using run assms(3) [folded c0_def] by (auto simp: bind_def done_with_def split: option.splits outcome.splits)
  note keeps = next_packet_keeps [OF ok2 q, of len]
  let ?c = "c3\<lparr>rx_consumed := len\<rparr>"
  obtain k where "handle_connack k ?c = (Some (Ok ()), c)"
    using run assms(3) [folded c0_def] len by (auto simp: bind_def split: option.splits outcome.splits)
  then have c: "c = ?c\<lparr>conn_state := Connected, last_tx_time := clock (transport ?c)\<rparr>"
    by (auto simp: handle_connack_def split: option.splits MqttPacket.splits if_splits)
  have r: "rx_only c2 c3" by (rule next_packet_rx_only [OF ok2 q])
  show ?thesis
    by (rule that [OF q ok2, of "connect_content ?p"])
      (use r keeps len b(3) assms(2) fits(2) o(4) in \<open>simp_all add: client_sane_def client_ok_def sends_def rx_only_def c c2_def\<close>)
qed

lemma handshake_sane:
  assumes "config_ok cfg" "send_script net = []" "sent net = []"
    and "connect tu (MqttClient_new MQTT_BUFFER_SIZE net (client_options tu cfg)) = (Some (Ok ()), c)"
  obtains ps where "client_sane c" "sent (transport c) = concat ps" "\<forall>p \<in> set ps. packet_bytes p" "retained ps = []"
proof -
  obtain d where d: "client_sane c" "sent (transport c) = frame 0x10 d" "length d < 268435456"
    using handshake_inversion [OF assms(1,2,4)] assms(3) by (metis append_Nil)
  have "packet_bytes (frame 0x10 d)" unfolding packet_bytes_def using d(3) by blast
  moreover have "retained_message (frame 0x10 d) = None" by (rule retained_other) simp
  ultimately show ?thesis using d by (intro that [of "[frame 0x10 d]"]) simp_all
qed

section \<open>A quiet connection\<close>

text \<open>Nothing has arrived: polling waits, and the queue is served.\<close>

definition idle :: "'e MqttClient \<Rightarrow> bool" where
  "idle c \<longleftrightarrow> incoming (transport c) = [] \<and> buffered c = [] \<and> 0 < length (rx_buffer c)"

lemma idle_cong:
  "rx_buffer c' = rx_buffer c \<Longrightarrow> rx_len c' = rx_len c \<Longrightarrow> rx_consumed c' = rx_consumed c \<Longrightarrow>
   incoming (transport c') = incoming (transport c) \<Longrightarrow> idle c' = idle c"
  by (simp add: idle_def buffered_def)

lemma send_packet_idle: "send_packet enc c = (r, c') \<Longrightarrow> idle c' = idle c"
  by (rule idle_cong) (simp_all add: send_packet_rx)

lemma idle_next_packet:
  assumes "client_ok c" "idle c"
  obtains c' where "next_packet c = (None, c')" "idle c'" "client_ok c'" "rx_only c c'"
proof -
  obtain c1 where c1: "drop_consumed c = (Some (Ok ()), c1)" "client_ok c1" "rx_consumed c1 = 0"
      "buffered c1 = buffered c" "incoming (transport c1) = incoming (transport c)" "rx_only c c1"
    using drop_consumed_ok [OF assms(1)] .
  have i: "idle c1" using assms(2) c1(4-6) by (simp add: idle_def rx_only_def)
  then have len: "rx_len c1 = 0" using c1(2,3) by (auto simp: idle_def buffered_def client_ok_def)
  have "next_packet_loop c1 = (None, c1)"
    using i len by (subst next_packet_loop.simps)
      (simp add: idle_def net_recv_def complete_packet_len_def packet_len_loop.simps get_def Let_def)
  then have "next_packet c = (None, c1)" using c1(1) by (simp add: next_packet_def bind_def)
  then show ?thesis using i c1(2,6) by (rule that)
qed

lemma idle_poll:
  assumes "client_sane c" "idle c"
  obtains c' where "poll c = (None, c')" "client_sane c'" "idle c'"
proof -
  note c = assms(1) [unfolded client_sane_def]
  have cs: "client_ok c" "sends c" "4 \<le> length (tx_buffer c)" using c by simp_all
  obtain c1 ps where c1: "keep_alive_ping c = (Some (Ok ()), c1)" "transmits c c1 ps"
    using ping_transmits [OF cs] by metis
  have s1: "client_sane c1" by (rule transmits_sane [OF assms(1) c1(2)])
  have "idle c1" using c1(1) assms(2) send_packet_idle [of PingReq_encode c _ c1] by (auto simp: keep_alive_ping_def split: if_splits)
  then obtain c2 where c2: "next_packet c1 = (None, c2)" "idle c2" "client_ok c2" "rx_only c1 c2"
    using idle_next_packet [of c1] s1 by (auto simp: client_sane_def)
  have "poll c = (None, c2)" using c c1(1) c2(1) by (simp add: poll_def poll_body_def bind_def sends_def)
  moreover have "client_sane c2" using s1 c2(3,4) by (simp add: client_sane_def sends_def rx_only_def)
  ultimately show ?thesis using c2(2) by (rule that)
qed

text \<open>A message that fits into the buffer of the client.\<close>

definition fits :: "str \<times> bytes \<Rightarrow> bool" where
  "fits x \<longleftrightarrow> length (fst x) + length (snd x) + 9 \<le> MQTT_BUFFER_SIZE"

lemma publish_fits:
  assumes "client_sane c" "fits (t, p)"
  obtains c' where "publish t p AtLeastOnce True c = (Some (Ok ()), c')" "client_sane c'" "idle c' = idle c"
proof -
  let ?c = "c\<lparr>next_packet_id := next_id (next_packet_id c)\<rparr>"
  define pub where "pub = \<lparr>pub_topic = t, pub_qos = AtLeastOnce, pub_retain = True, pub_payload = p,
    pub_packet_id = Some (next_id (next_packet_id c))\<rparr>"
  have r: "publish t p AtLeastOnce True c = send_packet (Publish_encode pub) ?c"
    by (simp add: publish_def get_next_packet_id_def Let_def next_id_def pub_def)
  have s: "client_ok ?c" "sends ?c" "length (tx_buffer ?c) = 512"
    using assms(1) by (simp_all add: client_sane_def client_ok_def sends_def)
  have l: "5 + length (publish_content pub) \<le> 512" "length t \<le> 65535"
    using assms(2) by (simp_all add: fits_def publish_content_def pub_def MQTT_BUFFER_SIZE_def)
  have e: "encodes (Publish_encode pub) (tx_buffer ?c) (publish_bytes pub)"
    unfolding publish_bytes_def using l s(3) by (intro Publish_encodes) (simp_all add: pub_def)
  have "length (publish_content pub) < 268435456" using l(1) by simp
  then have "packet_bytes (publish_bytes pub)" by (auto simp: packet_bytes_def publish_bytes_def)
  from send_packet_transmits [OF s(1,2) e this] obtain c'
    where c': "send_packet (Publish_encode pub) ?c = (Some (Ok ()), c')" "transmits ?c c' [publish_bytes pub]" .
  have "idle c' = idle c" using send_packet_idle [OF c'(1)] by (simp add: idle_def buffered_def)
  moreover have "client_sane c'" using c'(2) s(3) by (simp add: client_sane_def transmits_def)
  ultimately show ?thesis using that c'(1) r by simp
qed

lemma idle_attempt:
  assumes "client_sane (sess_client s)" "idle (sess_client s)" "OUTGOING k = m # q" "fits (out_topic m, out_payload m)"
    and "out_qos m = AtLeastOnce" "out_retain m"
  obtains s' where "attempt poll s k = Inl (Some (Ok ()), s', k\<lparr>OUTGOING := q\<rparr>)" "client_sane (sess_client s')"
    "idle (sess_client s')" "sess_waiting s' = sess_waiting s"
proof -
  obtain c1 where c1: "poll (sess_client s) = (None, c1)" "client_sane c1" "idle c1"
    using idle_poll [OF assms(1,2)] .
  obtain c2 where c2: "publish (out_topic m) (out_payload m) AtLeastOnce True c1 = (Some (Ok ()), c2)" "client_sane c2"
      "idle c2"
    using publish_fits [OF c1(2) assms(4)] c1(3) by metis
  show ?thesis
    by (rule that [of "s\<lparr>sess_client := c2\<rparr>"])
      (use c1(1) c2 assms(3,5,6) in \<open>simp_all add: attempt_def queue_branch_def try_receive_def describe_def\<close>)
qed

section \<open>Properties\<close>



end
