(* ===== verification/Broker.thy ===== *)
theory Broker
  imports Firmware Outbound
begin

text \<open>
  The firmware together with its connection to the broker: the tasks of
  \<open>Firmware\<close>, the connection task of \<open>src/infra/mqtt_client.rs\<close> step by step, and
  the messages the broker retains. The connection comes up and is lost at any
  time, the device can lose power, and the tasks interleave with the connection
  at every await.

  The lemmas show the invariant that makes what the broker retains converge to
  the state of the gate: what was sent and what is still queued add up to the
  latest publication. The network library is assumed to take every packet in full
  (\<open>send_script = []\<close>), and the broker to read the stream in order.
\<close>

section \<open>The connection task\<close>

text \<open>
  Where the task is: reconnecting, registering its subscriptions, at the start of
  an iteration (or in \<open>INCOMING.send\<close> at its end), or waiting in \<open>select3\<close>, whose
  timer expires at the given time.
\<close>

datatype 'e conn =
    Offline
  | Subscribing "'e MqttClient" "Subscription list"
  | Looping "'e session"
  | Waiting "'e session" ticks

primrec stream :: "'e conn \<Rightarrow> bytes" where
  "stream Offline = []"
| "stream (Subscribing c xs) = sent (transport c)"
| "stream (Looping s) = sent (transport (sess_client s))"
| "stream (Waiting s at) = sent (transport (sess_client s))"

text \<open>What the broker retains of a stream of bytes.\<close>

definition heard :: "bytes \<Rightarrow> (str \<rightharpoonup> bytes) \<Rightarrow> str \<rightharpoonup> bytes" where
  "heard bs = retain (retained (packets bs))"

text \<open>\<open>kept\<close> is what the broker retained when the current connection came up.\<close>

record ('d, 'e) sys =
  fw_of :: "'d fw"
  conn_of :: "'e conn"
  kept :: "str \<rightharpoonup> bytes"

abbreviation the_link :: "('d, 'e) sys \<Rightarrow> link" where
  "the_link S \<equiv> link_of (fw_of S)"

definition broker_view :: "('d, 'e) sys \<Rightarrow> str \<rightharpoonup> bytes" where
  "broker_view S = heard (stream (conn_of S)) (kept S)"

definition put_link :: "link \<Rightarrow> 'e conn \<Rightarrow> ('d, 'e) sys \<Rightarrow> ('d, 'e) sys" where
  "put_link k x S = S\<lparr>fw_of := (fw_of S)\<lparr>link_of := k\<rparr>, conn_of := x\<rparr>"

text \<open>The connection is gone; of the stream the broker has read a first part.\<close>

definition drop_conn :: "nat \<Rightarrow> 'e conn \<Rightarrow> ('d, 'e) sys \<Rightarrow> ('d, 'e) sys" where
  "drop_conn n x S = S\<lparr>conn_of := Offline, kept := heard (take n (stream x)) (kept S)\<rparr>"

definition passed :: "'e pause \<Rightarrow> 'e session \<Rightarrow> 'e session" where
  "passed e s = s\<lparr>sess_client := pass_time e (sess_client s)\<rparr>"

inductive conn_step :: "time_ops \<Rightarrow> AppConfig \<Rightarrow> ('d, 'e) sys \<Rightarrow> ('d, 'e) sys \<Rightarrow> bool"
  for tu :: time_ops and cfg :: AppConfig where
  handshake: "conn_of S = Offline \<Longrightarrow> send_script net = [] \<Longrightarrow> sent net = [] \<Longrightarrow>
    connect tu (MqttClient_new MQTT_BUFFER_SIZE net (client_options tu cfg)) = (Some (Ok ()), c) \<Longrightarrow>
    conn_step tu cfg S (put_link ((the_link S)\<lparr>SUB_QUEUE := []\<rparr>) (Subscribing c (SUBSCRIPTIONS (the_link S))) S)"
| register: "conn_of S = Subscribing c (x # xs) \<Longrightarrow>
    subscribe (subscribed_topic x) (subscribed_qos x) c = (Some (Ok ()), c') \<Longrightarrow>
    conn_step tu cfg S (S\<lparr>conn_of := Subscribing c' xs\<rparr>)"
| established: "conn_of S = Subscribing c [] \<Longrightarrow>
    conn_step tu cfg S (put_link ((the_link S)\<lparr>OUTGOING := [], CONNECTED := signal_set () (CONNECTED (the_link S))\<rparr>)
      (Looping \<lparr>sess_client = c, sess_waiting = None\<rparr>) S)"
| iterate: "conn_of S = Looping s \<Longrightarrow> sess_waiting s = None \<Longrightarrow> attempt poll s (the_link S) = Inl (r, s', k) \<Longrightarrow>
    r = None \<or> r = Some (Ok ()) \<Longrightarrow> conn_step tu cfg S (put_link k (Looping s') S)"
| wait: "conn_of S = Looping s \<Longrightarrow> sess_waiting s = None \<Longrightarrow> attempt poll s (the_link S) = Inr s' \<Longrightarrow>
    conn_step tu cfg S (S\<lparr>conn_of := Waiting s' (clock (transport (sess_client s)) + KEEP_ALIVE_CHECK tu)\<rparr>)"
| resume: "conn_of S = Waiting s at \<Longrightarrow> attempt poll_body (passed e s) (the_link S) = Inl (r, s', k) \<Longrightarrow>
    r = None \<or> r = Some (Ok ()) \<Longrightarrow> conn_step tu cfg S (put_link k (Looping s') S)"
| still_waiting: "conn_of S = Waiting s at \<Longrightarrow> attempt poll_body (passed e s) (the_link S) = Inr s' \<Longrightarrow>
    conn_step tu cfg S (S\<lparr>conn_of := (if at \<le> clock (transport (sess_client s')) then Looping s' else Waiting s' at)\<rparr>)"
| hand_over: "conn_of S = Looping s \<Longrightarrow> sess_waiting s = Some m \<Longrightarrow> deliver m (passed e s) (the_link S) = (r, s', k) \<Longrightarrow>
    conn_step tu cfg S (put_link k (Looping s') S)"
| lost: "conn_step tu cfg S (drop_conn n (conn_of S) S)"
| failed: "conn_of S = Looping s \<and> sess_waiting s = None \<and> attempt poll s (the_link S) = Inl (Some (Err msg), s', k) \<or>
    conn_of S = Waiting s at \<and> attempt poll_body (passed e s) (the_link S) = Inl (Some (Err msg), s', k) \<Longrightarrow>
    conn_step tu cfg S (drop_conn n (Looping s') (put_link k Offline S))"

text \<open>
  The device starts again from what is in flash: after a power loss, after the setup
  mode, or because the panic handler of \<open>main.rs\<close> resets it.
\<close>

definition restart :: "time_ops \<Rightarrow> ('d, 'p, 'x) flash_ops \<Rightarrow> nat \<Rightarrow> ('d, 'e) sys \<Rightarrow> ('d, 'e) sys" where
  "restart tu fo n S = (drop_conn n (conn_of S) S)\<lparr>fw_of := fw_start tu fo (flash_of (fw_of S))\<rparr>"

text \<open>The whole system.\<close>

inductive sys_step :: "time_ops \<Rightarrow> ticks \<Rightarrow> ('d, 'p, 'x) flash_ops \<Rightarrow> AppConfig \<Rightarrow> ('d, 'e) sys \<Rightarrow> ('d, 'e) sys \<Rightarrow> bool"
  for tu :: time_ops and half :: ticks and fo :: "('d, 'p, 'x) flash_ops" and cfg :: AppConfig where
  device: "fw_task tu half fo (fw_of S) f \<Longrightarrow> sys_step tu half fo cfg S (S\<lparr>fw_of := f\<rparr>)"
| connection: "conn_step tu cfg S S' \<Longrightarrow> sys_step tu half fo cfg S S'"
| power_cycle: "sys_step tu half fo cfg S (restart tu fo n S)"

definition sys_start :: "time_ops \<Rightarrow> ('d, 'p, 'x) flash_ops \<Rightarrow> 'd \<Rightarrow> (str \<rightharpoonup> bytes) \<Rightarrow> ('d, 'e) sys" where
  "sys_start tu fo d v = \<lparr>fw_of = fw_start tu fo d, conn_of = Offline, kept = v\<rparr>"

abbreviation sys_reachable :: "time_ops \<Rightarrow> ticks \<Rightarrow> ('d, 'p, 'x) flash_ops \<Rightarrow> AppConfig \<Rightarrow> ('d, 'e) sys \<Rightarrow> bool" where
  "sys_reachable tu half fo cfg \<equiv> reach (\<lambda>S. \<exists>d v. S = sys_start tu fo d v) (sys_step tu half fo cfg)"

section \<open>The firmware in the system\<close>

lemma conn_step_fw: "conn_step tu cfg S S' \<Longrightarrow> \<exists>k. fw_of S' = (fw_of S)\<lparr>link_of := k\<rparr>"
  by (erule conn_step.cases) (auto simp: put_link_def drop_conn_def intro: exI [of _ "link_of (fw_of S)"])

lemma sys_reachable_fw: "sys_reachable tu half fo cfg S \<Longrightarrow> fw_reachable tu half fo (fw_of S)"
proof (induction rule: reach.induct)
  case (reach_init S)
  then show ?case by (intro reach.reach_init) (auto simp: sys_start_def)
next
  case (reach_step S S')
  show ?case
    using reach_step.hyps(2)
  proof (cases rule: sys_step.cases)
    case (device f)
    then show ?thesis using reach.reach_step [OF reach_step.IH fw_step.a_task] by simp
  next
    case connection
    then obtain k where "fw_of S' = (fw_of S)\<lparr>link_of := k\<rparr>" using conn_step_fw by blast
    then show ?thesis using reach.reach_step [OF reach_step.IH fw_step.network] by metis
  next
    case (power_cycle n)
    then show ?thesis by (intro reach.reach_init) (auto simp: restart_def)
  qed
qed

section \<open>What the tasks do to the queues\<close>

text \<open>The queue ends with the messages of the latest publication.\<close>

definition fresh :: "'d fw \<Rightarrow> bool" where
  "fresh f \<longleftrightarrow> (\<exists>ms. queued (link_of f) = ms @ state_messages (last (published f)))"

definition fw_queues_ok :: "'d fw \<Rightarrow> bool" where
  "fw_queues_ok f \<longleftrightarrow> queues_ok (link_of f) \<and> (\<forall>t \<in> set (to_subscribe f). length t \<le> 400)"

definition untold :: "'d fw \<Rightarrow> 'd fw \<Rightarrow> bool" where
  "untold f f' \<longleftrightarrow> OUTGOING (link_of f') = OUTGOING (link_of f) \<and> CONNECTED (link_of f') = CONNECTED (link_of f) \<and>
     published f' = published f"

lemma newest_suffix: "length ys \<le> n \<Longrightarrow> \<exists>zs. newest n (xs @ ys) = zs @ ys"
  by (simp add: newest_def)

lemma set_newest: "set (newest n xs) \<subseteq> set xs"
  by (simp add: newest_def set_drop_subset)

lemma state_message_fields [simp]:
  "out_topic (state_message x) = fst x" "out_payload (state_message x) = snd x"
  "out_qos (state_message x) = AtLeastOnce" "out_retain (state_message x)"
  by (simp_all add: state_message_def)

lemma queues_ok_messages:
  assumes "queues_ok k" "\<forall>(t, p) \<in> set ms. utf8_valid t"
  shows "queues_ok (k\<lparr>OUTGOING := newest 16 (OUTGOING k @ map state_message ms)\<rparr>)"
proof -
  let ?q = "newest 16 (OUTGOING k @ map state_message ms)"
  have "length ?q \<le> 16" by (simp add: newest_def)
  moreover have "out_qos m = AtLeastOnce \<and> out_retain m \<and> utf8_valid (out_topic m)" if m: "m \<in> set ?q" for m
  proof -
    consider "m \<in> set (OUTGOING k)" | x where "x \<in> set ms" "m = state_message x"
      using m set_newest [of 16 "OUTGOING k @ map state_message ms"] by auto
    then show ?thesis
      using assms by cases (auto simp: queues_ok_def)
  qed
  ultimately show ?thesis using assms(1) by (simp add: queues_ok_def)
qed

lemma publish_state_tells:
  assumes "queues_ok k"
  shows "queues_ok (publish_state c k)" "\<exists>ms. queued (publish_state c k) = ms @ state_messages c"
proof -
  show "queues_ok (publish_state c k)"
    unfolding publish_state_queue using state_message_ok by (intro queues_ok_messages [OF assms]) blast
  obtain zs where z: "newest 16 (OUTGOING k @ map state_message (state_messages c)) = zs @ map state_message (state_messages c)"
    using newest_suffix [of "map state_message (state_messages c)" 16 "OUTGOING k"] by (auto simp: state_messages_def)
  show "\<exists>ms. queued (publish_state c k) = ms @ state_messages c"
    by (simp add: queued_def publish_state_queue z comp_def)
qed

lemma fold_publish_ok: "queues_ok k \<Longrightarrow> queues_ok (fold publish_state cs k)"
  by (induction cs arbitrary: k) (simp_all add: publish_state_tells)

lemma publications_tell:
  assumes "queues_ok k" "link_of f' = fold publish_state news k" "published f' = old @ news" "news \<noteq> []"
  shows "fresh f'"
proof -
  obtain cs c where n: "news = cs @ [c]" using assms(4) by (cases news rule: rev_cases) auto
  with publish_state_tells(2) [OF fold_publish_ok [OF assms(1)], of c cs] assms(2,3) show ?thesis
    by (simp add: fresh_def)
qed

text \<open>A task that only publishes states.\<close>

lemma publishing_task:
  assumes "fw_queues_ok f" "published f' = published f @ news" "link_of f' = fold publish_state news (link_of f)"
    and "to_subscribe f' = to_subscribe f"
  shows "fw_queues_ok f' \<and> (untold f f' \<or> fresh f')"
proof (cases "news = []")
  case True
  then show ?thesis using assms by (simp add: fw_queues_ok_def untold_def)
next
  case False
  then show ?thesis
    using assms publications_tell [OF _ assms(3,2)] fold_publish_ok by (auto simp: fw_queues_ok_def)
qed

lemma receive_message_news:
  "\<exists>news. published (receive_message m f) = published f @ news"
  "to_subscribe (receive_message m f) = to_subscribe f"
  by (simp_all add: receive_message_def note_publication_def put_statics_def)

lemma sample_input_news:
  "\<exists>news. published (sample_input i low f) = published f @ news"
  "to_subscribe (sample_input i low f) = to_subscribe f"
  by (simp_all add: sample_input_def note_publication_def put_statics_def split: prod.split)

lemma config_topics_utf8:
  assumes "configs to_vec version = (Ok ms :: (unit, (str \<times> bytes) list) outcome)"
  shows "ms \<noteq> []" "\<forall>(t, p) \<in> set ms. utf8_valid t" "length ms = 5"
proof -
  have u: "utf8_valid COVER_CONFIG_TOPIC" "utf8_valid WIND_CONFIG_TOPIC" "utf8_valid SPARE_INPUT_CONFIG_TOPIC"
      "utf8_valid BARRIER_BYPASS_CONFIG_TOPIC" "utf8_valid BUTTON_CONFIG_TOPIC"
    unfolding COVER_CONFIG_TOPIC_def WIND_CONFIG_TOPIC_def SPARE_INPUT_CONFIG_TOPIC_def
      BARRIER_BYPASS_CONFIG_TOPIC_def BUTTON_CONFIG_TOPIC_def by (rule lit_utf8; simp)+
  obtain c w b r where ms: "ms = [(COVER_CONFIG_TOPIC, c), (WIND_CONFIG_TOPIC, w), (SPARE_INPUT_CONFIG_TOPIC, []),
      (BARRIER_BYPASS_CONFIG_TOPIC, b), (BUTTON_CONFIG_TOPIC, r)]"
    using assms by (auto simp: configs_def and_then_Ok_iff)
  show "ms \<noteq> []" "\<forall>(t, p) \<in> set ms. utf8_valid t" "length ms = 5" by (simp_all add: ms u)
qed

lemma republish_tells:
  assumes "republish to_vec version c k = (Ok k' :: (unit, link) outcome)" "queues_ok k"
  shows "queues_ok k' \<and> (\<exists>ms. queued k' = ms @ state_messages c)"
proof -
  obtain ms where ms: "configs to_vec version = (Ok ms :: (unit, (str \<times> bytes) list) outcome)"
      "k' = publish_state c (publish_messages ms k)"
    using assms(1) by (auto simp: republish_def publish_all_def and_then_Ok_iff)
  have "queues_ok (publish_messages ms k)"
    using publish_messages_queue [OF config_topics_utf8(1) [OF ms(1)], of k]
      queues_ok_messages [OF assms(2) config_topics_utf8(2) [OF ms(1)]] by simp
  then show ?thesis using publish_state_tells ms(2) by simp
qed

text \<open>
  Every task of the device keeps the queues well formed, and either leaves the
  outgoing queue and the publications alone or ends with the latest publication
  at the end of the queue.
\<close>

lemma fw_task_queues:
  assumes "fw_task tu half fo f f'" "fw_queues_ok f"
  shows "fw_queues_ok f' \<and> (untold f f' \<or> fresh f')"
  using assms(1)
proof (cases rule: fw_task.cases)
  case (wake w g')
  then show ?thesis
    by (intro publishing_task [OF assms(2), of _ "drop (length (notified (gate_of f))) (notified g')"])
      (simp_all add: after_gate_def Let_def)
next
  case (call snap g')
  have "link_of (persist fo snap f) = link_of f" "published (persist fo snap f) = published f"
      "to_subscribe (persist fo snap f) = to_subscribe f"
    by (simp_all add: persist_def Let_def split: prod.split outcome.split)
  then show ?thesis
    using call by (intro publishing_task [OF assms(2), of _ "drop (length (notified (gate_of f))) (notified g')"])
      (simp_all add: after_gate_def Let_def)
next
  case (input_pin p low)
  obtain news where "published (sample_input p low f) = published f @ news" using sample_input_news by blast
  with sample_input_queue [of p low f] sample_input_news(2) show ?thesis
    unfolding input_pin by (intro publishing_task [OF assms(2)]) simp_all
next
  case (subscribe_topic t ts k)
  then have k: "k = (link_of f)\<lparr>SUBSCRIPTIONS := SUBSCRIPTIONS (link_of f) @ [\<lparr>subscribed_topic = t, subscribed_qos = AtLeastOnce\<rparr>],
      SUB_QUEUE := SUB_QUEUE (link_of f) @ [\<lparr>subscribed_topic = t, subscribed_qos = AtLeastOnce\<rparr>]\<rparr>"
    by (auto simp: link_subscribe_def try_send_def Let_def split: if_splits)
  then show ?thesis using assms(2) subscribe_topic(1,2) by (auto simp: fw_queues_ok_def untold_def queues_ok_def)
next
  case (message m k)
  let ?f = "f\<lparr>link_of := k\<rparr>"
  have k: "\<exists>q. k = (link_of f)\<lparr>INCOMING := q\<rparr>"
    using message(3) by (auto simp: link_receive_def split: option.splits)
  have "fw_queues_ok ?f" using assms(2) k by (auto simp: fw_queues_ok_def queues_ok_def)
  moreover obtain news where "published (receive_message m ?f) = published ?f @ news"
    using receive_message_news by blast
  ultimately have "fw_queues_ok f' \<and> (untold ?f f' \<or> fresh f')"
    using receive_message_queue [of m ?f] receive_message_news(2) [of m ?f]
    unfolding message(1) by (intro publishing_task) simp_all
  then show ?thesis using k by (auto simp: untold_def)
next
  case (announce k to_vec version k')
  have k: "k = (link_of f)\<lparr>CONNECTED := None\<rparr>"
    using announce(2) by (auto simp: wait_connected_def split: option.splits)
  have "queues_ok k" using assms(2) k by (simp add: fw_queues_ok_def queues_ok_def)
  from republish_tells [OF announce(3) this] assms(2) announce(1) show ?thesis
    by (simp add: fw_queues_ok_def fresh_def)
qed (use assms(2) in \<open>simp_all add: fw_queues_ok_def untold_def\<close>)

section \<open>The invariant of the system\<close>

definition framed :: "bytes \<Rightarrow> bool" where
  "framed bs \<longleftrightarrow> (\<exists>ps. bs = concat ps \<and> (\<forall>p \<in> set ps. packet_bytes p))"

lemma transmits_framed:
  assumes "framed (sent (transport c))" "transmits c c' ps"
  shows "framed (sent (transport c'))"
    "heard (sent (transport c')) v = retain (retained ps) (heard (sent (transport c)) v)"
proof -
  obtain qs where qs: "sent (transport c) = concat qs" "\<forall>p \<in> set qs. packet_bytes p" using assms(1) by (auto simp: framed_def)
  have all: "sent (transport c') = concat (qs @ ps)" "\<forall>p \<in> set (qs @ ps). packet_bytes p"
    using assms(2) qs by (auto simp: transmits_def)
  then show "framed (sent (transport c'))" unfolding framed_def by blast
  show "heard (sent (transport c')) v = retain (retained ps) (heard (sent (transport c)) v)"
    using packets_concat [OF all(2)] packets_concat [OF qs(2)] qs(1) all(1) by (simp add: heard_def)
qed

text \<open>The connection is complete: what waits and what was sent add up to the latest publication.\<close>

definition reported :: "'d fw \<Rightarrow> (str \<rightharpoonup> bytes) \<Rightarrow> bool" where
  "reported f view \<longleftrightarrow> (\<forall>(t, p) \<in> set (state_messages (last (published f))).
     retain (queued (link_of f)) view t = Some p)"

definition session_sane :: "'e session \<Rightarrow> bool" where
  "session_sane s \<longleftrightarrow> client_sane (sess_client s) \<and> framed (sent (transport (sess_client s)))"

definition session_told :: "'d fw \<Rightarrow> (str \<rightharpoonup> bytes) \<Rightarrow> 'e session \<Rightarrow> bool" where
  "session_told f v s \<longleftrightarrow> session_sane s \<and>
     (CONNECTED (link_of f) = None \<longrightarrow> reported f (heard (sent (transport (sess_client s))) v))"

primrec conn_ok :: "'d fw \<Rightarrow> (str \<rightharpoonup> bytes) \<Rightarrow> 'e conn \<Rightarrow> bool" where
  "conn_ok f v Offline \<longleftrightarrow> True"
| "conn_ok f v (Subscribing c xs) \<longleftrightarrow> client_sane c \<and> framed (sent (transport c)) \<and>
     (\<forall>x \<in> set xs. length (subscribed_topic x) \<le> 400)"
| "conn_ok f v (Looping s) \<longleftrightarrow> session_told f v s"
| "conn_ok f v (Waiting s at) \<longleftrightarrow> session_told f v s \<and> sess_waiting s = None"

definition sys_ok :: "('d, 'e) sys \<Rightarrow> bool" where
  "sys_ok S \<longleftrightarrow> fw_queues_ok (fw_of S) \<and> conn_ok (fw_of S) (kept S) (conn_of S)"

lemma state_messages_distinct: "distinct (map fst (state_messages c))"
  by (simp add: state_messages_def topic_defs)

lemma state_payloads_nonempty: "(t, p) \<in> set (state_messages c) \<Longrightarrow> p \<noteq> []"
proof -
  have "cover_payload s \<noteq> []" "on_off b \<noteq> []" for s b
    by (cases s; cases b; simp add: cover_payload_def on_off_def payload_defs Bytes.lit_def)+
  then show "(t, p) \<in> set (state_messages c) \<Longrightarrow> p \<noteq> []"
    by (auto simp: state_messages_def eq_commute [of "[]"])
qed

lemma fresh_reported: "fresh f \<Longrightarrow> reported f view"
  unfolding fresh_def reported_def
  by (auto intro!: retain_told [OF state_messages_distinct] dest: state_payloads_nonempty)

lemma untold_reported: "untold f f' \<Longrightarrow> reported f' view = reported f view"
  by (simp add: untold_def reported_def queued_def)

lemma device_conn_ok:
  assumes "untold f f' \<or> fresh f'" "conn_ok f v x"
  shows "conn_ok f' v x"
proof -
  have "session_told f' v s" if s: "session_told f v s" for s
    using assms(1)
  proof
    assume u: "untold f f'"
    then have "CONNECTED (link_of f') = CONNECTED (link_of f)" by (simp add: untold_def)
    with s untold_reported [OF u] show ?thesis by (simp add: session_told_def)
  next
    assume "fresh f'"
    from fresh_reported [OF this] s show ?thesis by (simp add: session_told_def)
  qed
  with assms(2) show ?thesis by (cases x) auto
qed

lemma attempt_told:
  assumes "op = poll \<or> op = poll_body" "session_sane s" "queues_ok k" "sess_waiting s = None"
  shows "attempt op s k = Inr s' \<Longrightarrow> session_sane s' \<and> sess_waiting s' = None \<and>
      heard (sent (transport (sess_client s'))) v = heard (sent (transport (sess_client s))) v"
    and "attempt op s k = Inl (r, s', k') \<Longrightarrow> r = None \<or> r = Some (Ok ()) \<Longrightarrow>
      session_sane s' \<and> queues_ok k' \<and> CONNECTED k' = CONNECTED k \<and>
      retain (queued k') (heard (sent (transport (sess_client s'))) v) =
        retain (queued k) (heard (sent (transport (sess_client s))) v)"
proof -
  have c: "client_sane (sess_client s)" "framed (sent (transport (sess_client s)))"
    using assms(2) by (simp_all add: session_sane_def)
  note a = attempt_conserves [OF assms(1) c(1) assms(3,4)]
  show "session_sane s' \<and> sess_waiting s' = None \<and>
      heard (sent (transport (sess_client s'))) v = heard (sent (transport (sess_client s))) v"
    if inr: "attempt op s k = Inr s'"
  proof -
    obtain ps where ps: "transmits (sess_client s) (sess_client s') ps" "retained ps = []" "sess_waiting s' = None"
      using a(1) [OF inr] by blast
    from transmits_framed [OF c(2) ps(1)] transmits_sane [OF c(1) ps(1)] ps(2,3)
    show ?thesis by (simp add: session_sane_def)
  qed
  show "session_sane s' \<and> queues_ok k' \<and> CONNECTED k' = CONNECTED k \<and>
      retain (queued k') (heard (sent (transport (sess_client s'))) v) =
        retain (queued k) (heard (sent (transport (sess_client s))) v)"
    if inl: "attempt op s k = Inl (r, s', k')" "r = None \<or> r = Some (Ok ())"
  proof -
    obtain ps where ps: "transmits (sess_client s) (sess_client s') ps" "retained ps @ queued k' = queued k"
        "queues_ok k'" "CONNECTED k' = CONNECTED k"
      using a(2) [OF inl] by blast
    from transmits_framed [OF c(2) ps(1)] transmits_sane [OF c(1) ps(1)] ps(3,4)
    show ?thesis by (simp add: session_sane_def ps(2) [symmetric])
  qed
qed

lemma attempt_queues: "attempt op s k = Inl (r, s', k') \<Longrightarrow> queues_ok k \<Longrightarrow> queues_ok k'"
  by (auto simp: attempt_def poll_branch_def deliver_def queue_branch_def try_receive_def queues_ok_def
      split: prod.splits option.splits outcome.splits list.splits)

lemma passed_sane [simp]:
  "session_sane (passed e s) = session_sane s" "sess_waiting (passed e s) = sess_waiting s"
  "sent (transport (sess_client (passed e s))) = sent (transport (sess_client s))"
  by (simp_all add: passed_def session_sane_def pass_time_def client_sane_def client_ok_def sends_def)

text \<open>A completed attempt, on entry or resumed, leaves the session told.\<close>

lemma told_attempt:
  assumes "op = poll \<or> op = poll_body" "session_told f v s" "fw_queues_ok f" "sess_waiting s = None"
    and "s1 = s \<or> s1 = passed e s"
  shows "attempt op s1 (link_of f) = Inr s' \<Longrightarrow> session_told f v s' \<and> sess_waiting s' = None"
    and "attempt op s1 (link_of f) = Inl (r, s', k) \<Longrightarrow> r = None \<or> r = Some (Ok ()) \<Longrightarrow>
      session_told (f\<lparr>link_of := k\<rparr>) v s' \<and> fw_queues_ok (f\<lparr>link_of := k\<rparr>)"
proof -
  have s: "session_sane s1" "sess_waiting s1 = None" "queues_ok (link_of f)"
      "sent (transport (sess_client s1)) = sent (transport (sess_client s))"
    using assms by (auto simp: session_told_def fw_queues_ok_def)
  note a = attempt_told [OF assms(1) s(1,3,2), where v = v]
  show "attempt op s1 (link_of f) = Inr s' \<Longrightarrow> session_told f v s' \<and> sess_waiting s' = None"
    using a(1) [of s'] assms(2) s(4) by (simp add: session_told_def)
  show "attempt op s1 (link_of f) = Inl (r, s', k) \<Longrightarrow> r = None \<or> r = Some (Ok ()) \<Longrightarrow>
      session_told (f\<lparr>link_of := k\<rparr>) v s' \<and> fw_queues_ok (f\<lparr>link_of := k\<rparr>)"
    using a(2) [of r s' k] assms(2,3) s(4) by (simp add: session_told_def reported_def fw_queues_ok_def)
qed

lemma conn_step_ok:
  assumes "config_ok cfg" "conn_step tu cfg S S'" "sys_ok S"
  shows "sys_ok S'"
proof -
  let ?f = "fw_of S"
  have q: "fw_queues_ok ?f" and c: "conn_ok ?f (kept S) (conn_of S)" using assms(3) by (simp_all add: sys_ok_def)
  show ?thesis
    using assms(2)
  proof (cases rule: conn_step.cases)
    case (handshake net c)
    obtain ps where "client_sane c" "sent (transport c) = concat ps" "\<forall>p \<in> set ps. packet_bytes p"
      using handshake_sane [OF assms(1) handshake(3,4,5)] .
    then show ?thesis
      using q handshake(1) by (auto simp: sys_ok_def put_link_def fw_queues_ok_def queues_ok_def framed_def)
  next
    case (register c0 x xs c1)
    have ok: "client_sane c0" "framed (sent (transport c0))" "length (subscribed_topic x) \<le> 400"
        "\<forall>x \<in> set xs. length (subscribed_topic x) \<le> 400"
      using c register(2) by simp_all
    obtain ps where "transmits c0 c1 ps"
      using subscribe_transmits [OF _ _ _ ok(3) register(3)] ok(1) by (auto simp: client_sane_def)
    with transmits_framed(1) [OF ok(2)] transmits_sane [OF ok(1)] ok(4) q register(1) show ?thesis
      by (simp add: sys_ok_def)
  next
    case (established c0)
    then show ?thesis
      using q c by (auto simp: sys_ok_def put_link_def fw_queues_ok_def queues_ok_def session_told_def session_sane_def)
  next
    case (iterate s r s' k)
    have "session_told ?f (kept S) s" using c iterate(2) by simp
    from told_attempt(2) [OF disjI1 [OF refl] this q iterate(3) disjI1 [OF refl] iterate(4,5)] iterate(1)
    show ?thesis by (simp add: sys_ok_def put_link_def)
  next
    case (wait s s')
    have "session_told ?f (kept S) s" using c wait(2) by simp
    from told_attempt(1) [OF disjI1 [OF refl] this q wait(3) disjI1 [OF refl] wait(4)] wait(1) q
    show ?thesis by (simp add: sys_ok_def)
  next
    case (resume s at e r s' k)
    have "session_told ?f (kept S) s" "sess_waiting s = None" using c resume(2) by simp_all
    from told_attempt(2) [OF disjI2 [OF refl] this(1) q this(2) disjI2 [OF refl] resume(3,4)] resume(1)
    show ?thesis by (simp add: sys_ok_def put_link_def)
  next
    case (still_waiting s at e s')
    have "session_told ?f (kept S) s" "sess_waiting s = None" using c still_waiting(2) by simp_all
    from told_attempt(1) [OF disjI2 [OF refl] this(1) q this(2) disjI2 [OF refl] still_waiting(3)] still_waiting(1) q
    show ?thesis by (simp add: sys_ok_def)
  next
    case (hand_over s m e r s' k)
    have "session_told ?f (kept S) s" using c hand_over(2) by simp
    moreover have "\<exists>w. s' = (passed e s)\<lparr>sess_waiting := w\<rparr>" "\<exists>i. k = (the_link S)\<lparr>INCOMING := i\<rparr>"
      using hand_over(4) by (auto simp: deliver_def split: option.splits intro: exI [of _ "INCOMING (the_link S)"])
    ultimately show ?thesis
      using q passed_sane [of e s] hand_over(1)
      by (auto simp: sys_ok_def put_link_def fw_queues_ok_def queues_ok_def session_told_def session_sane_def
          reported_def queued_def)
  next
    case (lost n)
    then show ?thesis using q by (simp add: sys_ok_def drop_conn_def)
  next
    case (failed s msg s' k at e n)
    have "queues_ok k" using failed(2) q attempt_queues [of _ _ "the_link S" _ s' k] unfolding fw_queues_ok_def by blast
    then show ?thesis using q failed by (simp add: sys_ok_def drop_conn_def put_link_def fw_queues_ok_def)
  qed
qed

lemma fw_start_queues: "fw_queues_ok (fw_start tu fo d)"
proof -
  have "queues_ok link_new" by (simp add: queues_ok_def link_new_def)
  then show ?thesis
    by (simp add: fw_queues_ok_def fw_start_def Let_def fold_publish_ok COMMAND_TOPICS_def topic_defs)
qed

lemma sys_step_ok:
  assumes "config_ok cfg" "sys_ok S" "sys_step tu half fo cfg S S'"
  shows "sys_ok S'"
  using assms(3)
proof (cases rule: sys_step.cases)
  case (device f)
  have f: "fw_queues_ok f \<and> (untold (fw_of S) f \<or> fresh f)"
    by (rule fw_task_queues [OF device(2)]) (use assms(2) in \<open>simp add: sys_ok_def\<close>)
  have "conn_ok f (kept S) (conn_of S)"
    by (rule device_conn_ok [OF conjunct2 [OF f]]) (use assms(2) in \<open>simp add: sys_ok_def\<close>)
  with f device(1) show ?thesis by (simp add: sys_ok_def)
next
  case connection
  then show ?thesis by (rule conn_step_ok [OF assms(1) _ assms(2)])
next
  case (power_cycle n)
  then show ?thesis by (simp add: sys_ok_def restart_def drop_conn_def fw_start_queues)
qed

interpretation sys_safe: inductive_invariant "\<lambda>S. \<exists>d v. S = sys_start tu fo d v" "sys_step tu half fo cfg"
  "\<lambda>S. config_ok cfg \<longrightarrow> sys_ok S" for tu half fo cfg
  by (unfold_locales, force simp: sys_start_def sys_ok_def fw_start_queues, blast intro: sys_step_ok)

text \<open>A complete connection with nothing queued: the broker has the latest publication.\<close>

lemma all_reported:
  assumes "sys_ok S" "conn_of S = Looping s \<or> conn_of S = Waiting s at"
    and "CONNECTED (the_link S) = None" "OUTGOING (the_link S) = []"
    and "(t, p) \<in> set (state_messages (last (published (fw_of S))))"
  shows "broker_view S t = Some p"
proof -
  have "session_told (fw_of S) (kept S) s" "stream (conn_of S) = sent (transport (sess_client s))"
    using assms(1,2) by (auto simp: sys_ok_def)
  then have "reported (fw_of S) (broker_view S)" using assms(3) by (simp add: session_told_def broker_view_def)
  then show ?thesis using assms(4,5) by (auto simp: reported_def queued_def)
qed

end
