(* ===== verification/Recovery.thy ===== *)
theory Recovery
  imports Broker
begin

text \<open>
  What the system of \<open>Broker\<close> can and does reach: from every state the connection
  comes up again and the broker learns the state, and the steps of the connection
  are those of the code (\<open>session_start\<close> and \<open>session_loop\<close> of \<open>MqttLink\<close>).
\<close>

section \<open>Recovery\<close>

lemma put_link_again [simp]:
  "put_link k x (put_link k' x' S) = put_link k x S" "link_of (fw_of (put_link k x S)) = k" "conn_of (put_link k x S) = x"
  "kept (put_link k x S) = kept S" "conn_of S = x \<Longrightarrow> put_link (the_link S) x S = S"
  by (simp_all add: put_link_def)

text \<open>A quiet connection empties the queue.\<close>

lemma drain:
  assumes "conn_of S = Looping s" "sess_waiting s = None" "client_sane (sess_client s)" "idle (sess_client s)"
    and "\<forall>m \<in> set (OUTGOING (the_link S)). out_qos m = AtLeastOnce \<and> out_retain m \<and> fits (out_topic m, out_payload m)"
  shows "\<exists>s'. (conn_step tu cfg)\<^sup>*\<^sup>* S (put_link ((the_link S)\<lparr>OUTGOING := []\<rparr>) (Looping s') S)"
  using assms
proof (induction "OUTGOING (the_link S)" arbitrary: S s)
  case Nil
  then have "put_link ((the_link S)\<lparr>OUTGOING := []\<rparr>) (Looping s) S = S" by (simp add: put_link_def)
  then show ?case by (metis rtranclp.rtrancl_refl)
next
  case (Cons m q)
  have m: "out_qos m = AtLeastOnce" "out_retain m" "fits (out_topic m, out_payload m)"
    using Cons.prems(5) Cons.hyps(2) [symmetric] by simp_all
  obtain s1 where s1: "attempt poll s (the_link S) = Inl (Some (Ok ()), s1, (the_link S)\<lparr>OUTGOING := q\<rparr>)"
      "client_sane (sess_client s1)" "idle (sess_client s1)" "sess_waiting s1 = sess_waiting s"
    using idle_attempt [OF Cons.prems(3,4) Cons.hyps(2) [symmetric] m(3,1,2)] .
  let ?S = "put_link ((the_link S)\<lparr>OUTGOING := q\<rparr>) (Looping s1) S"
  have step: "conn_step tu cfg S ?S"
    by (rule conn_step.iterate [OF Cons.prems(1,2) s1(1)]) simp
  have "\<exists>s'. (conn_step tu cfg)\<^sup>*\<^sup>* ?S (put_link ((the_link ?S)\<lparr>OUTGOING := []\<rparr>) (Looping s') ?S)"
    by (rule Cons.hyps(1) [of _ s1]) (use s1 Cons.prems(2,5) Cons.hyps(2) [symmetric] in simp_all)
  then obtain s' where "(conn_step tu cfg)\<^sup>*\<^sup>* ?S (put_link ((the_link ?S)\<lparr>OUTGOING := []\<rparr>) (Looping s') ?S)" by blast
  then have "(conn_step tu cfg)\<^sup>*\<^sup>* ?S (put_link ((the_link S)\<lparr>OUTGOING := []\<rparr>) (Looping s') S)" by simp
  with converse_rtranclp_into_rtranclp [of "conn_step tu cfg", OF step] show ?case by blast
qed

lemma register_all:
  assumes "conn_of S = Subscribing c xs" "client_sane c" "idle c" "\<forall>x \<in> set xs. length (subscribed_topic x) \<le> 400"
  shows "\<exists>c'. (conn_step tu cfg)\<^sup>*\<^sup>* S (S\<lparr>conn_of := Subscribing c' []\<rparr>) \<and> client_sane c' \<and> idle c'"
  using assms
proof (induction xs arbitrary: S c)
  case Nil
  then have "S\<lparr>conn_of := Subscribing c []\<rparr> = S" by simp
  with Nil show ?case by (metis rtranclp.rtrancl_refl)
next
  case (Cons x xs)
  obtain r c1 where r: "subscribe (subscribed_topic x) (subscribed_qos x) c = (r, c1)" by fastforce
  have x: "length (subscribed_topic x) \<le> 400" using Cons.prems(4) by simp
  obtain ps where ps: "r = Some (Ok ())" "transmits c c1 ps"
    using subscribe_transmits [OF _ _ _ x r] Cons.prems(2) by (auto simp: client_sane_def)
  have s1: "client_sane c1" by (rule transmits_sane [OF Cons.prems(2) ps(2)])
  obtain enc where "send_packet enc (snd (get_next_packet_id c)) = (r, c1)"
    using r by (auto simp: subscribe_def split: prod.splits)
  from send_packet_idle [OF this] Cons.prems(3) have i1: "idle c1"
    by (simp add: get_next_packet_id_def Let_def idle_def buffered_def)
  let ?S = "S\<lparr>conn_of := Subscribing c1 xs\<rparr>"
  have step: "conn_step tu cfg S ?S"
    by (rule conn_step.register [OF Cons.prems(1)]) (use r ps(1) in simp)
  have "\<exists>c'. (conn_step tu cfg)\<^sup>*\<^sup>* ?S (?S\<lparr>conn_of := Subscribing c' []\<rparr>) \<and> client_sane c' \<and> idle c'"
    by (rule Cons.IH [of _ c1]) (use s1 i1 Cons.prems(4) in simp_all)
  then show ?case using converse_rtranclp_into_rtranclp [of "conn_step tu cfg", OF step] by auto
qed

text \<open>A broker that accepts, and sends nothing else.\<close>

definition accepting :: "'e net" where
  "accepting = \<lparr>incoming = [Chunk [0x20, 2, 0, 0]], send_script = [], sent = [], clock = 0\<rparr>"

lemma next_packet_connack:
  assumes "client_ok c" "rx_len c = 0" "rx_consumed c = 0" "length (rx_buffer c) = 512"
    and "incoming (transport c) = [Chunk [0x20, 2, 0, 0]]"
  shows "incoming (transport (snd (next_packet c))) = []"
proof -
  let ?n = "(transport c)\<lparr>incoming := []\<rparr>"
  let ?c = "store_rx [0x20, 2, 0, 0] (c\<lparr>transport := ?n\<rparr>)"
  have r: "rx_len ?c = 4" "length (rx_buffer ?c) = 512" "take 4 (rx_buffer ?c) = [0x20, 2, 0, 0]"
    using assms(2,4) by (simp_all add: store_rx_def overwrite_def)
  have "complete_packet_len [0x20, 2, 0, 0 :: u8] = Ok (Some 4)"
    by (simp add: complete_packet_len_def packet_len_loop.simps get_def Let_def)
  then have "next_packet_loop ?c = (Some (Ok (Some 4)), ?c)"
    by (subst next_packet_loop.simps) (simp add: r)
  moreover have "next_packet_loop c = next_packet_loop ?c"
    using assms by (subst next_packet_loop.simps)
      (simp add: net_recv_def complete_packet_len_def packet_len_loop.simps get_def Let_def)
  ultimately show ?thesis using assms(3) by (simp add: next_packet_def bind_def drop_consumed_def store_rx_def)
qed

lemma handshake_accepted:
  fixes net :: "'e net"
  assumes "config_ok cfg" "send_script net = []" "available (incoming net) = [0x20, 0x02, 0, 0] @ rest"
  obtains c where "connect tu (MqttClient_new MQTT_BUFFER_SIZE net (client_options tu cfg)) = (Some (Ok ()), c)"
    "client_sane c" "inbox c = rest" "length (rx_buffer c) = 512"
proof -
  define c0 where "c0 = MqttClient_new MQTT_BUFFER_SIZE net (client_options tu cfg)"
  have o: "options c0 = client_options tu cfg" "transport c0 = net" "length (tx_buffer c0) = 512"
      "length (rx_buffer c0) = 512"
    by (simp_all add: c0_def MqttClient_new_def MQTT_BUFFER_SIZE_def)
  have p: "send_script (transport c0) = []" "connect_ok (connect_packet tu (options c0))"
      "5 + length (connect_content (connect_packet tu (options c0))) \<le> length (tx_buffer c0)"
      "length (tx_buffer c0) \<le> 268435456" "4 \<le> length (rx_buffer c0)"
      "available (incoming (transport c0)) = [0x20, 0x02, 0, 0] @ rest"
    using connect_packet_fits [OF assms(1), of tu] o assms(2,3) by (simp_all add: MQTT_BUFFER_SIZE_def)
  obtain c where c: "connect tu c0 = (Some (Ok ()), c)" "inbox c = rest" "length (rx_buffer c) = 512"
    by (rule connect_run [OF p]) (simp add: o)
  have "client_sane c" using handshake_inversion [OF assms(1,2) c(1) [unfolded c0_def]] by metis
  with that c show ?thesis by (simp add: c0_def)
qed

lemma handshake_idle:
  fixes tu cfg
  assumes "config_ok cfg"
  obtains c :: "'e MqttClient" where "client_sane c" "idle c"
    "connect tu (MqttClient_new MQTT_BUFFER_SIZE accepting (client_options tu cfg)) = (Some (Ok ()), c)"
proof -
  have n: "send_script (accepting :: 'e net) = []" "available (incoming (accepting :: 'e net)) = [0x20, 0x02, 0, 0] @ []"
    by (simp_all add: accepting_def)
  obtain c :: "'e MqttClient" where c: "client_sane c" "inbox c = []" "length (rx_buffer c) = 512"
      "connect tu (MqttClient_new MQTT_BUFFER_SIZE accepting (client_options tu cfg)) = (Some (Ok ()), c)"
    using handshake_accepted [OF assms n] by metis
  obtain c2 r3 c3 where i: "next_packet c2 = (r3, c3)" "client_ok c2" "rx_len c2 = 0" "rx_consumed c2 = 0"
      "length (rx_buffer c2) = 512" "incoming (transport c2) = incoming accepting" "transport c = transport c3"
    using handshake_inversion [OF assms n(1) c(4)] by metis
  have "incoming (transport c) = []"
    using next_packet_connack [OF i(2-5)] i(1,6,7) by (simp add: accepting_def)
  then have "idle c" using c(2,3) by (simp add: idle_def inbox_def)
  then show ?thesis using that c(1,4) by blast
qed

lemma conn_steps: "(conn_step tu cfg)\<^sup>*\<^sup>* S S' \<Longrightarrow> (sys_step tu half fo cfg)\<^sup>*\<^sup>* S S'"
  by (induction rule: rtranclp_induct) (auto intro: rtranclp.rtrancl_into_rtrancl sys_step.connection)

text \<open>A round of the discovery task on an empty queue.\<close>

lemma republish_round:
  assumes "configs to_vec version = (Ok ms :: (unit, (str \<times> bytes) list) outcome)" "OUTGOING k = []"
  shows "\<exists>k'. republish to_vec version c k = (Ok k' :: (unit, link) outcome) \<and>
    k' = k\<lparr>OUTGOING := map state_message (ms @ state_messages c)\<rparr>"
proof -
  note ms = config_topics_utf8 [OF assms(1)]
  have "publish_state c (publish_messages ms k) = k\<lparr>OUTGOING := map state_message (ms @ state_messages c)\<rparr>"
    using ms(1,3) assms(2) by (simp add: publish_state_queue publish_messages_queue newest_all state_messages_def)
  then show ?thesis using assms(1) by (simp add: republish_def publish_all_def)
qed

lemma reconnects:
  fixes S :: "('d, 'e) sys"
  assumes "config_ok cfg" "sys_ok S"
  obtains S' s where "(conn_step tu cfg)\<^sup>*\<^sup>* S S'" "conn_of S' = Looping s" "sess_waiting s = None"
    "client_sane (sess_client s)" "idle (sess_client s)"
    "\<exists>q. fw_of S' = (fw_of S)\<lparr>link_of := (the_link S)\<lparr>SUB_QUEUE := q, OUTGOING := [], CONNECTED := Some ()\<rparr>\<rparr>"
proof -
  define S1 where "S1 = drop_conn 0 (conn_of S) S"
  have 1: "conn_step tu cfg S S1" "conn_of S1 = Offline" "fw_of S1 = fw_of S"
    unfolding S1_def by (rule conn_step.lost) (simp_all add: drop_conn_def)
  obtain c :: "'e MqttClient" where c: "client_sane c" "idle c"
      "connect tu (MqttClient_new MQTT_BUFFER_SIZE accepting (client_options tu cfg)) = (Some (Ok ()), c)"
    using handshake_idle [OF assms(1)] .
  define S2 where "S2 = put_link ((the_link S1)\<lparr>SUB_QUEUE := []\<rparr>) (Subscribing c (SUBSCRIPTIONS (the_link S1))) S1"
  have 2: "conn_step tu cfg S1 S2"
    unfolding S2_def by (rule conn_step.handshake [OF 1(2) _ _ c(3)]) (simp_all add: accepting_def)
  have c2: "conn_of S2 = Subscribing c (SUBSCRIPTIONS (the_link S))" by (simp add: S2_def 1(3))
  have short: "\<forall>x \<in> set (SUBSCRIPTIONS (the_link S)). length (subscribed_topic x) \<le> 400"
    using assms(2) by (simp add: sys_ok_def fw_queues_ok_def queues_ok_def)
  obtain c' where c': "(conn_step tu cfg)\<^sup>*\<^sup>* S2 (S2\<lparr>conn_of := Subscribing c' []\<rparr>)" "client_sane c'" "idle c'"
    using register_all [OF c2 c(1,2) short, of tu cfg] by blast
  define S3 where "S3 = S2\<lparr>conn_of := Subscribing c' []\<rparr>"
  define S4 where "S4 = put_link ((the_link S3)\<lparr>OUTGOING := [], CONNECTED := signal_set () (CONNECTED (the_link S3))\<rparr>)
      (Looping \<lparr>sess_client = c', sess_waiting = None\<rparr>) S3"
  have 4: "conn_step tu cfg S3 S4" unfolding S4_def by (rule conn_step.established) (simp add: S3_def)
  have "(conn_step tu cfg)\<^sup>*\<^sup>* S S4"
    using 1(1) 2 c'(1) 4 unfolding S3_def [symmetric]
    by (meson converse_rtranclp_into_rtranclp rtranclp.rtrancl_into_rtrancl)
  moreover have "\<exists>q. fw_of S4 = (fw_of S)\<lparr>link_of := (the_link S)\<lparr>SUB_QUEUE := q, OUTGOING := [], CONNECTED := Some ()\<rparr>\<rparr>"
    by (simp add: S4_def S3_def S2_def put_link_def 1(3)) (metis link.update_convs)
  ultimately show ?thesis
    by (intro that [of S4 "\<lparr>sess_client = c', sess_waiting = None\<rparr>"]) (use c'(2,3) in \<open>simp_all add: S4_def\<close>)
qed

lemma recovery:
  fixes S :: "('d, 'e) sys"
  assumes "config_ok cfg" "sys_ok S" "configs to_vec version = (Ok ms :: (unit, (str \<times> bytes) list) outcome)"
    and "\<forall>x \<in> set ms. fits x"
  obtains S' s where "(sys_step tu half fo cfg)\<^sup>*\<^sup>* S S'" "conn_of S' = Looping s"
    "site_of (fw_of S') = site_of (fw_of S)" "last (published (fw_of S')) = controls (gate_of (fw_of S))"
    "CONNECTED (the_link S') = None" "OUTGOING (the_link S') = []"
proof -
  obtain S4 s where 4: "(conn_step tu cfg)\<^sup>*\<^sup>* S S4" "conn_of S4 = Looping s" "sess_waiting s = None"
      "client_sane (sess_client s)" "idle (sess_client s)"
    and link: "\<exists>q. fw_of S4 = (fw_of S)\<lparr>link_of := (the_link S)\<lparr>SUB_QUEUE := q, OUTGOING := [], CONNECTED := Some ()\<rparr>\<rparr>"
    using reconnects [OF assms(1,2)] .
  obtain k4 where k4: "fw_of S4 = (fw_of S)\<lparr>link_of := k4\<rparr>" "OUTGOING k4 = []" "CONNECTED k4 = Some ()"
    using link by auto
  let ?c = "controls (gate_of (fw_of S))" and ?k = "k4\<lparr>CONNECTED := None\<rparr>"
  obtain k5 where k5: "republish to_vec version ?c ?k = (Ok k5 :: (unit, link) outcome)"
      "k5 = ?k\<lparr>OUTGOING := map state_message (ms @ state_messages ?c)\<rparr>"
    using republish_round [OF assms(3), of ?k ?c] k4(2) by auto
  define S5 where "S5 = S4\<lparr>fw_of := (fw_of S4)\<lparr>link_of := k5, published := published (fw_of S4) @ [?c]\<rparr>\<rparr>"
  have "fw_task tu half fo (fw_of S4) ((fw_of S4)\<lparr>link_of := k5, published := published (fw_of S4) @ [controls (gate_of (fw_of S4))]\<rparr>)"
    by (rule fw_task.announce [where k = ?k])
      (use k4(1,3) k5(1) in \<open>simp_all add: wait_connected_def signal_take_def\<close>)
  from sys_step.device [of tu half fo S4, OF this] have 5: "sys_step tu half fo cfg S4 S5" by (simp add: S5_def k4(1))
  have "fits x" if "x \<in> set (ms @ state_messages ?c)" for x
    using that assms(4) state_message_ok [of "fst x" "snd x" ?c] by (auto simp: fits_def MQTT_BUFFER_SIZE_def)
  then have q: "\<forall>m \<in> set (OUTGOING (the_link S5)). out_qos m = AtLeastOnce \<and> out_retain m \<and> fits (out_topic m, out_payload m)"
    using k5(2) by (auto simp: S5_def)
  have c5: "conn_of S5 = Looping s" by (simp add: S5_def 4(2))
  obtain s' where 6: "(conn_step tu cfg)\<^sup>*\<^sup>* S5 (put_link ((the_link S5)\<lparr>OUTGOING := []\<rparr>) (Looping s') S5)"
    using drain [OF c5 4(3-5) q] by blast
  have run: "(sys_step tu half fo cfg)\<^sup>*\<^sup>* S (put_link ((the_link S5)\<lparr>OUTGOING := []\<rparr>) (Looping s') S5)"
    by (rule rtranclp_trans [OF conn_steps [OF 4(1)]
          converse_rtranclp_into_rtranclp [of "sys_step tu half fo cfg", OF 5 conn_steps [OF 6]]])
  show ?thesis by (rule that [OF run]) (simp_all add: S5_def put_link_def k4(1) k5(2))
qed

section \<open>The description of the connection by iterations\<close>

lemma poll_clock:
  assumes "client_sane c" "op = poll \<or> op = poll_body" "op c = (r, c')"
  shows "clock (transport c') = clock (transport c)"
proof -
  note c = assms(1) [unfolded client_sane_def]
  have cs: "client_ok c" "sends c" "4 \<le> length (tx_buffer c)" using c by simp_all
  have body: "clock (transport d') = clock (transport d)" if "client_ok d" "poll_body d = (r, d')" for d d' :: "'a MqttClient"
    by (rule poll_body_frame(2) [OF that])
  obtain c1 where k: "keep_alive_ping c = (Some (Ok ()), c1)" "client_ok c1"
    using ping_step [OF cs] by metis
  have "clock (transport c1) = clock (transport c)"
    using k(1) send_packet_frame(2) [of PingReq_encode c _ c1] by (auto simp: keep_alive_ping_def split: if_splits)
  moreover have "poll c = poll_body c1" using c k(1) by (simp add: poll_def bind_def sends_def)
  ultimately show ?thesis using assms(2,3) body [of c c'] body [of c1 c'] cs(1) k(2) by auto
qed

lemma attempt_waits_clock:
  assumes "attempt op s k = Inr s'" "op = poll \<or> op = poll_body" "client_sane (sess_client s)"
  shows "clock (transport (sess_client s')) = clock (transport (sess_client s))"
proof -
  obtain r c where o: "op (sess_client s) = (r, c)" by fastforce
  then have "sess_client s' = c" using assms(1) by (auto simp: attempt_def split: option.splits)
  then show ?thesis using poll_clock [OF assms(3,2) o] by simp
qed

text \<open>Registering the subscriptions, the start of a session, and one iteration of the loop.\<close>

lemma resubscribe_steps:
  assumes "resubscribe xs d = (Some (Ok ()), c)" "conn_of T = Subscribing d xs"
  shows "(conn_step tu cfg)\<^sup>*\<^sup>* T (T\<lparr>conn_of := Subscribing c []\<rparr>)"
  using assms
proof (induction xs arbitrary: d T)
  case Nil
  then have "T\<lparr>conn_of := Subscribing c []\<rparr> = T" by simp
  then show ?case by (metis rtranclp.rtrancl_refl)
next
  case (Cons x xs)
  obtain d1 where d1: "subscribe (subscribed_topic x) (subscribed_qos x) d = (Some (Ok ()), d1)"
      "resubscribe xs d1 = (Some (Ok ()), c)"
    using Cons.prems(1) by (auto split: prod.splits option.splits outcome.splits)
  let ?T = "T\<lparr>conn_of := Subscribing d1 xs\<rparr>"
  have "conn_step tu cfg T ?T" by (rule conn_step.register [OF Cons.prems(2) d1(1)])
  moreover have "(conn_step tu cfg)\<^sup>*\<^sup>* ?T (?T\<lparr>conn_of := Subscribing c []\<rparr>)" by (rule Cons.IH [OF d1(2)]) simp
  ultimately show ?case by (simp add: converse_rtranclp_into_rtranclp)
qed

lemma resubscribe_sane:
  "resubscribe xs d = (Some (Ok ()), c) \<Longrightarrow> client_sane d \<Longrightarrow> \<forall>x \<in> set xs. length (subscribed_topic x) \<le> 400 \<Longrightarrow>
   client_sane c"
proof (induction xs arbitrary: d)
  case (Cons x xs)
  obtain d1 where d1: "subscribe (subscribed_topic x) (subscribed_qos x) d = (Some (Ok ()), d1)"
      "resubscribe xs d1 = (Some (Ok ()), c)"
    using Cons.prems(1) by (auto split: prod.splits option.splits outcome.splits)
  have "client_sane d1"
    using subscribe_transmits [OF _ _ _ _ d1(1)] Cons.prems(2,3) transmits_sane [OF Cons.prems(2)]
    by (auto simp: client_sane_def)
  from Cons.IH [OF d1(2) this] Cons.prems(3) show ?case by simp
qed simp

lemma session_start_steps:
  assumes "session_start tu cfg net (the_link S) = (Some (Ok ()), c, k)" "conn_of S = Offline"
    and "send_script net = []" "sent net = []"
  shows "(conn_step tu cfg)\<^sup>*\<^sup>* S (put_link k (Looping \<lparr>sess_client = c, sess_waiting = None\<rparr>) S)"
proof -
  let ?k = "(the_link S)\<lparr>SUB_QUEUE := []\<rparr>"
  obtain d where d: "connect tu (MqttClient_new MQTT_BUFFER_SIZE net (client_options tu cfg)) = (Some (Ok ()), d)"
      "resubscribe (SUBSCRIPTIONS (the_link S)) d = (Some (Ok ()), c)"
      "k = ?k\<lparr>OUTGOING := [], CONNECTED := signal_set () (CONNECTED ?k)\<rparr>"
    using assms(1) by (auto simp: session_start_def Let_def split: prod.splits option.splits outcome.splits)
  let ?S2 = "put_link ?k (Subscribing d (SUBSCRIPTIONS (the_link S))) S"
  let ?S3 = "?S2\<lparr>conn_of := Subscribing c []\<rparr>"
  have 1: "conn_step tu cfg S ?S2" by (rule conn_step.handshake [OF assms(2-4) d(1)])
  have 2: "(conn_step tu cfg)\<^sup>*\<^sup>* ?S2 ?S3" by (rule resubscribe_steps [OF d(2)]) simp
  have "conn_step tu cfg ?S3 (put_link ((the_link ?S3)\<lparr>OUTGOING := [], CONNECTED := signal_set () (CONNECTED (the_link ?S3))\<rparr>)
      (Looping \<lparr>sess_client = c, sess_waiting = None\<rparr>) ?S3)"
    by (rule conn_step.established) simp
  then have 3: "conn_step tu cfg ?S3 (put_link k (Looping \<lparr>sess_client = c, sess_waiting = None\<rparr>) S)"
    using d(3) by (simp add: put_link_def)
  from rtranclp.rtrancl_into_rtrancl [OF converse_rtranclp_into_rtranclp [of "conn_step tu cfg", OF 1 2] 3]
  show ?thesis .
qed

lemma iteration_steps:
  fixes S :: "('d, 'e) sys"
  assumes "session_iteration tu e s (the_link S) = (r, s', k)" "r = None \<or> r = Some (Ok ())" "conn_of S = Looping s"
    and "meanwhile e = id" "client_sane (sess_client s)" "queues_ok (the_link S)"
  shows "\<exists>x. (x = Looping s' \<or> r = None \<and> (\<exists>at. x = Waiting s' at)) \<and> (conn_step tu cfg)\<^sup>*\<^sup>* S (put_link k x S)
    \<and> client_sane (sess_client s') \<and> queues_ok k"
proof (cases "sess_waiting s")
  case (Some m)
  then have d: "deliver m (passed e s) (the_link S) = (r, s', k)"
    using assms(1,4) by (simp add: session_iteration_def passed_def)
  have "client_sane (sess_client s') \<and> queues_ok k"
    using d assms(5,6) by (auto simp: deliver_def passed_def pass_time_def client_sane_def client_ok_def sends_def
        queues_ok_def split: option.splits)
  with conn_step.hand_over [OF assms(3) Some d, of tu cfg] show ?thesis by blast
next
  case None
  note a = assms(1) [unfolded session_iteration_attempts [OF None]]
  have sane: "client_sane (sess_client (passed e s1)) = client_sane (sess_client s1)" for s1 :: "'e session"
    by (simp add: passed_def pass_time_def client_sane_def client_ok_def sends_def)
  show ?thesis
  proof (cases "attempt poll s (the_link S)")
    case (Inl x)
    then have i: "attempt poll s (the_link S) = Inl (r, s', k)" using a by simp
    from attempt_conserves(2) [OF disjI1 [OF refl] assms(5,6) None i assms(2)] transmits_sane [OF assms(5)]
    show ?thesis using conn_step.iterate [OF assms(3) None i assms(2), of tu cfg] by blast
  next
    case (Inr s1)
    have s1: "client_sane (sess_client s1)" "sess_waiting s1 = None"
      using attempt_conserves(1) [OF disjI1 [OF refl] assms(5,6) None Inr] transmits_sane [OF assms(5)] by blast+
    define at where "at = clock (transport (sess_client s)) + KEEP_ALIVE_CHECK tu"
    let ?S1 = "S\<lparr>conn_of := Waiting s1 at\<rparr>"
    have 1: "conn_step tu cfg S ?S1" unfolding at_def by (rule conn_step.wait [OF assms(3) None Inr])
    have w: "conn_of ?S1 = Waiting s1 at" "the_link ?S1 = the_link S" by simp_all
    have sp: "client_sane (sess_client (passed e s1))" "sess_waiting (passed e s1) = None" using s1 sane by simp_all
    show ?thesis
    proof (cases "attempt poll_body (passed e s1) (the_link S)")
      case (Inl x)
      then have i: "attempt poll_body (passed e s1) (the_link ?S1) = Inl (r, s', k)"
        using a Inr assms(4) by (simp add: passed_def)
      have "conn_step tu cfg ?S1 (put_link k (Looping s') ?S1)" by (rule conn_step.resume [OF w(1) i assms(2)])
      then have 2: "conn_step tu cfg ?S1 (put_link k (Looping s') S)" by (simp add: put_link_def)
      have "(conn_step tu cfg)\<^sup>*\<^sup>* S (put_link k (Looping s') S)"
        by (rule converse_rtranclp_into_rtranclp [of "conn_step tu cfg", OF 1 r_into_rtranclp [of "conn_step tu cfg", OF 2]])
      with attempt_conserves(2) [OF disjI2 [OF refl] sp(1) assms(6) sp(2) i [unfolded w(2)] assms(2)] transmits_sane [OF sp(1)]
      show ?thesis by blast
    next
      case (Inr s2)
      then have r: "r = (if KEEP_ALIVE_CHECK tu \<le> waited e then Some (Ok ()) else None)" "s' = s2" "k = the_link S"
        using a \<open>attempt poll s (the_link S) = Inr s1\<close> assms(4) by (auto simp: passed_def)
      have "clock (transport (sess_client s2)) = clock (transport (sess_client s)) + waited e"
        using attempt_waits_clock [OF Inr _ sp(1)] attempt_waits_clock [OF \<open>attempt poll s (the_link S) = Inr s1\<close> _ assms(5)]
        by (simp add: passed_def pass_time_def)
      then have t: "at \<le> clock (transport (sess_client s2)) \<longleftrightarrow> KEEP_ALIVE_CHECK tu \<le> waited e" by (simp add: at_def)
      have "conn_step tu cfg ?S1 (?S1\<lparr>conn_of := (if at \<le> clock (transport (sess_client s2)) then Looping s2 else Waiting s2 at)\<rparr>)"
        by (rule conn_step.still_waiting [OF w(1), where e = e]) (simp add: Inr)
      then have 2: "conn_step tu cfg ?S1 (put_link k (if KEEP_ALIVE_CHECK tu \<le> waited e then Looping s2 else Waiting s2 at) S)"
        unfolding t r(3) by (simp add: put_link_def)
      have "(conn_step tu cfg)\<^sup>*\<^sup>* S (put_link k (if KEEP_ALIVE_CHECK tu \<le> waited e then Looping s2 else Waiting s2 at) S)"
        by (rule converse_rtranclp_into_rtranclp [of "conn_step tu cfg", OF 1 r_into_rtranclp [of "conn_step tu cfg", OF 2]])
      with attempt_conserves(1) [OF disjI2 [OF refl] sp(1) assms(6) sp(2) Inr] transmits_sane [OF sp(1)] assms(6) r
      show ?thesis by (intro exI [of _ "if KEEP_ALIVE_CHECK tu \<le> waited e then Looping s2 else Waiting s2 at"]) auto
    qed
  qed
qed

lemma session_loop_steps:
  assumes "session_loop tu es s (the_link S) = (None, s', k)" "conn_of S = Looping s"
    and "\<forall>e \<in> set es. meanwhile e = id" "client_sane (sess_client s)" "queues_ok (the_link S)"
  shows "\<exists>x. (x = Looping s' \<or> (\<exists>at. x = Waiting s' at)) \<and> (conn_step tu cfg)\<^sup>*\<^sup>* S (put_link k x S)"
  using assms
proof (induction es arbitrary: s S)
  case Nil
  then show ?case by (metis prod.inject put_link_again(5) rtranclp.rtrancl_refl session_loop.simps(1))
next
  case (Cons e es)
  obtain r s1 k1 where i: "session_iteration tu e s (the_link S) = (r, s1, k1)" by (metis prod_cases3)
  have e: "meanwhile e = id" using Cons.prems(3) by (metis list.set_intros(1))
  have ok: "r = None \<or> r = Some (Ok ())"
    using Cons.prems(1) i by (auto split: option.splits outcome.splits)
  obtain x where x: "x = Looping s1 \<or> r = None \<and> (\<exists>at. x = Waiting s1 at)" "(conn_step tu cfg)\<^sup>*\<^sup>* S (put_link k1 x S)"
      "client_sane (sess_client s1)" "queues_ok k1"
    using iteration_steps [OF i ok Cons.prems(2) e Cons.prems(4,5)] by blast
  show ?case
  proof (cases "r = None")
    case True
    then have "s' = s1" "k = k1" using Cons.prems(1) i by simp_all
    with x show ?thesis by blast
  next
    case False
    then have c: "r = Some (Ok ())" "x = Looping s1" using ok x(1) by auto
    have "session_loop tu es s1 (the_link (put_link k1 x S)) = (None, s', k)" using Cons.prems(1) i c(1) by simp
    from Cons.IH [OF this _ _ x(3)] c(2) x(4) Cons.prems(3)
    obtain y where "y = Looping s' \<or> (\<exists>at. y = Waiting s' at)" "(conn_step tu cfg)\<^sup>*\<^sup>* (put_link k1 x S) (put_link k y S)"
      by auto
    with rtranclp_trans [OF x(2)] show ?thesis by blast
  qed
qed

lemma state_recovered:
  fixes S :: "('d, 'e) sys"
  assumes "config_ok cfg" "sys_ok S" "configs to_vec version = (Ok ms :: (unit, (str \<times> bytes) list) outcome)"
    and "\<forall>x \<in> set ms. fits x"
  shows "\<exists>S'. (sys_step tu half fo cfg)\<^sup>*\<^sup>* S S' \<and> site_of (fw_of S') = site_of (fw_of S) \<and>
    (\<forall>(t, p) \<in> set (state_messages (controls (gate_of (fw_of S)))). broker_view S' t = Some p)"
proof -
  obtain S' s where s: "(sys_step tu half fo cfg)\<^sup>*\<^sup>* S S'" "conn_of S' = Looping s"
      "site_of (fw_of S') = site_of (fw_of S)" "last (published (fw_of S')) = controls (gate_of (fw_of S))"
      "CONNECTED (the_link S') = None" "OUTGOING (the_link S') = []"
    using recovery [OF assms] .
  have "sys_ok S'" using sys_safe.steps_inv [OF s(1)] assms(1,2) by simp
  from all_reported [OF this disjI1 [OF s(2)] s(5,6)] s(4) have
    "\<forall>(t, p) \<in> set (state_messages (controls (gate_of (fw_of S)))). broker_view S' t = Some p" by auto
  with s(1,3) show ?thesis by blast
qed

section \<open>Properties\<close>




section \<open>A concrete system\<close>

definition demo_sys :: "(ram, unit) sys" where
  "demo_sys = sys_start mhz_clock ram_ops half_open_ram (\<lambda>_. None)"

lemma demo_config_ok: "config_ok demo_config"
  by (simp add: demo_config_def config_ok_def Bytes.lit_def)

lemma demo_sys_facts:
  "sys_reachable mhz_clock half ram_ops cfg demo_sys" "conn_of demo_sys = Offline" "queues_ok (the_link demo_sys)"
  "SUBSCRIPTIONS (the_link demo_sys) = []"
proof -
  show "sys_reachable mhz_clock half ram_ops cfg demo_sys" by (rule reach_init) (auto simp: demo_sys_def)
  show "conn_of demo_sys = Offline" by (simp add: demo_sys_def sys_start_def)
  show "queues_ok (the_link demo_sys)"
    using fw_start_queues [of mhz_clock ram_ops half_open_ram] by (simp add: fw_queues_ok_def demo_sys_def sys_start_def)
  have "SUBSCRIPTIONS (fold publish_state cs k) = SUBSCRIPTIONS k" for cs k
    by (induction cs arbitrary: k) (simp_all add: publish_state_queue)
  then show "SUBSCRIPTIONS (the_link demo_sys) = []"
    by (simp add: demo_sys_def sys_start_def fw_start_def Let_def link_new_def)
qed

lemma demo_serializer:
  "\<exists>ms. configs (\<lambda>j. Some [123, 125]) [49] = (Ok ms :: (unit, (str \<times> bytes) list) outcome) \<and> (\<forall>x \<in> set ms. fits x)"
  by (simp add: configs_def json_def fits_def MQTT_BUFFER_SIZE_def COVER_CONFIG_TOPIC_def WIND_CONFIG_TOPIC_def
      SPARE_INPUT_CONFIG_TOPIC_def BARRIER_BYPASS_CONFIG_TOPIC_def BUTTON_CONFIG_TOPIC_def)




end
