(* ===== verification/GateLiveness.thy ===== *)
theory GateLiveness
  imports GateProps GateFrame
begin

text \<open>
  Progress of the gate controller. \<open>auto_step\<close> lets the gate task run on its own:
  it polls the task, and when the task waits for its timer the clock moves to the
  deadline. Every such step reduces the outstanding work, so the task always
  comes to rest; an undisturbed movement ends exactly at the end position, and an
  engaged wind lock always ends with a fully open gate once barrier 1 is clear.
\<close>

section \<open>Letting the task run\<close>

definition auto_step :: "time_ops \<Rightarrow> gate \<Rightarrow> gate option" where
  "auto_step tu g =
     (case task g of
        Returned snap \<Rightarrow> gate_react tu CallStep g
      | AwaitCommand \<Rightarrow> poll_gate tu g
      | Driving l at \<Rightarrow>
          (case poll_gate tu g of
             Some g' \<Rightarrow> Some g'
           | None \<Rightarrow> gate_react tu TimerFired (g\<lparr>dev := clock_advance (at - now (dev g)) (dev g)\<rparr>)))"

fun auto_run :: "time_ops \<Rightarrow> nat \<Rightarrow> gate \<Rightarrow> gate" where
  "auto_run tu 0 g = g"
| "auto_run tu (Suc n) g = (case auto_step tu g of None \<Rightarrow> g | Some g' \<Rightarrow> auto_run tu n g')"

section \<open>Outstanding work\<close>

primrec phase_weight :: "phase \<Rightarrow> nat" where
  "phase_weight (Waiting t) = 2"
| "phase_weight (PhaseRunning t) = 1"
| "phase_weight Done = 0"

definition task_weight :: "gate_task \<Rightarrow> nat" where
  "task_weight k = (case k of Returned _ \<Rightarrow> 1 | AwaitCommand \<Rightarrow> 0
     | Driving l _ \<Rightarrow> 2 + phase_weight (a_phase l) + phase_weight (b_phase l))"

definition owed :: "controls \<Rightarrow> nat" where
  "owed c = 14 * of_bool (command c \<noteq> None) + of_bool (barrier_changed c \<noteq> None)
     + 2 * of_bool (wind_lock_reset c \<noteq> None)"

definition work :: "gate \<Rightarrow> nat" where
  "work g = owed (controls g) + 7 * of_bool (pending g \<noteq> None) + task_weight (task g)"

lemma phase_weight_le: "phase_weight ph \<le> 2"
  by (cases ph) simp_all

lemma work_bound: "work g \<le> 30"
proof -
  have "task_weight (task g) \<le> 6"
    using phase_weight_le by (auto simp: task_weight_def add_mono split: gate_task.split)
      (metis add_mono_thms_linordered_semiring(1) numeral_Bit0)
  then show ?thesis by (simp add: work_def owed_def)
qed

lemma leaf_pass_weight:
  assumes "leaf_pass tu d (h, m, ph, mv) = (h', m', ph', mv')"
  shows "phase_weight ph' \<le> phase_weight ph"
    and "deadline ph = Some t \<Longrightarrow> t \<le> now h \<Longrightarrow> phase_weight ph' < phase_weight ph"
  using assms
  by (cases ph; auto simp: leaf_pass_def leaf_start_pass_def leaf_stop_pass_def deadline_def
      split: if_splits option.splits prod.splits)+

lemma owed_simps [simp]:
  "owed (c\<lparr>barrier_bypass := x\<rparr>) = owed c" "owed (c\<lparr>current_direction := y, position_class := z\<rparr>) = owed c"
  "owed (set_direction d c) = owed c"
  by (simp_all add: owed_def)

lemma drive_end_work: "work (drive_end tu l r g) = owed (controls g) + 7 * of_bool (r \<noteq> None) + 1"
  by (simp add: work_def task_weight_def drive_end_def step_done_def Let_def)

text \<open>A pass never adds work, and it removes some when a deadline has passed.\<close>

lemma drive_pass_work:
  assumes "wired g" "locals_ok tu g l"
  shows "work (drive_pass tu l g) \<le> owed (controls g) + 7 * of_bool (pending g \<noteq> None)
      + 2 + phase_weight (a_phase l) + phase_weight (b_phase l)"
    and "next_deadline (a_phase l) (b_phase l) = Some at \<Longrightarrow> at \<le> now (dev g) \<Longrightarrow>
      work (drive_pass tu l g) < owed (controls g) + 7 * of_bool (pending g \<noteq> None)
      + 2 + phase_weight (a_phase l) + phase_weight (b_phase l)"
proof -
  have "work (drive_pass tu l g) \<le> owed (controls g) + 7 * of_bool (pending g \<noteq> None)
      + 2 + phase_weight (a_phase l) + phase_weight (b_phase l) \<and>
    (next_deadline (a_phase l) (b_phase l) = Some at \<longrightarrow> at \<le> now (dev g) \<longrightarrow>
      work (drive_pass tu l g) < owed (controls g) + 7 * of_bool (pending g \<noteq> None)
      + 2 + phase_weight (a_phase l) + phase_weight (b_phase l))"
    using assms
  proof (cases rule: drive_pass_cases)
    case refused
    then show ?thesis by (simp add: drive_end_work)
  next
    case (finished l' g' h1 v1)
    then show ?thesis by (simp add: drive_end_work)
  next
    case (continues l' g' at' h1 v1)
    note wa = leaf_pass_weight [OF continues(15)] and wb = leaf_pass_weight [OF continues(16)]
    have "now h1 = now (dev g)"
      using leaf_pass_facts(4) [OF continues(15)] assms
      by (auto simp: wired_def locals_ok_def dest: foreign_write_now)
    with wa wb have "phase_weight (a_phase l') + phase_weight (b_phase l') < phase_weight (a_phase l) + phase_weight (b_phase l)"
      if "next_deadline (a_phase l) (b_phase l) = Some at" "at \<le> now (dev g)"
      using that by (auto simp: next_deadline_def min_def split: option.splits if_splits)
    then show ?thesis
      using continues wa(1) wb(1) by (auto simp: work_def task_weight_def)
  qed
  then show "work (drive_pass tu l g) \<le> owed (controls g) + 7 * of_bool (pending g \<noteq> None)
      + 2 + phase_weight (a_phase l) + phase_weight (b_phase l)"
    and "next_deadline (a_phase l) (b_phase l) = Some at \<Longrightarrow> at \<le> now (dev g) \<Longrightarrow>
      work (drive_pass tu l g) < owed (controls g) + 7 * of_bool (pending g \<noteq> None)
      + 2 + phase_weight (a_phase l) + phase_weight (b_phase l)"
    by auto
qed

lemma execute_work:
  assumes "wired g" "state (leaf_a g) = Idle" "state (leaf_b g) = Idle"
  shows "work (execute_command tu cmd g) \<le> owed (controls g) + 7 * of_bool (pending g \<noteq> None) + 6"
proof -
  have d: "work (drive_begin tu d g) \<le> owed (controls g) + 7 * of_bool (pending g \<noteq> None) + 6" for d
  proof (cases "blocked (controls g) d")
    case None
    let ?l = "drive_start_locals tu d g"
    have "phase_weight (a_phase ?l) \<le> 2" "phase_weight (b_phase ?l) \<le> 2" by (rule phase_weight_le)+
    moreover have "wired (drive_entry d g)" "locals_ok tu (drive_entry d g) ?l"
      using drive_entry_ok [OF assms] by auto
    note drive_pass_work(1) [OF this]
    ultimately show ?thesis
      by (simp add: drive_begin_unblocked [OF None])
  qed (simp add: drive_begin_def step_done_def work_def task_weight_def)
  show ?thesis
    using d [of Opening] d [of Closing]
    by (auto simp: execute_command_def step_done_def work_def [of "gate_settle _"] task_weight_def
        split: gate_command.split)
qed

lemma owed_cleared:
  "command c \<noteq> None \<Longrightarrow> owed c = owed (c\<lparr>command := None\<rparr>) + 14"
  "barrier_changed c \<noteq> None \<Longrightarrow> owed c = owed (c\<lparr>barrier_changed := None\<rparr>) + 1"
  "wind_lock_reset c \<noteq> None \<Longrightarrow> owed c = owed (c\<lparr>wind_lock_reset := None\<rparr>) + 2"
  by (simp_all add: owed_def)

text \<open>Every reaction of the task reduces the outstanding work.\<close>

lemma react_work:
  assumes "gate_ok tu g" "gate_react tu w g = Some g'"
  shows "work g' < work g"
proof -
  have wd: "wired g" using assms(1) by (simp add: gate_ok_def)
  have loc: "locals_ok tu g l \<and> next_deadline (a_phase l) (b_phase l) = Some at" if "task g = Driving l at" for l at
    using assms(1) that by (simp add: gate_ok_def task_ok_def)
  have rest: "state (leaf_a g) = Idle \<and> state (leaf_b g) = Idle" if "\<nexists>l at. task g = Driving l at"
    using gate_ok_rest [OF assms(1) that] by simp
  from assms(2) show ?thesis
  proof (cases rule: gate_react_cases)
    case (call snap cmd)
    with wd rest execute_work [of "g\<lparr>pending := None\<rparr>" tu cmd] show ?thesis
      by (simp add: work_def [of g] task_weight_def)
  next
    case (wait snap)
    then show ?thesis by (simp add: work_def task_weight_def)
  next
    case (command_idle cmd)
    with wd rest execute_work [of "clear_command g" tu cmd] owed_cleared(1) [of "controls g"] show ?thesis
      by (simp add: work_def [of g] task_weight_def)
  next
    case reset_idle
    with owed_cleared(3) [of "controls g"] show ?thesis by (simp add: work_def task_weight_def)
  next
    case (timer l at)
    with wd loc [OF timer(2)] drive_pass_work(2) [of g tu l at] show ?thesis
      by (simp add: work_def [of g] task_weight_def)
  next
    case (command l at cmd)
    with wd loc [OF command(2)] drive_pass_work(1) [of "clear_command g" tu l] owed_cleared(1) [of "controls g"]
    show ?thesis
      by (auto simp: drive_command_def drive_end_work work_def [of g] task_weight_def)
  next
    case (barrier l at)
    with wd loc [OF barrier(2)] drive_pass_work(1) [of "clear_barrier g" tu l] owed_cleared(2) [of "controls g"]
    show ?thesis by (simp add: work_def [of g] task_weight_def)
  next
    case (reset l at)
    with wd loc [OF reset(2)] drive_pass_work(1) [of "notify (clear_reset g)" tu l] owed_cleared(3) [of "controls g"]
    show ?thesis by (simp add: work_def [of g] task_weight_def)
  qed
qed

section \<open>Running to rest\<close>

lemma work_elapse [simp]: "work (g\<lparr>dev := h\<rparr>) = work g"
  by (simp add: work_def)

text \<open>A step of the scheduler is a reaction, possibly after the clock moved on.\<close>

lemma auto_step_reacts:
  assumes "auto_step tu g = Some g'"
  obtains w t where "gate_react tu w (g\<lparr>dev := clock_advance t (dev g)\<rparr>) = Some g'"
proof -
  have "\<exists>w t. gate_react tu w (g\<lparr>dev := clock_advance t (dev g)\<rparr>) = Some g'"
  proof (cases "poll_gate tu g = Some g' \<or> gate_react tu CallStep g = Some g'")
    case True
    then obtain w where "gate_react tu w g = Some g'" using poll_gate_react by blast
    moreover have "g\<lparr>dev := clock_advance 0 (dev g)\<rparr> = g" by (simp add: clock_advance_def)
    ultimately show ?thesis by metis
  next
    case False
    with assms show ?thesis
      unfolding auto_step_def by (auto split: gate_task.splits option.splits)
  qed
  with that show ?thesis by blast
qed

lemma auto_step_work: "gate_ok tu g \<Longrightarrow> auto_step tu g = Some g' \<Longrightarrow> work g' < work g \<and> gate_ok tu g'"
  by (erule auto_step_reacts) (auto dest: react_work [OF gate_elapse_ok] gate_react_ok intro: gate_elapse_ok)

lemma auto_step_steps:
  assumes "auto_step tu g = Some g'"
  shows "(gate_step tu)\<^sup>*\<^sup>* g g'"
proof -
  obtain w t where r: "gate_react tu w (g\<lparr>dev := clock_advance t (dev g)\<rparr>) = Some g'"
    using auto_step_reacts [OF assms] .
  have "gate_step tu g (g\<lparr>dev := clock_advance t (dev g)\<rparr>)" by (rule gate_step.elapse)
  moreover have "gate_step tu (g\<lparr>dev := clock_advance t (dev g)\<rparr>) g'" by (rule gate_step.react [OF r])
  ultimately show ?thesis by (simp add: converse_rtranclp_into_rtranclp)
qed

lemma auto_run_steps: "(gate_step tu)\<^sup>*\<^sup>* g (auto_run tu n g)"
  by (induction n arbitrary: g) (auto split: option.split intro: rtranclp_trans auto_step_steps)

lemma auto_run_rests: "gate_ok tu g \<Longrightarrow> work g \<le> n \<Longrightarrow> auto_step tu (auto_run tu n g) = None"
proof (induction n arbitrary: g)
  case 0
  then show ?case using auto_step_work [of tu g] by (cases "auto_step tu g") auto
next
  case (Suc n)
  then show ?case
    using auto_step_work [OF Suc.prems(1)] by (cases "auto_step tu g") fastforce+
qed

lemma auto_step_None:
  "auto_step tu g = None \<longleftrightarrow>
   task g = AwaitCommand \<and> command (controls g) = None \<and> wind_lock_reset (controls g) = None"
  by (auto simp: auto_step_def gate_react_def poll_gate_def Let_def split: gate_task.splits option.splits)

section \<open>What a reaction leaves alone\<close>

text \<open>
  Between two states of one gate: the same leaves with the same settings, a
  clock that does not run backwards, and the inputs that only \<open>Controls\<close> writes.
\<close>

definition framed :: "gate \<Rightarrow> gate \<Rightarrow> bool" where
  "framed g g' \<longleftrightarrow> same_leaf (leaf_a g) (leaf_a g') \<and> same_leaf (leaf_b g) (leaf_b g')
     \<and> now (dev g) \<le> now (dev g')
     \<and> wind_locked (controls g') = wind_locked (controls g)
     \<and> barrier1_active (controls g') = barrier1_active (controls g)"

lemma framed_refl [simp]: "framed g g"
  by (simp add: framed_def)

lemma framed_trans: "framed g g' \<Longrightarrow> framed g' g'' \<Longrightarrow> framed g g''"
  by (auto simp: framed_def intro: same_leaf_trans)

interpretation settings_frame: gate_frame tu framed for tu
proof (unfold_locales, goal_cases)
  case (12 g)
  then show ?case by (simp add: framed_def stop_leaves_wired)
next
  case (13 g l h1 ma pa v1 h2 mb pb v2)
  then show ?case using pass_facts [OF 13] by (simp add: framed_def)
qed (auto simp: framed_def intro: same_leaf_trans)

section \<open>Arriving at the end position\<close>

text \<open>
  The settings under which a full run reaches the end position, and an uptime
  within the \<open>u64\<close> range of the position arithmetic (two million years).
\<close>

definition leaf_set :: "time_ops \<Rightarrow> motor \<Rightarrow> bool" where
  "leaf_set tu m \<longleftrightarrow> timing_fits tu m \<and> 1 \<le> as_millis tu (end_stop_overrun m)"

definition uptime_ok :: "time_ops \<Rightarrow> gate \<Rightarrow> bool" where
  "uptime_ok tu g \<longleftrightarrow> as_millis tu (now (dev g)) * 255 < 2 ^ 64
     \<and> leaf_set tu (leaf_a g) \<and> leaf_set tu (leaf_b g)"

definition phase_arrived :: "direction \<Rightarrow> motor \<Rightarrow> phase \<Rightarrow> bool" where
  "phase_arrived d m ph \<longleftrightarrow> (ph = Done \<longrightarrow> remaining m d = 0)"

definition locals_arrived :: "gate \<Rightarrow> drive_locals \<Rightarrow> bool" where
  "locals_arrived g l \<longleftrightarrow> phase_arrived (direction_of l) (leaf_a g) (a_phase l)
     \<and> phase_arrived (direction_of l) (leaf_b g) (b_phase l)"

definition at_end :: "direction \<Rightarrow> gate \<Rightarrow> bool" where
  "at_end d g \<longleftrightarrow> remaining (leaf_a g) d = 0 \<and> remaining (leaf_b g) d = 0"

lemma leaf_set_cong: "same_leaf m m' \<Longrightarrow> leaf_set tu m' = leaf_set tu m"
  by (auto simp: leaf_set_def timing_fits_def same_leaf_timing(1)) (simp_all add: same_leaf_def)

lemma locals_arrived_cong:
  "leaf_a g' = leaf_a g \<Longrightarrow> leaf_b g' = leaf_b g \<Longrightarrow> locals_arrived g' l = locals_arrived g l"
  by (simp add: locals_arrived_def)

lemma locals_arrived_simps [simp]:
  "locals_arrived (clear_command g) l = locals_arrived g l" "locals_arrived (clear_barrier g) l = locals_arrived g l"
  "locals_arrived (clear_reset g) l = locals_arrived g l" "locals_arrived (notify g) l = locals_arrived g l"
  "locals_arrived (g\<lparr>task := k\<rparr>) l = locals_arrived g l"
  by (simp_all add: locals_arrived_def)

lemma at_end_cong: "leaf_a g' = leaf_a g \<Longrightarrow> leaf_b g' = leaf_b g \<Longrightarrow> at_end d g' = at_end d g"
  by (simp add: at_end_def)

lemma locals_arrived_entry: "locals_arrived (drive_entry d g) (drive_start_locals tu d g)"
  by (simp add: locals_arrived_def phase_arrived_def drive_start_locals_def plan_def)

lemma at_end_open: "at_end Opening g \<longleftrightarrow> position (leaf_a g) = 255 \<and> position (leaf_b g) = 255"
  by (simp add: at_end_def remaining_zero)

lemma at_end_close: "at_end Closing g \<longleftrightarrow> position (leaf_a g) = 0 \<and> position (leaf_b g) = 0"
  by (simp add: at_end_def remaining_zero)

lemma stop_leaves_idle: "state (leaf_a g) = Idle \<Longrightarrow> state (leaf_b g) = Idle \<Longrightarrow> stop_leaves tu g = g"
  by (simp add: stop_leaves_def motor_stop_def)

context time_units
begin

lemma leaf_pass_arrived:
  assumes "leaf_pass tu d (h, m, ph, mv) = (h', m', ph', mv')"
    and "hw_ok h" "motor_ok h m" "leaf_phase_ok tu d m ph" "runs ph \<longrightarrow> mv"
    and "phase_arrived d m ph" "leaf_set tu m" "as_millis tu (now h) * 255 < 2 ^ 64"
  shows "phase_arrived d m' ph'"
proof -
  obtain h1 m1 p1 v1 where s: "leaf_start_pass tu d (h, m, ph, mv) = (h1, m1, p1, v1)"
    by (metis prod_cases4)
  have e: "leaf_stop_pass tu (h1, m1, p1, v1) = (h', m', ph', mv')"
    using assms(1) s by (simp add: leaf_pass_def)
  note f = leaf_start_pass_facts [OF s assms(2-5)]
  have n: "now h1 = now h" using f by (blast dest: foreign_write_now)
  have a1: "phase_arrived d m1 p1"
    using s assms(6) by (auto simp: leaf_start_pass_def phase_arrived_def split: phase.splits if_splits option.splits prod.splits)
  show ?thesis
  proof (cases "\<exists>t. p1 = PhaseRunning t \<and> t \<le> now h1")
    case True
    then obtain t0 rt where r: "state m1 = Running d t0" "run_time tu m1 d = Some rt" "t0 + rt \<le> now h1"
      using f by (auto simp: leaf_phase_ok_def)
    have st: "motor_settle tu h1 m1 = (h', m')"
      using e True by (auto simp: leaf_stop_pass_def motor_stop_def split: prod.splits)
    have "as_millis tu (now h1 - t0) \<le> as_millis tu (now h)" by (rule as_millis_mono) (simp add: n)
    with assms(8) have "as_millis tu (now h1 - t0) * 255 < 2 ^ 64" by linarith
    moreover have "leaf_set tu m1" using leaf_set_cong [of m m1 tu] f assms(7) by simp
    ultimately have "remaining m' d = 0"
      using settle_reaches_end [OF r(1) st r(2,3)] by (simp add: leaf_set_def)
    then show ?thesis by (simp add: phase_arrived_def)
  next
    case False
    with e a1 show ?thesis
      by (auto simp: leaf_stop_pass_def phase_arrived_def split: phase.splits if_splits)
  qed
qed

text \<open>
  The outcome of a pass that is permitted and whose finished leaves are at the
  end: the movement goes on in the same way, or both leaves are at the end.
\<close>

lemma drive_pass_arrives:
  assumes "wired g" "locals_ok tu g l" "locals_arrived g l" "uptime_ok tu g"
    and "blocked (controls g) (direction_of l) = None"
  shows "(\<exists>l' at. task (drive_pass tu l g) = Driving l' at \<and> direction_of l' = direction_of l
      \<and> locals_arrived (drive_pass tu l g) l' \<and> controls (drive_pass tu l g) = controls g)
    \<or> (\<exists>snap. task (drive_pass tu l g) = Returned snap \<and> at_end (direction_of l) (drive_pass tu l g)
      \<and> pending (drive_pass tu l g) = None \<and> owed (controls (drive_pass tu l g)) = owed (controls g)
      \<and> command (controls (drive_pass tu l g)) = command (controls g))"
proof -
  have w: "hw_ok (dev g)" "motor_ok (dev g) (leaf_a g)" "motor_ok (dev g) (leaf_b g)"
      "pins (leaf_a g) \<inter> pins (leaf_b g) = {}"
    using assms(1) by (simp_all add: wired_def)
  have up: "as_millis tu (now (dev g)) * 255 < 2 ^ 64" "leaf_set tu (leaf_a g)" "leaf_set tu (leaf_b g)"
    using assms(4) by (simp_all add: uptime_ok_def)
  have arr: "locals_arrived g' l'"
    if a: "leaf_pass tu (direction_of l) (dev g, leaf_a g, a_phase l, moved l) = (h1, leaf_a g', a_phase l', v1)"
    and b: "leaf_pass tu (direction_of l) (h1, leaf_b g, b_phase l, v1) = (dev g', leaf_b g', b_phase l', moved l')"
    and d: "direction_of l' = direction_of l" for g' l' h1 v1
  proof -
    have ph: "leaf_phase_ok tu (direction_of l) (leaf_a g) (a_phase l)" "runs (a_phase l) \<longrightarrow> moved l"
      "leaf_phase_ok tu (direction_of l) (leaf_b g) (b_phase l)" "runs (b_phase l) \<longrightarrow> moved l"
      using assms(2) by (simp_all add: locals_ok_def)
    note fa = leaf_pass_facts [OF a w(1,2) ph(1,2)]
    have okb: "motor_ok h1 (leaf_b g)"
      using w(4) by (intro foreign_write_motor_ok [OF fa(4) w(1,3)]) auto
    have v: "runs (b_phase l) \<longrightarrow> v1" using ph(4) fa(6) by blast
    have up1: "as_millis tu (now h1) * 255 < 2 ^ 64" using foreign_write_now [OF fa(4)] up(1) by simp
    show ?thesis
      using leaf_pass_arrived [OF a w(1,2) ph(1,2) _ up(2,1)]
        leaf_pass_arrived [OF b fa(1) okb ph(3) v _ up(3) up1] assms(3) d
      by (simp add: locals_arrived_def)
  qed
  from assms(1,2) show ?thesis
  proof (cases rule: drive_pass_cases)
    case refused
    with assms(5) show ?thesis by simp
  next
    case (finished l' g')
    have i: "state (leaf_a g') = Idle" "state (leaf_b g') = Idle"
      using finished(4,6,7) by (simp_all add: locals_ok_def leaf_phase_ok_def)
    have "at_end (direction_of l) (drive_end tu l' None g')"
      using arr [OF finished(14,15,9)] finished(6,7,9)
      by (simp add: at_end_def stop_leaves_idle [OF i] locals_arrived_def phase_arrived_def)
    moreover have "owed (controls (drive_end tu l' None g')) = owed (controls g)"
      using drive_end_work [of tu l' None g'] finished(5) by (simp add: work_def task_weight_def)
    ultimately show ?thesis using finished(2,5) by simp
  next
    case (continues l' g' at)
    then show ?thesis using arr [OF continues(15,16,8)] by simp
  qed
qed

lemma execute_arrives:
  assumes "wired g" "state (leaf_a g) = Idle" "state (leaf_b g) = Idle" "uptime_ok tu g"
    and "resolve_impulse (controls g) cmd = command_for d" "blocked (controls g) d = None"
  shows "(\<exists>l at. task (execute_command tu cmd g) = Driving l at \<and> direction_of l = d
      \<and> locals_arrived (execute_command tu cmd g) l
      \<and> controls (execute_command tu cmd g) = set_direction d (controls g))
    \<or> (\<exists>snap. task (execute_command tu cmd g) = Returned snap \<and> at_end d (execute_command tu cmd g)
      \<and> pending (execute_command tu cmd g) = None \<and> owed (controls (execute_command tu cmd g)) = owed (controls g)
      \<and> command (controls (execute_command tu cmd g)) = command (controls g))"
proof -
  have "execute_command tu cmd g = drive_begin tu d g"
    using assms(5) by (cases d) (simp_all add: execute_command_def)
  moreover have "uptime_ok tu (drive_entry d g)" using assms(4) by (simp add: uptime_ok_def)
  moreover have "blocked (set_direction d (controls g)) d = None"
    using assms(6) by (simp add: blocked_cong [of "set_direction d (controls g)" "controls g"])
  ultimately show ?thesis
    using drive_pass_arrives [OF drive_entry_ok [OF assms(1-3)] locals_arrived_entry, of d]
    by (simp add: drive_begin_unblocked [OF assms(6)])
qed

end

section \<open>The pursuit of the open position under the wind lock\<close>

definition arrived :: "gate \<Rightarrow> bool" where
  "arrived g = (case task g of Driving l at \<Rightarrow> locals_arrived g l | _ \<Rightarrow> True)"

definition pursuit :: "gate \<Rightarrow> bool" where
  "pursuit g \<longleftrightarrow> (wind_locked (controls g) \<and> \<not> barrier1_active (controls g) \<longrightarrow>
     command (controls g) = Some Open \<or>
     (case task g of
        Driving l at \<Rightarrow> direction_of l = Opening
      | Returned snap \<Rightarrow> at_end Opening g \<or> pending g = Some Open
      | AwaitCommand \<Rightarrow> at_end Opening g))"

definition progress :: "time_ops \<Rightarrow> gate \<Rightarrow> bool" where
  "progress tu g \<longleftrightarrow> gate_ok tu g \<and> (uptime_ok tu g \<longrightarrow> arrived g \<and> pursuit g)"

lemma pursuit_ended:
  assumes "wired g" "wind_locked (controls g) \<and> \<not> barrier1_active (controls g) \<longrightarrow>
    command (controls g) = Some Open \<or> r = Some Open"
  shows "pursuit (drive_end tu l r g)" "arrived (drive_end tu l r g)"
  using assms by (auto simp: pursuit_def arrived_def)

lemma pursuit_input: "pursuit g \<Longrightarrow> pursuit (g\<lparr>controls := control_exec x (controls g)\<rparr>)"
  unfolding pursuit_def
  by (cases x) (auto simp: control_defs Let_def at_end_def split: gate_task.splits if_splits)

context time_units
begin

lemma uptime_ok_framed: "framed g g' \<Longrightarrow> uptime_ok tu g' \<Longrightarrow> uptime_ok tu g"
proof -
  assume f: "framed g g'" and u: "uptime_ok tu g'"
  have "as_millis tu (now (dev g)) \<le> as_millis tu (now (dev g'))"
    using f by (intro as_millis_mono) (simp add: framed_def)
  with f u show "uptime_ok tu g"
    using leaf_set_cong [of "leaf_a g" "leaf_a g'" tu] leaf_set_cong [of "leaf_b g" "leaf_b g'" tu]
    by (simp add: uptime_ok_def framed_def)
qed

lemma drive_pass_pursues:
  assumes "wired g" "locals_ok tu g l" "locals_arrived g l" "uptime_ok tu g"
    and "wind_locked (controls g) \<and> \<not> barrier1_active (controls g) \<longrightarrow>
      direction_of l = Opening \<or> command (controls g) = Some Open"
  shows "arrived (drive_pass tu l g) \<and> pursuit (drive_pass tu l g)"
proof (cases "blocked (controls g) (direction_of l)")
  case None
  show ?thesis
    using drive_pass_arrives [OF assms(1-4) None] settings_frame.R_drive_pass [OF assms(1,2)] assms(5)
    by (auto simp: arrived_def pursuit_def framed_def)
next
  case (Some reason)
  have "drive_pass tu l g = drive_end tu l None g" using Some by (simp add: drive_pass_def)
  moreover have "direction_of l = Opening \<longrightarrow> barrier1_active (controls g)"
    using Some blocked_iff [of "controls g" "direction_of l"] by auto
  ultimately show ?thesis using pursuit_ended [OF assms(1), of None] assms(5) by auto
qed

lemma execute_pursues:
  assumes "wired g" "state (leaf_a g) = Idle" "state (leaf_b g) = Idle" "uptime_ok tu g"
    and "wind_locked (controls g) \<and> \<not> barrier1_active (controls g) \<longrightarrow>
      cmd = Open \<or> command (controls g) = Some Open \<or> at_end Opening g"
  shows "arrived (execute_command tu cmd g) \<and> pursuit (execute_command tu cmd g)"
proof (cases "\<exists>d. resolve_impulse (controls g) cmd = command_for d \<and> blocked (controls g) d = None")
  case True
  then obtain d where d: "resolve_impulse (controls g) cmd = command_for d" "blocked (controls g) d = None"
    by blast
  have "wind_locked (controls g) \<longrightarrow> d = Opening"
    using d(2) blocked_iff [of "controls g" d] by (cases d) auto
  with execute_arrives [OF assms(1-4) d] settings_frame.R_execute [OF assms(1-3)] show ?thesis
    by (auto simp: arrived_def pursuit_def framed_def)
next
  case False
  then have nb: "blocked (controls g) d \<noteq> None" if "resolve_impulse (controls g) cmd = command_for d" for d
    using that by auto
  have "execute_command tu cmd g = step_done None g"
    using nb [of Opening] nb [of Closing] stop_leaves_idle [OF assms(2,3)]
    by (auto simp: execute_command_def drive_begin_def split: gate_command.splits)
  moreover have "cmd = Open \<longrightarrow> barrier1_active (controls g)"
    using nb [of Opening] blocked_iff [of "controls g" Opening] by (auto simp: resolve_impulse_def)
  ultimately show ?thesis
    using assms(5) by (auto simp: step_done_def arrived_def pursuit_def at_end_def)
qed

lemma react_progress:
  assumes "gate_react tu w g = Some g'" "gate_ok tu g" "uptime_ok tu g" "arrived g" "pursuit g"
  shows "arrived g' \<and> pursuit g'"
proof -
  have wd: "wired g" and lk: "lock_respected (controls g)" using assms(2) by (simp_all add: gate_ok_def)
  have loc: "locals_ok tu g l \<and> locals_arrived g l" if "task g = Driving l at" for l at
    using gate_ok_driving [OF assms(2) that] assms(4) that by (simp add: arrived_def)
  have rest: "state (leaf_a g) = Idle \<and> state (leaf_b g) = Idle" if "\<nexists>l at. task g = Driving l at"
    using gate_ok_rest [OF assms(2) that] by simp
  note inv = wd lk assms(3,5)
  from assms(1) show ?thesis
  proof (cases rule: gate_react_cases)
    case (call snap cmd)
    with inv rest execute_pursues [of "g\<lparr>pending := None\<rparr>" cmd] show ?thesis
      by (auto simp: uptime_ok_def pursuit_def at_end_def)
  next
    case (wait snap)
    with assms(4,5) show ?thesis by (auto simp: arrived_def pursuit_def at_end_def)
  next
    case (command_idle cmd)
    with inv rest execute_pursues [of "clear_command g" cmd] show ?thesis
      by (auto simp: uptime_ok_def pursuit_def at_end_def lock_respected_def)
  next
    case reset_idle
    with inv show ?thesis by (auto simp: arrived_def pursuit_def at_end_def)
  next
    case (timer l at)
    with inv loc drive_pass_pursues [of g l] show ?thesis by (auto simp: pursuit_def)
  next
    case (command l at cmd)
    have "cmd = Open \<or> \<not> wind_locked (controls g)" using lk command(3) by (auto simp: lock_respected_def)
    with command inv loc [OF command(2)] drive_pass_pursues [of "clear_command g" l]
      pursuit_ended [of "clear_command g"] show ?thesis
      by (cases "direction_of l") (auto simp: drive_command_def uptime_ok_def)
  next
    case (barrier l at)
    with inv loc [OF barrier(2)] drive_pass_pursues [of "clear_barrier g" l] show ?thesis
      by (auto simp: pursuit_def uptime_ok_def)
  next
    case (reset l at)
    with inv loc [OF reset(2)] drive_pass_pursues [of "notify (clear_reset g)" l] show ?thesis
      by (auto simp: pursuit_def uptime_ok_def)
  qed
qed

lemma step_progress:
  assumes "gate_step tu g g'" "progress tu g"
  shows "progress tu g'"
proof -
  have ok: "gate_ok tu g'" using gate_step_ok [OF assms(1)] assms(2) by (simp add: progress_def)
  from assms(1) show ?thesis
  proof (cases rule: gate_step.cases)
    case (react w)
    have "uptime_ok tu g" if "uptime_ok tu g'"
      using uptime_ok_framed [OF settings_frame.R_react [OF _ react] that] assms(2) by (simp add: progress_def)
    with ok react_progress [OF react] assms(2) show ?thesis by (simp add: progress_def)
  next
    case (input x)
    with ok pursuit_input [of g x] assms(2) show ?thesis
      by (auto simp: progress_def uptime_ok_def arrived_def locals_arrived_def split: gate_task.splits)
  next
    case (elapse t)
    have "framed g g'" by (simp add: elapse framed_def)
    with ok uptime_ok_framed [of g g'] assms(2) elapse show ?thesis
      by (auto simp: progress_def arrived_def locals_arrived_def pursuit_def at_end_def split: gate_task.splits)
  next
    case light
    have "framed g g'" by (simp add: light framed_def)
    with ok uptime_ok_framed [of g g'] assms(2) light show ?thesis
      by (auto simp: progress_def arrived_def locals_arrived_def pursuit_def at_end_def split: gate_task.splits)
  next
    case (other_pin p v)
    have "framed g g'" by (simp add: other_pin framed_def)
    with ok uptime_ok_framed [of g g'] assms(2) other_pin show ?thesis
      by (auto simp: progress_def arrived_def locals_arrived_def pursuit_def at_end_def split: gate_task.splits)
  qed
qed

lemma boot_progress: "boot tu g \<Longrightarrow> progress tu g"
  using boot_ok [of tu g]
  by (auto simp: progress_def boot_def Gate_new_def arrived_def pursuit_def)

end

sublocale time_units \<subseteq> progressing: inductive_invariant "boot tu" "gate_step tu" "progress tu"
  by unfold_locales (auto intro: boot_progress step_progress)

section \<open>Undisturbed movements\<close>

context time_units
begin

lemma always_progress: "reachable tu g \<Longrightarrow> progress tu g"
  by (rule progressing.reach_inv)

end

lemmas reachable_progress = time_units.always_progress

lemma auto_run_reachable: "reachable tu g \<Longrightarrow> reachable tu (auto_run tu n g)"
  by (rule reach_steps [OF _ auto_run_steps])

lemma auto_step_framed: "gate_ok tu g \<Longrightarrow> auto_step tu g = Some g' \<Longrightarrow> framed g g'"
proof (erule auto_step_reacts)
  fix w t
  let ?g = "g\<lparr>dev := clock_advance t (dev g)\<rparr>"
  assume "gate_ok tu g" "gate_react tu w ?g = Some g'"
  then have "framed ?g g'" by (intro settings_frame.R_react [OF gate_elapse_ok])
  then show "framed g g'" by (rule framed_trans [rotated]) (simp add: framed_def)
qed

lemma auto_run_framed: "gate_ok tu g \<Longrightarrow> framed g (auto_run tu n g)"
  by (induction n arbitrary: g) (auto split: option.split dest: auto_step_framed auto_step_work intro: framed_trans)

text \<open>
  A permitted movement in direction \<open>d\<close> with no command and no reset waiting, or the
  rest it ends in. A signal of the light barriers may still be unread.
\<close>

definition undisturbed :: "direction \<Rightarrow> gate \<Rightarrow> bool" where
  "undisturbed d g \<longleftrightarrow> owed (controls g) < 2 \<and>
     (case task g of
        Driving l at \<Rightarrow> direction_of l = d \<and> blocked (controls g) d = None
      | Returned snap \<Rightarrow> at_end d g \<and> pending g = None
      | AwaitCommand \<Rightarrow> at_end d g)"

lemma owed_lt_2: "owed c < 2 \<longleftrightarrow> command c = None \<and> wind_lock_reset c = None"
  by (cases "barrier_changed c"; cases "wind_lock_reset c") (auto simp: owed_def)

lemma auto_step_undisturbed:
  assumes tu: "time_units tu" and "gate_ok tu g" "arrived g" "undisturbed d g"
    and "auto_step tu g = Some g'" "uptime_ok tu g'"
  shows "undisturbed d g'"
proof -
  obtain w t where r: "gate_react tu w (g\<lparr>dev := clock_advance t (dev g)\<rparr>) = Some g'"
    using auto_step_reacts [OF assms(5)] .
  define h where "h = g\<lparr>dev := clock_advance t (dev g)\<rparr>"
  have ok: "gate_ok tu h" unfolding h_def by (rule gate_elapse_ok [OF assms(2)])
  have same: "controls h = controls g" "task h = task g" "leaf_a h = leaf_a g" "leaf_b h = leaf_b g" "pending h = pending g"
    by (simp_all add: h_def)
  have up: "uptime_ok tu h"
    using time_units.uptime_ok_framed [OF tu settings_frame.R_react [OF ok] assms(6)] r by (simp add: h_def)
  have q: "command (controls g) = None" "wind_lock_reset (controls g) = None"
    using assms(4) by (simp_all add: undisturbed_def owed_lt_2)
  have pass: "undisturbed d (drive_pass tu l k)"
    if l: "task h = Driving l at" and k: "k = h \<or> k = clear_barrier h" for l at k
  proof -
    have "locals_arrived k l" "direction_of l = d" "blocked (controls k) d = None" "uptime_ok tu k" "wired k"
      using assms(3,4) l k up ok by (auto simp: same arrived_def undisturbed_def locals_arrived_def uptime_ok_def gate_ok_def)
    moreover have "locals_ok tu k l" using gate_ok_driving [OF ok l] k by auto
    moreover have "owed (controls k) < 2" using k q same by (auto simp: owed_lt_2)
    ultimately show ?thesis
      using time_units.drive_pass_arrives [OF tu, of k l] by (auto simp: undisturbed_def)
  qed
  from r [folded h_def] show ?thesis
  proof (cases rule: gate_react_cases)
    case (wait snap)
    with assms(4) show ?thesis by (simp add: undisturbed_def same at_end_def)
  next
    case (timer l at)
    then show ?thesis using pass by simp
  next
    case (barrier l at)
    then show ?thesis using pass by simp
  qed (use assms(4) in \<open>simp_all add: same q undisturbed_def\<close>)
qed

lemma auto_run_undisturbed:
  assumes tu: "time_units tu"
  shows "reachable tu g \<Longrightarrow> undisturbed d g \<Longrightarrow> uptime_ok tu (auto_run tu n g) \<Longrightarrow>
    undisturbed d (auto_run tu n g)"
proof (induction n arbitrary: g)
  case (Suc n)
  note ok = reachable_ok [OF Suc.prems(1)]
  show ?case
  proof (cases "auto_step tu g")
    case (Some g')
    have r: "reachable tu g'" by (rule reach_steps [OF Suc.prems(1) auto_step_steps [OF Some]])
    have up': "uptime_ok tu g'"
      using time_units.uptime_ok_framed [OF tu auto_run_framed [OF reachable_ok [OF r]]] Suc.prems(3) Some by simp
    have "arrived g"
      using time_units.uptime_ok_framed [OF tu auto_step_framed [OF ok Some] up']
        reachable_progress [OF tu Suc.prems(1)] by (simp add: progress_def)
    then have "undisturbed d g'" by (rule auto_step_undisturbed [OF tu ok _ Suc.prems(2) Some up'])
    with Suc.IH [OF r] Suc.prems(3) Some show ?thesis by simp
  qed (use Suc.prems in simp)
qed simp

lemma auto_run_settled:
  assumes "reachable tu g"
  shows "task (auto_run tu 30 g) = AwaitCommand \<and> command (controls (auto_run tu 30 g)) = None
    \<and> wind_lock_reset (controls (auto_run tu 30 g)) = None"
  using auto_run_rests [OF reachable_ok [OF assms] work_bound] by (simp add: auto_step_None)

text \<open>A command for a permitted direction takes the waiting gate to that end.\<close>

lemma auto_step_command:
  assumes "task g = AwaitCommand" "command (controls g) = Some cmd"
  shows "auto_step tu g = Some (execute_command tu cmd (clear_command g))"
  using assms by (simp add: auto_step_def poll_gate_def gate_react_def Let_def signal_take_def)

lemma commanded_gate_arrives:
  assumes tu: "time_units tu" and r: "reachable tu g" and "task g = AwaitCommand" "command (controls g) = Some (command_for d)"
    and "wind_lock_reset (controls g) = None" "blocked (controls g) d = None" "uptime_ok tu (auto_run tu 30 g)"
  shows "at_end d (auto_run tu 30 g)"
proof -
  let ?k = "clear_command g" and ?g = "execute_command tu (command_for d) (clear_command g)"
  note s = auto_step_command [OF assms(3,4), of tu] and ok = reachable_ok [OF r]
  have run: "auto_run tu 30 g = auto_run tu 29 ?g" by (simp add: eval_nat_numeral s)
  have rest: "state (leaf_a ?k) = Idle" "state (leaf_b ?k) = Idle" "wired ?k"
    using gate_ok_rest [OF ok] assms(3) ok by (simp_all add: gate_ok_def)
  have "uptime_ok tu g" by (rule time_units.uptime_ok_framed [OF tu auto_run_framed [OF ok] assms(7)])
  then have up: "uptime_ok tu ?k" by (simp add: uptime_ok_def)
  have "resolve_impulse (controls ?k) (command_for d) = command_for d"
    by (cases d) (simp_all add: resolve_impulse_def command_for_def)
  moreover have "blocked (controls ?k) d = None" using assms(6) by simp
  ultimately have d: "resolve_impulse (controls ?k) (command_for d) = command_for d" "blocked (controls ?k) d = None" .
  have "owed (controls ?k) < 2" using assms(5) by (simp add: owed_lt_2)
  with time_units.execute_arrives [OF tu rest(3,1,2) up d] have "undisturbed d ?g"
    using assms(5,6) blocked_cong [of "set_direction d (controls ?k)" "controls ?k"]
    by (auto simp: undisturbed_def)
  moreover have "reachable tu ?g" by (rule reach_steps [OF r auto_step_steps [OF s]])
  ultimately have "undisturbed d (auto_run tu 29 ?g)"
    using auto_run_undisturbed [OF tu] assms(7) run by simp
  then show ?thesis using auto_run_settled [OF r] run by (simp add: undisturbed_def)
qed

text \<open>An engaged wind lock with light barrier 1 clear leads to a fully open gate.\<close>

lemma wind_lock_opens:
  assumes "time_units tu" "reachable tu g" "wind_locked (controls g)" "\<not> barrier1_active (controls g)"
    and "uptime_ok tu (auto_run tu 30 g)"
  shows "position (leaf_a (auto_run tu 30 g)) = 255 \<and> position (leaf_b (auto_run tu 30 g)) = 255
    \<and> task (auto_run tu 30 g) = AwaitCommand \<and> wind_locked (controls (auto_run tu 30 g))"
proof -
  have f: "framed g (auto_run tu 30 g)" by (rule auto_run_framed [OF reachable_ok [OF assms(2)]])
  have "pursuit (auto_run tu 30 g)"
    using reachable_progress [OF assms(1) auto_run_reachable [OF assms(2)]] assms(5)
    by (simp add: progress_def)
  then show ?thesis
    using f assms(3,4) auto_run_settled [OF assms(2)] by (simp add: pursuit_def framed_def at_end_open)
qed

section \<open>Properties\<close>

text \<open>
  C19. From every reachable state the gate task comes to rest on its own: after
  at most thirty wake-ups (its timer firing at the deadlines it has set) it
  waits for a command, with no command and no reset left unread and all four
  relays released. No sequence of earlier inputs keeps a motor running.
\<close>

theorem gate_settles:
  assumes "reachable tu g"
  shows "task (auto_run tu 30 g) = AwaitCommand \<and> command (controls (auto_run tu 30 g)) = None
    \<and> wind_lock_reset (controls (auto_run tu 30 g)) = None
    \<and> \<not> relay_on (auto_run tu 30 g) Opening \<and> \<not> relay_on (auto_run tu 30 g) Closing"
  using auto_run_settled [OF assms] gate_ok_rest_off [OF reachable_ok [OF auto_run_reachable [OF assms]]]
  by simp

theorem gate_settles_witness:
  "relay_on gate_opening Opening \<and> \<not> relay_on (auto_run mhz_clock 30 gate_opening) Opening"
  using gate_settles [OF gate_opening_reachable] gate_opening_relay by simp

text \<open>
  C3. A permitted movement that no further input disturbs completes: the gate
  task comes to rest with both leaves exactly at the end position of that
  direction, from every reachable state in the middle of the movement (signals
  of the light barriers may be waiting), provided the settings and the uptime stay in the range of the position
  arithmetic.
\<close>

theorem movement_completes:
  assumes "time_units tu" "reachable tu g" "task g = Driving l at"
    and "command (controls g) = None" "wind_lock_reset (controls g) = None"
    and "blocked (controls g) (direction_of l) = None" "uptime_ok tu (auto_run tu 30 g)"
  shows "task (auto_run tu 30 g) = AwaitCommand
    \<and> position (leaf_a (auto_run tu 30 g)) = (case direction_of l of Opening \<Rightarrow> 255 | Closing \<Rightarrow> 0)
    \<and> position (leaf_b (auto_run tu 30 g)) = (case direction_of l of Opening \<Rightarrow> 255 | Closing \<Rightarrow> 0)"
proof -
  have "undisturbed (direction_of l) g" using assms(3-6) by (simp add: undisturbed_def owed_lt_2)
  from auto_run_undisturbed [OF assms(1,2) this assms(7)] auto_run_settled [OF assms(2)] show ?thesis
    by (cases "direction_of l") (simp_all add: undisturbed_def at_end_open at_end_close)
qed

text \<open>
  C4. The wind lock opens the gate: in every reachable state with the lock
  engaged and light barrier 1 clear, whatever the gate was doing and whatever
  commands came before, the gate task comes to rest with both leaves fully open
  and the lock still engaged.
\<close>

theorem wind_forces_open:
  assumes "time_units tu" "reachable tu g" "wind_locked (controls g)" "\<not> barrier1_active (controls g)"
    and "uptime_ok tu (auto_run tu 30 g)"
  shows "position (leaf_a (auto_run tu 30 g)) = 255 \<and> position (leaf_b (auto_run tu 30 g)) = 255
    \<and> task (auto_run tu 30 g) = AwaitCommand \<and> wind_locked (controls (auto_run tu 30 g))"
  by (rule wind_lock_opens [OF assms])

section \<open>Concrete movements\<close>

lemmas auto_defs = auto_step_def poll_gate_def demo_defs

lemma auto_run_numeral:
  "auto_run tu (numeral k) g = (case auto_step tu g of None \<Rightarrow> g | Some g' \<Rightarrow> auto_run tu (pred_numeral k) g')"
  by (simp add: numeral_eq_Suc)

lemma opening_auto_clock: "now (dev (auto_run mhz_clock 30 gate_opening)) = 19000000"
  by (simp cong: eval_cong add: auto_run_numeral auto_defs)

lemma configured_leaves:
  "timing (leaf_a (firmware_gate tu pa pb lk)) = LEAF_A tu" "timing (leaf_b (firmware_gate tu pa pb lk)) = LEAF_B tu"
  "end_stop_overrun (leaf_a (firmware_gate tu pa pb lk)) = END_STOP_OVERRUN tu"
  "end_stop_overrun (leaf_b (firmware_gate tu pa pb lk)) = END_STOP_OVERRUN tu"
  by (simp_all add: firmware_gate_def gate_of_settings_def motor_of_settings_def settings_a_def settings_b_def
      motor_new_def Gate_new_def Let_def)

lemma configured_leaf_set:
  "leaf_set mhz_clock (leaf_a (firmware_gate mhz_clock pa pb lk))"
  "leaf_set mhz_clock (leaf_b (firmware_gate mhz_clock pa pb lk))"
  by (auto simp: leaf_set_def timing_fits_def full_duration_def configured_leaves LEAF_A_def LEAF_B_def
      END_STOP_OVERRUN_def mhz_clock_def split: direction.splits)

text \<open>The settings of the configured gate hold in all its states.\<close>

lemma gate_step_same_leaf:
  assumes "gate_step tu g g'" "gate_ok tu g"
  shows "same_leaf (leaf_a g) (leaf_a g') \<and> same_leaf (leaf_b g) (leaf_b g')"
  using assms(1)
proof (cases rule: gate_step.cases)
  case (react w)
  from settings_frame.R_react [OF assms(2) react] show ?thesis by (simp add: framed_def)
qed simp_all

lemma play_leaf_set:
  assumes "play tu xs g = Some g'" "gate_ok tu g" "leaf_set tu (leaf_a g)" "leaf_set tu (leaf_b g)"
  shows "leaf_set tu (leaf_a g') \<and> leaf_set tu (leaf_b g')"
  using assms
proof (induction xs arbitrary: g)
  case (Cons x xs)
  then obtain g1 where g1: "act tu x g = Some g1" "play tu xs g1 = Some g'" by (auto split: option.splits)
  note st = act_step [OF g1(1)]
  show ?case
    using Cons.IH [OF g1(2) gate_step_ok [OF st Cons.prems(2)]] gate_step_same_leaf [OF st Cons.prems(2)]
      leaf_set_cong Cons.prems(3,4) by blast
qed simp

lemma auto_run_uptime:
  assumes "gate_ok tu g" "leaf_set tu (leaf_a g)" "leaf_set tu (leaf_b g)"
    and "as_millis tu (now (dev (auto_run tu n g))) * 255 < 2 ^ 64"
  shows "uptime_ok tu (auto_run tu n g)"
  using auto_run_framed [OF assms(1), of n] assms(2-4)
    leaf_set_cong [of "leaf_a g" "leaf_a (auto_run tu n g)" tu] leaf_set_cong [of "leaf_b g" "leaf_b (auto_run tu n g)" tu]
  by (simp add: uptime_ok_def framed_def)

theorem movement_completes_witness:
  "position (leaf_a gate_opening) = 0 \<and> position (leaf_a (auto_run mhz_clock 30 gate_opening)) = 255
   \<and> position (leaf_b (auto_run mhz_clock 30 gate_opening)) = 255"
proof -
  have "leaf_set mhz_clock (leaf_a gate_opening) \<and> leaf_set mhz_clock (leaf_b gate_opening)"
    by (rule play_leaf_set [OF opening_run_plays reachable_ok [OF firmware_reachable] configured_leaf_set])
  then have up: "uptime_ok mhz_clock (auto_run mhz_clock 30 gate_opening)"
    by (intro auto_run_uptime reachable_ok [OF gate_opening_reachable]) (simp_all add: opening_auto_clock, simp add: mhz_clock_def)
  have q: "command (controls gate_opening) = None" "wind_lock_reset (controls gate_opening) = None" "blocked (controls gate_opening) Opening = None"
      "position (leaf_a gate_opening) = 0"
    by (simp_all cong: eval_cong add: demo_defs)
  show ?thesis
    using movement_completes [OF mhz.time_units_axioms gate_opening_reachable gate_opening_task q(1,2) _ up] q(3,4)
    by simp
qed

text \<open>A closing gate two seconds into its travel when the wind guard trips.\<close>

definition gate_in_wind :: gate where
  "gate_in_wind = the (play mhz_clock [Elapse 2000000, Input DoWindTrigger] gate_closing)"

lemma gate_in_wind_plays:
  "play mhz_clock [Elapse 2000000, Input DoWindTrigger] gate_closing = Some gate_in_wind"
  by (simp add: gate_in_wind_def)

lemma wind_auto_clock: "now (dev (auto_run mhz_clock 30 gate_in_wind)) < 40000000"
  by (simp cong: eval_cong add: gate_in_wind_def auto_run_numeral auto_defs)

theorem wind_forces_open_witness:
  "relay_on gate_in_wind Closing \<and> position (leaf_a (auto_run mhz_clock 30 gate_in_wind)) = 255
   \<and> position (leaf_b (auto_run mhz_clock 30 gate_in_wind)) = 255"
proof -
  have r: "reachable mhz_clock gate_in_wind"
    by (rule play_reachable [OF gate_in_wind_plays gate_closing_reachable])
  have "leaf_set mhz_clock (leaf_a gate_closing) \<and> leaf_set mhz_clock (leaf_b gate_closing)"
    by (rule play_leaf_set [OF closing_run_plays reachable_ok [OF firmware_reachable] configured_leaf_set])
  then have "leaf_set mhz_clock (leaf_a gate_in_wind) \<and> leaf_set mhz_clock (leaf_b gate_in_wind)"
    using play_leaf_set [OF gate_in_wind_plays reachable_ok [OF gate_closing_reachable]] by blast
  moreover have "as_millis mhz_clock (now (dev (auto_run mhz_clock 30 gate_in_wind))) * 255 < 2 ^ 64"
    using wind_auto_clock by (simp add: mhz_clock_def div_less_iff_less_mult less_mult_imp_div_less)
  ultimately have up: "uptime_ok mhz_clock (auto_run mhz_clock 30 gate_in_wind)"
    by (intro auto_run_uptime reachable_ok [OF r]) simp_all
  have "wind_locked (controls gate_in_wind)" "\<not> barrier1_active (controls gate_in_wind)"
      "relay_on gate_in_wind Closing"
    by (simp_all cong: eval_cong add: gate_in_wind_def demo_defs relay_on_def relay_def)
  then show ?thesis
    using wind_forces_open [OF mhz.time_units_axioms r _ _ up] by simp
qed

end
