(* ===== verification/EndToEnd.thy ===== *)
theory EndToEnd
  imports Recovery GateLiveness
begin

text \<open>
  The whole way of a command: from the bytes that the broker sent, through the
  connection task, the message handler and the gate task with its two leaves, to
  the state that the broker retains afterwards; and the way of a wind alarm. It joins the delivery of
  \<open>MqttClient\<close>, the progress of \<open>GateLiveness\<close> and the recovery of \<open>Recovery\<close>.
\<close>

section \<open>The gate task within the system\<close>

lemma device_steps:
  "(fw_task tu half fo)\<^sup>*\<^sup>* (fw_of S) f \<Longrightarrow> (sys_step tu half fo cfg)\<^sup>*\<^sup>* S (S\<lparr>fw_of := f\<rparr>)"
proof (induction rule: rtranclp_induct)
  case base
  then show ?case by simp
next
  case (step f f')
  have "sys_step tu half fo cfg (S\<lparr>fw_of := f\<rparr>) (S\<lparr>fw_of := f\<rparr>\<lparr>fw_of := f'\<rparr>)"
    by (rule sys_step.device) (use step.hyps(2) in simp)
  with step.IH show ?case by (simp add: rtranclp.rtrancl_into_rtrancl)
qed

text \<open>A reaction of the gate is a step of a task, the saving of the state included.\<close>

lemma react_task:
  assumes "gate_react tu w (gate_of f) = Some g'"
  shows "\<exists>f'. fw_task tu half fo f f' \<and> gate_of f' = g'"
proof (cases "w = CallStep")
  case True
  with assms obtain snap where "task (gate_of f) = Returned snap"
    by (cases rule: gate_react_cases) auto
  with assms True have "fw_task tu half fo f (after_gate g' (persist fo snap f))" by (simp add: fw_task.call)
  moreover have "gate_of (after_gate g' (persist fo snap f)) = g'" by simp
  ultimately show ?thesis by blast
next
  case False
  with assms have "fw_task tu half fo f (after_gate g' f)" by (simp add: fw_task.wake)
  moreover have "gate_of (after_gate g' f) = g'" by simp
  ultimately show ?thesis by blast
qed

lemma auto_step_tasks:
  assumes "auto_step tu (gate_of f) = Some g'"
  shows "\<exists>f'. (fw_task tu half fo)\<^sup>*\<^sup>* f f' \<and> gate_of f' = g'"
proof -
  obtain w t where r: "gate_react tu w ((gate_of f)\<lparr>dev := clock_advance t (dev (gate_of f))\<rparr>) = Some g'"
    using auto_step_reacts [OF assms] .
  let ?f = "f\<lparr>site_of := (site_of f)\<lparr>the_gate := (gate_of f)\<lparr>dev := clock_advance t (dev (gate_of f))\<rparr>\<rparr>\<rparr>"
  have 1: "fw_task tu half fo f ?f" by (rule fw_task.tick)
  obtain f' where f': "fw_task tu half fo ?f f'" "gate_of f' = g'"
    using react_task [of tu w ?f g' half fo] r by auto
  have "(fw_task tu half fo)\<^sup>*\<^sup>* f f'"
    by (rule converse_rtranclp_into_rtranclp [of "fw_task tu half fo", OF 1 r_into_rtranclp [of "fw_task tu half fo", OF f'(1)]])
  with f'(2) show ?thesis by blast
qed

lemma auto_run_tasks: "\<exists>f'. (fw_task tu half fo)\<^sup>*\<^sup>* f f' \<and> gate_of f' = auto_run tu n (gate_of f)"
proof (induction n arbitrary: f)
  case (Suc n)
  show ?case
  proof (cases "auto_step tu (gate_of f)")
    case (Some g')
    obtain f1 where f1: "(fw_task tu half fo)\<^sup>*\<^sup>* f f1" "gate_of f1 = g'"
      using auto_step_tasks [OF Some] by blast
    obtain f' where "(fw_task tu half fo)\<^sup>*\<^sup>* f1 f'" "gate_of f' = auto_run tu n (gate_of f1)"
      using Suc.IH by blast
    with rtranclp_trans [OF f1(1)] f1(2) Some show ?thesis by auto
  qed auto
qed auto

section \<open>A command on its way\<close>

definition direction_command :: "direction \<Rightarrow> Command" where
  "direction_command d = (case d of Opening \<Rightarrow> CmdOpen | Closing \<Rightarrow> CmdClose)"

definition end_position :: "direction \<Rightarrow> u8" where
  "end_position d = (case d of Opening \<Rightarrow> 255 | Closing \<Rightarrow> 0)"

definition end_state :: "direction \<Rightarrow> str" where
  "end_state d = (case d of Opening \<Rightarrow> OPEN_STATE | Closing \<Rightarrow> CLOSED_STATE)"

lemma direction_command_sends: "\<not> wind_locked c \<Longrightarrow> apply_command (direction_command d) c = send (command_for d) c"
  by (cases d) (simp_all add: direction_command_def command_for_def controls_open_def controls_close_def)

text \<open>From the connection to the queue of incoming messages, and from there to the controls.\<close>

lemma command_delivered:
  assumes "conn_of S = Looping s" "sess_waiting s = None" "client_sane (sess_client s)" "deliverable (sess_client s) p"
    and "inbox (sess_client s) = publish_bytes p @ rest" "INCOMING (the_link S) = []"
  obtains s' where "conn_step tu cfg S (put_link ((the_link S)\<lparr>INCOMING := [\<lparr>in_topic = pub_topic p, in_payload = pub_payload p\<rparr>]\<rparr>)
    (Looping s') S)"
proof -
  have c: "client_ok (sess_client s)" "sends (sess_client s)" "4 \<le> length (tx_buffer (sess_client s))"
    using assms(3) by (simp_all add: client_sane_def)
  obtain c' where c': "poll (sess_client s) = (Some (Ok (Some p)), c')"
    using poll_delivers [OF c assms(4,5)] by blast
  let ?k = "(the_link S)\<lparr>INCOMING := [\<lparr>in_topic = pub_topic p, in_payload = pub_payload p\<rparr>]\<rparr>"
  have "attempt poll s (the_link S) = Inl (Some (Ok ()), s\<lparr>sess_client := c', sess_waiting := None\<rparr>, ?k)"
    using c' assms(6) by (simp add: attempt_def poll_branch_def deliver_def try_send_def QUEUE_DEPTH_def)
  from conn_step.iterate [OF assms(1,2) this, of tu cfg] show ?thesis by (intro that) simp
qed

lemma command_handled:
  assumes "to_subscribe f = []" "INCOMING (link_of f) = m # q" "parse (in_topic m) (in_payload m) = Ok cmd"
  shows "\<exists>f'. fw_task tu half fo f f' \<and>
    gate_of f' = (gate_of f)\<lparr>controls := apply_command cmd (controls (gate_of f))\<rparr>"
proof -
  let ?k = "(link_of f)\<lparr>INCOMING := q\<rparr>"
  have "link_receive (link_of f) = (Some m, ?k)" using assms(2) by (simp add: link_receive_def try_receive_def)
  with assms(1) have "fw_task tu half fo f (receive_message m (f\<lparr>link_of := ?k\<rparr>))" by (rule fw_task.message)
  moreover have "gate_of (receive_message m (f\<lparr>link_of := ?k\<rparr>)) =
      (gate_of f)\<lparr>controls := apply_command cmd (controls (gate_of f))\<rparr>"
    using assms(3) by (simp add: receive_message_def handle_message_def execute_def Let_def put_statics_def)
  ultimately show ?thesis by blast
qed

text \<open>At rest at an end position the cover state says so.\<close>

lemma rest_cover_state:
  assumes "gate_ok tu g" "\<nexists>l at. task g = Driving l at" "at_end d g"
  shows "cover_payload (cover_state (controls g)) = end_state d"
proof -
  have "current_direction (controls g) = DIR_IDLE" "position_class (controls g) = classify (take_snapshot g)"
    using assms(1,2) by (auto simp: gate_ok_def task_ok_def at_rest_def split: gate_task.splits)
  moreover have "classify (take_snapshot g) = (case d of Opening \<Rightarrow> POS_OPEN | Closing \<Rightarrow> POS_CLOSED)"
    using assms(3) by (cases d) (simp_all add: at_end_open at_end_close classify_def take_snapshot_def)
  ultimately show ?thesis
    by (cases d) (simp_all add: cover_state_def cover_payload_def end_state_def dir_codes pos_codes)
qed

lemma sys_reachable_gate: "sys_reachable tu half fo cfg S \<Longrightarrow> reachable tu (gate_of (fw_of S))"
  by (rule site_reachable_gate [OF fw_reachable_site [OF sys_reachable_fw]])

text \<open>
  Whatever the system is doing: the gate task can come to rest on its own, and the
  broker then retains the three state messages of that rest.
\<close>

lemma settles_and_reports:
  fixes S :: "('d, 'e) sys"
  assumes "config_ok cfg" "sys_ok S" "configs to_vec version = (Ok ms :: (unit, (str \<times> bytes) list) outcome)"
    and "\<forall>x \<in> set ms. fits x"
  shows "\<exists>S'. (sys_step tu half fo cfg)\<^sup>*\<^sup>* S S' \<and> gate_of (fw_of S') = auto_run tu 30 (gate_of (fw_of S)) \<and>
    (\<forall>(t, p) \<in> set (state_messages (controls (auto_run tu 30 (gate_of (fw_of S))))). broker_view S' t = Some p)"
proof -
  obtain f where f: "(fw_task tu half fo)\<^sup>*\<^sup>* (fw_of S) f" "gate_of f = auto_run tu 30 (gate_of (fw_of S))"
    using auto_run_tasks [of tu half fo "fw_of S" 30] by blast
  have run: "(sys_step tu half fo cfg)\<^sup>*\<^sup>* S (S\<lparr>fw_of := f\<rparr>)" by (rule device_steps [OF f(1)])
  then have "sys_ok (S\<lparr>fw_of := f\<rparr>)" using sys_safe.steps_inv assms(1,2) by blast
  from state_recovered [where tu = tu and half = half and fo = fo, OF assms(1) this assms(3,4)] obtain S' where
    "(sys_step tu half fo cfg)\<^sup>*\<^sup>* (S\<lparr>fw_of := f\<rparr>) S'" "site_of (fw_of S') = site_of f"
    "\<forall>(t, p) \<in> set (state_messages (controls (gate_of f))). broker_view S' t = Some p" by auto
  with rtranclp_trans [OF run] f(2) show ?thesis by (intro exI [of _ S']) simp
qed

lemma settled_gate:
  assumes "reachable tu g"
  shows "gate_ok tu (auto_run tu 30 g)" "task (auto_run tu 30 g) = AwaitCommand"
  using reachable_ok [OF auto_run_reachable [OF assms]] auto_run_settled [OF assms] by simp_all

section \<open>Properties\<close>



section \<open>A concrete command\<close>

text \<open>The handler registers its topics as long as the subscription queue has room.\<close>

lemma subscribe_all:
  assumes "length (SUB_QUEUE (link_of f)) + length (to_subscribe f) \<le> QUEUE_DEPTH"
  shows "\<exists>k. (fw_task tu half fo)\<^sup>*\<^sup>* f (f\<lparr>link_of := k, to_subscribe := []\<rparr>) \<and> INCOMING k = INCOMING (link_of f)"
  using assms
proof (induction "to_subscribe f" arbitrary: f)
  case Nil
  then have "f\<lparr>link_of := link_of f, to_subscribe := []\<rparr> = f" by simp
  then show ?case by (metis rtranclp.rtrancl_refl)
next
  case (Cons t ts)
  let ?x = "\<lparr>subscribed_topic = t, subscribed_qos = AtLeastOnce\<rparr>"
  let ?k = "(link_of f)\<lparr>SUBSCRIPTIONS := SUBSCRIPTIONS (link_of f) @ [?x], SUB_QUEUE := SUB_QUEUE (link_of f) @ [?x]\<rparr>"
  let ?f = "f\<lparr>link_of := ?k, to_subscribe := ts\<rparr>"
  have room: "length (SUB_QUEUE (link_of f)) + Suc (length ts) \<le> QUEUE_DEPTH"
    using Cons.prems Cons.hyps(2) [symmetric] by simp
  then have "link_subscribe t AtLeastOnce (link_of f) = (Some (), ?k)"
    by (simp add: link_subscribe_def try_send_def Let_def)
  with Cons.hyps(2) [symmetric] have 1: "fw_task tu half fo f ?f" by (rule fw_task.subscribe_topic)
  obtain k where k: "(fw_task tu half fo)\<^sup>*\<^sup>* ?f (?f\<lparr>link_of := k, to_subscribe := []\<rparr>)" "INCOMING k = INCOMING (link_of ?f)"
    using Cons.hyps(1) [of ?f] room by auto
  have "(fw_task tu half fo)\<^sup>*\<^sup>* f (?f\<lparr>link_of := k, to_subscribe := []\<rparr>)"
    by (rule converse_rtranclp_into_rtranclp [of "fw_task tu half fo", OF 1 k(1)])
  with k(2) show ?case by (intro exI [of _ k]) simp
qed

text \<open>A broker that accepts the connection and then sends an open command.\<close>

definition commanding :: "unit net" where
  "commanding = \<lparr>incoming = [Chunk [0x20, 2, 0, 0], Chunk (publish_bytes open_publish)], send_script = [], sent = [], clock = 0\<rparr>"

lemma commanding_facts:
  "send_script commanding = []" "sent commanding = []"
  "available (incoming commanding) = [0x20, 0x02, 0, 0] @ publish_bytes open_publish"
  by (simp_all add: commanding_def publish_bytes_def frame_def)

text \<open>The gate of the demonstration device, waiting and with the open command.\<close>

abbreviation (input) demo_gate :: gate where
  "demo_gate \<equiv> (firmware_gate mhz_clock 3 9 False)\<lparr>task := AwaitCommand\<rparr>"

lemma demo_gate_facts:
  "task (firmware_gate mhz_clock 3 9 False) = Returned (take_snapshot (firmware_gate mhz_clock 3 9 False))"
  "gate_react mhz_clock CallStep (firmware_gate mhz_clock 3 9 False) = Some demo_gate"
  "wind_lock_reset (controls demo_gate) = None" "\<not> wind_locked (controls demo_gate)"
  "blocked (controls demo_gate) Opening = None"
  by (simp_all cong: eval_cong add: run_defs)

lemma demo_command_plays:
  "play mhz_clock [Wake CallStep, Input DoOpen] (firmware_gate mhz_clock 3 9 False)
   = Some (demo_gate\<lparr>controls := send Open (controls demo_gate)\<rparr>)"
  by (simp cong: eval_cong add: run_defs)

lemma demo_command_clock:
  "now (dev (auto_run mhz_clock 30 (demo_gate\<lparr>controls := send Open (controls demo_gate)\<rparr>))) < 40000000"
  by (simp cong: eval_cong add: auto_run_numeral auto_defs)

lemma demo_sys_fw:
  "gate_of (fw_of demo_sys) = firmware_gate mhz_clock 3 9 False" "INCOMING (the_link demo_sys) = []"
  "to_subscribe (fw_of demo_sys) = COMMAND_TOPICS"
  "saved (fw_of demo_sys) = to_gate_state (take_snapshot (firmware_gate mhz_clock 3 9 False))"
proof -
  have "INCOMING (fold publish_state cs k) = INCOMING k" for cs k
    by (induction cs arbitrary: k) (simp_all add: publish_state_queue)
  then show "gate_of (fw_of demo_sys) = firmware_gate mhz_clock 3 9 False" "INCOMING (the_link demo_sys) = []"
    "to_subscribe (fw_of demo_sys) = COMMAND_TOPICS"
    "saved (fw_of demo_sys) = to_gate_state (take_snapshot (firmware_gate mhz_clock 3 9 False))"
    by (simp_all add: demo_sys_def sys_start_def fw_start_def Let_def boot_gate_firmware half_open_state link_new_def)
qed

lemma commanded_sys:
  obtains S :: "(ram, unit) sys" and s where "sys_reachable mhz_clock half ram_ops demo_config S" "conn_of S = Looping s" "sess_waiting s = None"
    "INCOMING (the_link S) = []" "to_subscribe (fw_of S) = []" "inbox (sess_client s) = publish_bytes open_publish @ []"
    "length (rx_buffer (sess_client s)) = 512" "gate_of (fw_of S) = demo_gate"
proof -
  obtain c where c: "connect mhz_clock (MqttClient_new MQTT_BUFFER_SIZE commanding (client_options mhz_clock demo_config)) = (Some (Ok ()), c)"
      "inbox c = publish_bytes open_publish" "length (rx_buffer c) = 512"
    by (rule handshake_accepted [OF demo_config_ok commanding_facts(1,3)])
  define S1 where "S1 = put_link ((the_link demo_sys)\<lparr>SUB_QUEUE := []\<rparr>) (Subscribing c []) demo_sys"
  have "conn_step mhz_clock demo_config demo_sys S1"
    using conn_step.handshake [OF demo_sys_facts(2) commanding_facts(1,2) c(1)] by (simp add: S1_def demo_sys_facts(4))
  then have 1: "sys_step mhz_clock half ram_ops demo_config demo_sys S1" by (rule sys_step.connection)
  define s where "s = \<lparr>sess_client = c, sess_waiting = None\<rparr>"
  define S2 where "S2 = put_link ((the_link S1)\<lparr>OUTGOING := [], CONNECTED := signal_set () (CONNECTED (the_link S1))\<rparr>) (Looping s) S1"
  have "conn_step mhz_clock demo_config S1 S2"
    unfolding S2_def s_def by (rule conn_step.established) (simp add: S1_def)
  then have 2: "sys_step mhz_clock half ram_ops demo_config S1 S2" by (rule sys_step.connection)
  let ?f = "fw_of S2" and ?snap = "take_snapshot (firmware_gate mhz_clock 3 9 False)"
  have f: "gate_of ?f = firmware_gate mhz_clock 3 9 False" "INCOMING (link_of ?f) = []" "SUB_QUEUE (link_of ?f) = []"
      "to_subscribe ?f = COMMAND_TOPICS" "saved ?f = to_gate_state ?snap"
    by (simp_all add: S2_def S1_def put_link_def demo_sys_fw)
  have "persist ram_ops ?snap ?f = ?f" by (simp add: persist_def f(5))
  then have 3: "fw_task mhz_clock half ram_ops ?f (after_gate demo_gate ?f)"
    using fw_task.call [of ?f ?snap mhz_clock demo_gate half ram_ops] demo_gate_facts(1,2) by (simp add: f(1))
  have a: "link_of (after_gate demo_gate ?f) = link_of ?f" "to_subscribe (after_gate demo_gate ?f) = COMMAND_TOPICS"
    by (simp_all add: after_gate_def f(1,4))
  obtain k where k: "(fw_task mhz_clock half ram_ops)\<^sup>*\<^sup>* (after_gate demo_gate ?f) ((after_gate demo_gate ?f)\<lparr>link_of := k, to_subscribe := []\<rparr>)"
      "INCOMING k = []"
    using subscribe_all [of "after_gate demo_gate ?f" mhz_clock half ram_ops]
    by (auto simp: a f(2,3) COMMAND_TOPICS_def QUEUE_DEPTH_def)
  let ?S = "S2\<lparr>fw_of := (after_gate demo_gate ?f)\<lparr>link_of := k, to_subscribe := []\<rparr>\<rparr>"
  have "(sys_step mhz_clock half ram_ops demo_config)\<^sup>*\<^sup>* S2 ?S"
    by (rule device_steps [OF converse_rtranclp_into_rtranclp [of "fw_task mhz_clock half ram_ops", OF 3 k(1)]])
  from reach_steps [OF reach_step [OF reach_step [OF demo_sys_facts(1) 1] 2] this]
  have "sys_reachable mhz_clock half ram_ops demo_config ?S" .
  then show ?thesis by (rule that [of ?S s]) (simp_all add: S2_def s_def c(2,3) k(2))
qed

lemma demo_command_uptime:
  "uptime_ok mhz_clock (auto_run mhz_clock 30 (demo_gate\<lparr>controls := send Open (controls demo_gate)\<rparr>))"
proof -
  let ?g = "demo_gate\<lparr>controls := send Open (controls demo_gate)\<rparr>"
  have "leaf_set mhz_clock (leaf_a ?g) \<and> leaf_set mhz_clock (leaf_b ?g)"
    by (rule play_leaf_set [OF demo_command_plays reachable_ok [OF firmware_reachable] configured_leaf_set])
  moreover have "as_millis mhz_clock (now (dev (auto_run mhz_clock 30 ?g))) * 255 < 2 ^ 64"
    using demo_command_clock by (simp add: mhz_clock_def div_less_iff_less_mult less_mult_imp_div_less)
  ultimately show ?thesis
    by (intro auto_run_uptime reachable_ok [OF play_reachable [OF demo_command_plays firmware_reachable]]) simp_all
qed


text \<open>A device that lost power half open, with the wind lock engaged.\<close>

definition locked_ram :: ram where
  "locked_ram = blank_ram\<lparr>items := [GATE_STATE_KEY \<mapsto> [3, 9, 1]]\<rparr>"

definition locked_sys :: "(ram, unit) sys" where
  "locked_sys = sys_start mhz_clock ram_ops locked_ram (\<lambda>_. None)"

lemma locked_state: "boot_gate_state ram_ops locked_ram = \<lparr>state_leaf_a = 3, state_leaf_b = 9, state_wind_locked = True\<rparr>"
  by (simp add: locked_ram_def boot_gate_state_def load_gate_state_def open_store_def store_load_gate_state_def
      fetch_as_def flatten_def ram_ops_def blank_ram_def ram_state_from_bytes_def)

lemma locked_sys_facts:
  "sys_reachable mhz_clock half ram_ops cfg locked_sys" "gate_of (fw_of locked_sys) = firmware_gate mhz_clock 3 9 True"
proof -
  show "sys_reachable mhz_clock half ram_ops cfg locked_sys" by (rule reach_init) (auto simp: locked_sys_def)
  show "gate_of (fw_of locked_sys) = firmware_gate mhz_clock 3 9 True"
    by (simp add: locked_sys_def sys_start_def fw_start_def Let_def boot_gate_firmware locked_state)
qed

lemma locked_clock: "now (dev (auto_run mhz_clock 30 (firmware_gate mhz_clock 3 9 True))) < 40000000"
  by (simp cong: eval_cong add: auto_run_numeral auto_defs)


end
