(* ===== verification/Networking.thy ===== *)
theory Networking
  imports MqttLink Boot
begin

text \<open>
  The tasks around the network: the two loops that retry for ever with a delay
  (\<open>connection_task\<close> of \<open>src/infra/wifi_sta.rs\<close> and \<open>task\<close> of
  \<open>src/infra/mqtt_client.rs\<close>), the access point of the setup mode with its DHCP
  server (\<open>wifi_ap.rs\<close>, \<open>dhcp_server.rs\<close>), the setup page as it is served
  (\<open>provisioning_http.rs\<close>) and the script \<open>build.rs\<close>. The radio driver, the DHCP
  and HTTP libraries and the linker are parameters.
\<close>

section \<open>Retrying\<close>

text \<open>
  A loop that tries, for each try gets an outcome of the environment, and waits a
  fixed time before the next try. \<open>tries\<close> is when each try begins, with the state
  it begins in.
\<close>

fun tries :: "ticks \<Rightarrow> ('o \<Rightarrow> ticks \<Rightarrow> 's \<Rightarrow> ticks \<times> 's) \<Rightarrow> 'o list \<Rightarrow> ticks \<Rightarrow> 's \<Rightarrow> (ticks \<times> 's) list" where
  "tries delay attempt [] t s = [(t, s)]"
| "tries delay attempt (x # xs) t s =
     (case attempt x t s of (t', s') \<Rightarrow> (t, s) # tries delay attempt xs (t' + delay) s')"

text \<open>What both clients of the loop promise: an attempt takes time, it does not give any back.\<close>

locale retry_loop =
  fixes attempt :: "'o \<Rightarrow> ticks \<Rightarrow> 's \<Rightarrow> ticks \<times> 's"
    and delay :: ticks
  assumes attempt_later: "t \<le> fst (attempt x t s)"
begin

lemma tries_hd: "\<exists>rest. tries delay attempt xs t s = (t, s) # rest"
  by (cases xs) (simp_all split: prod.split)

text \<open>There is a try for every failure, and one more: the loop never gives up.\<close>

lemma never_gives_up: "length (tries delay attempt xs t s) = Suc (length xs)"
  by (induction xs arbitrary: t s) (simp_all split: prod.split)

lemma paced:
  "Suc i < length (tries delay attempt xs t s) \<Longrightarrow>
   fst (tries delay attempt xs t s ! i) + delay \<le> fst (tries delay attempt xs t s ! Suc i)"
proof (induction xs arbitrary: t s i)
  case (Cons x xs)
  obtain t' s' where a: "attempt x t s = (t', s')" by force
  have t: "t \<le> t'" using attempt_later [of t x s] a by simp
  obtain rest where r: "tries delay attempt xs (t' + delay) s' = (t' + delay, s') # rest" using tries_hd by blast
  show ?case
  proof (cases i)
    case 0
    then show ?thesis using a t r by simp
  next
    case (Suc j)
    then show ?thesis using Cons.IH [of j "t' + delay" s'] Cons.prems a by simp
  qed
qed simp

end

section \<open>The Wi-Fi station\<close>

text \<open>\<open>RECONNECT_DELAY\<close> of \<open>wifi_sta.rs\<close>.\<close>

definition STA_RECONNECT_DELAY :: "time_ops \<Rightarrow> ticks" where
  "STA_RECONNECT_DELAY tu = from_secs tu 5"

text \<open>What the driver does in one round: \<open>connect_async\<close> takes some time and succeeds or not; a connection lasts.\<close>

record sta_round =
  connecting :: ticks
  connects :: bool
  lasting :: ticks

datatype sta_event = WifiConnected | WifiDisconnected | WifiConnectFailed

definition sta_attempt :: "sta_round \<Rightarrow> ticks \<Rightarrow> (ticks \<times> sta_event) list \<Rightarrow> ticks \<times> (ticks \<times> sta_event) list" where
  "sta_attempt x t es =
     (let t = t + connecting x in
      if connects x
      then (let es = es @ [(t, WifiConnected)]; t = t + lasting x in (t, es @ [(t, WifiDisconnected)]))
      else (t, es @ [(t, WifiConnectFailed)]))"

definition connection_task :: "time_ops \<Rightarrow> sta_round list \<Rightarrow> ticks \<Rightarrow> (ticks \<times> (ticks \<times> sta_event) list) list" where
  "connection_task tu xs t = tries (STA_RECONNECT_DELAY tu) sta_attempt xs t []"

interpretation sta: retry_loop sta_attempt "STA_RECONNECT_DELAY tu" for tu
  by unfold_locales (simp add: sta_attempt_def Let_def)

section \<open>The connection to the broker\<close>

text \<open>
  One round of \<open>task\<close>: \<open>run_once\<close> over what the network and the other tasks do, and
  how long it takes until it returns. While \<open>run_once\<close> does not return the loop
  does not go on.
\<close>

record ('ip, 'q, 'e) mqtt_round =
  round_network :: "('ip, 'q, 'e) network"
  round_pauses :: "'e pause list"
  round_time :: ticks

definition mqtt_attempt ::
  "time_ops \<Rightarrow> AppConfig \<Rightarrow> ('ip, 'q, 'e) mqtt_round \<Rightarrow> ticks \<Rightarrow> link \<Rightarrow> ticks \<times> link" where
  "mqtt_attempt tu cfg x t k = (t + round_time x, snd (run_once tu (round_network x) cfg (round_pauses x) k))"

definition mqtt_task ::
  "time_ops \<Rightarrow> AppConfig \<Rightarrow> ('ip, 'q, 'e) mqtt_round list \<Rightarrow> ticks \<Rightarrow> link \<Rightarrow> (ticks \<times> link) list" where
  "mqtt_task tu cfg xs t k = tries (RECONNECT_DELAY tu) (mqtt_attempt tu cfg) xs t k"

interpretation mqtt: retry_loop "mqtt_attempt tu cfg" "RECONNECT_DELAY tu" for tu cfg
  by unfold_locales (simp add: mqtt_attempt_def)

text \<open>The loop of a connection ends with an error only.\<close>

lemma session_loop_result: "session_loop tu es s k = (r, s', k') \<Longrightarrow> r \<noteq> Some (Ok v)"
  by (induction es arbitrary: s k) (auto split: prod.splits option.splits outcome.splits)

lemma run_once_result: "run_once tu nw cfg es k = (r, k') \<Longrightarrow> r \<noteq> Some (Ok v)"
  by (auto simp: run_once_def split: option.splits prod.splits outcome.splits dest: session_loop_result)

section \<open>The access point and its DHCP server\<close>

type_synonym ipv4 = "u8 list"

definition AP_SSID :: str where "AP_SSID = lit ''mqtt-gate-setup''"
definition AP_IP_OCTETS :: ipv4 where "AP_IP_OCTETS = [192, 168, 2, 1]"
definition AP_PREFIX_LEN :: u8 where "AP_PREFIX_LEN = 24"

definition AP_IP :: ipv4 where
  "AP_IP = [AP_IP_OCTETS ! 0, AP_IP_OCTETS ! 1, AP_IP_OCTETS ! 2, AP_IP_OCTETS ! 3]"

text \<open>What the driver is told: the two modes of the radio.\<close>

datatype radio_config = RadioStation station_config | RadioAccessPoint str

definition ap_configure :: "(radio_config \<Rightarrow> 'e + unit) \<Rightarrow> 'e + unit" where
  "ap_configure set_config = set_config (RadioAccessPoint AP_SSID)"

definition sta_configure :: "(radio_config \<Rightarrow> 'e + unit) \<Rightarrow> AppConfig \<Rightarrow> 'e + unit" where
  "sta_configure set_config cfg = set_config (RadioStation (station_configure cfg))"

datatype ip_config = Dhcp | StaticV4 ipv4 u8 "ipv4 option" "ipv4 list"

definition sta_net_config :: ip_config where
  "sta_net_config = Dhcp"

definition ap_net_config :: ip_config where
  "ap_net_config = StaticV4 AP_IP AP_PREFIX_LEN None []"

definition MAX_LEASES :: nat where "MAX_LEASES = 4"
definition RECV_BUF_LEN :: nat where "RECV_BUF_LEN = 600"

record dhcp_server =
  dhcp_leases :: nat
  dhcp_ip :: ipv4
  dhcp_gateways :: "ipv4 list"
  dhcp_buffer :: nat

text \<open>
  The task of \<open>dhcp_server.rs\<close>: \<open>bind_udp\<close> and \<open>run_server\<close> are \<open>bind\<close> and \<open>run\<close> of the network and DHCP libraries;
  \<open>run\<close> answers only to report an error, and the task ends then.
\<close>

definition dhcp_task :: "nat \<Rightarrow> (ipv4 \<times> nat \<Rightarrow> 'e + 's) \<Rightarrow> (dhcp_server \<Rightarrow> 's \<Rightarrow> 'x) \<Rightarrow> 'x option" where
  "dhcp_task server_port bind_udp run_server =
     (let server_ip = AP_IP_OCTETS in
      case bind_udp ([0, 0, 0, 0], server_port) of
        Inl err \<Rightarrow> None
      | Inr socket \<Rightarrow>
          Some (run_server \<lparr>dhcp_leases = MAX_LEASES, dhcp_ip = server_ip, dhcp_gateways = [server_ip],
            dhcp_buffer = RECV_BUF_LEN\<rparr> socket))"

section \<open>The setup page as it is served\<close>

record html =
  html_body :: string

definition content_type :: "html \<Rightarrow> string" where
  "content_type h = ''text/html; charset=utf-8''"

definition content_length :: "html \<Rightarrow> nat" where
  "content_length h = length (html_body h)"

text \<open>\<open>write_all\<close> on the writer of the HTTP library.\<close>

definition write_content :: "html \<Rightarrow> (bytes \<Rightarrow> 'e + unit) \<Rightarrow> 'e + unit" where
  "write_content h write_all = write_all (lit (html_body h))"

datatype http_method = GET | POST | OtherMethod

text \<open>
  The route of \<open>build_app\<close>; \<open>extract\<close> is the form decoder of the HTTP library. \<open>None\<close>:
  the library answers with an error and no handler runs.
\<close>

definition route :: "(bytes \<Rightarrow> SubmittedForm option) \<Rightarrow> http_method \<Rightarrow> string \<Rightarrow> bytes \<Rightarrow>
    AppConfig signal \<Rightarrow> html option \<times> AppConfig signal" where
  "route extract m path body submitted =
     (if path \<noteq> ''/'' then (None, submitted)
      else (case m of
              GET \<Rightarrow> (Some \<lparr>html_body = index\<rparr>, submitted)
            | POST \<Rightarrow> (case extract body of
                  None \<Rightarrow> (None, submitted)
                | Some form \<Rightarrow> (case submit form submitted of (page, submitted) \<Rightarrow> (Some \<lparr>html_body = page\<rparr>, submitted)))
            | OtherMethod \<Rightarrow> (None, submitted)))"

text \<open>The single worker handles the requests one after the other.\<close>

fun serve :: "(bytes \<Rightarrow> SubmittedForm option) \<Rightarrow> (http_method \<times> string \<times> bytes) list \<Rightarrow> AppConfig signal \<Rightarrow>
    html option list \<times> AppConfig signal" where
  "serve extract [] submitted = ([], submitted)"
| "serve extract ((m, path, body) # rs) submitted =
     (case route extract m path body submitted of
        (h, submitted) \<Rightarrow> (case serve extract rs submitted of (hs, submitted) \<Rightarrow> (h # hs, submitted)))"

section \<open>The build script\<close>

text \<open>
  The script is its own linker error handler: run by cargo it has no argument,
  run by the linker it gets the kind of the error and the missing name. \<open>exe\<close> is
  \<open>current_exe\<close>; \<open>args\<close> includes the name of the program.
\<close>

datatype hint = DefmtHint | StackHint | SchedulerHint | EmbeddedTestHint | AllocHint

datatype build_result = Printed "string list" | Exited int "hint option" | BuildPanic

definition starts_with :: "string \<Rightarrow> string \<Rightarrow> bool" where
  "starts_with p s \<longleftrightarrow> take (length p) s = p"

definition undefined_symbol :: "string \<Rightarrow> hint option" where
  "undefined_symbol what =
     (if starts_with ''_defmt_'' what then Some DefmtHint
      else if what = ''_stack_start'' then Some StackHint
      else if starts_with ''esp_rtos_'' what then Some SchedulerHint
      else if what = ''embedded_test_linker_file_not_added_to_rustflags'' then Some EmbeddedTestHint
      else if what \<in> set [''free'', ''malloc'', ''calloc'', ''get_free_internal_heap_size'', ''malloc_internal'',
          ''realloc_internal'', ''calloc_internal'', ''free_internal''] then Some AllocHint
      else None)"

definition linker_be_nice :: "string list \<Rightarrow> string option \<Rightarrow> build_result" where
  "linker_be_nice args exe =
     (case args of
        _ # kind # rest \<Rightarrow>
          (case rest of
             [] \<Rightarrow> BuildPanic
           | what # _ \<Rightarrow> if kind = ''undefined-symbol'' then Exited 0 (undefined_symbol what) else Exited 1 None)
      | _ \<Rightarrow> (case exe of
                None \<Rightarrow> BuildPanic
              | Some path \<Rightarrow> Printed [''cargo:rustc-link-arg=-Wl,--error-handling-script='' @ path]))"

definition build_main :: "string list \<Rightarrow> string option \<Rightarrow> build_result" where
  "build_main args exe =
     (case linker_be_nice args exe of
        Printed out \<Rightarrow> Printed (out @ [''cargo:rustc-link-arg=-Tlinkall.x''])
      | r \<Rightarrow> r)"

text \<open>As the linker calls it, with at least two arguments, the script never panics.\<close>

lemma build_main_handler: "build_main (prog # kind # what # rest) exe =
    (if kind = ''undefined-symbol'' then Exited 0 (undefined_symbol what) else Exited 1 None)"
  by (simp add: build_main_def linker_be_nice_def)

section \<open>Properties\<close>

lemma sorted_tries:
  fixes attempt :: "'o \<Rightarrow> ticks \<Rightarrow> 's \<Rightarrow> ticks \<times> 's"
  assumes "retry_loop attempt"
  shows "sorted_wrt (\<lambda>x y. fst x + delay \<le> fst y) (tries delay attempt xs t s)"
proof -
  have t: "transp (\<lambda>x y :: ticks \<times> 's. fst x + delay \<le> fst y)" by (auto intro!: transpI)
  show ?thesis using retry_loop.paced [OF assms] by (simp add: sorted_wrt_iff_nth_Suc_transp [OF t])
qed


definition accepted :: "(bytes \<Rightarrow> SubmittedForm option) \<Rightarrow> http_method \<times> string \<times> bytes \<Rightarrow> AppConfig option" where
  "accepted extract r =
     (case r of (m, path, body) \<Rightarrow>
        if path = ''/'' \<and> m = POST
        then (case extract body of
                None \<Rightarrow> None
              | Some form \<Rightarrow> (case into_config form of Ok cfg \<Rightarrow> Some cfg | _ \<Rightarrow> None))
        else None)"

lemma route_slot:
  "snd (route extract m path body s) = (case accepted extract (m, path, body) of None \<Rightarrow> s | Some cfg \<Rightarrow> Some cfg)"
  by (cases m) (auto simp: route_def accepted_def submit_def split: option.split outcome.split prod.split)


end
