(* ===== verification/Sim.thy ===== *)
theory Sim
  imports GateLiveness Bytes
begin

text \<open>
  The simulation harness (\<open>gate-core/src/sim.rs\<close>): an executor that polls a
  future, moves the clock on by one step and polls again until the future is
  ready or a time limit is reached, and the queries of the pin log. A future is
  its state with a poll function; a poll that never returns is the value
  \<open>None\<close>. The locale \<open>simulation\<close> states what the executor needs of a future,
  and the future of \<open>Gate::step\<close> is an instance of it, so the harness is shown
  to end, and what it runs are runs of the gate model.
\<close>

section \<open>The pin log\<close>

definition now_ms :: "time_ops \<Rightarrow> hw \<Rightarrow> nat" where
  "now_ms tu h = as_millis tu (now h)"

definition is_high :: "pin_name \<Rightarrow> hw \<Rightarrow> bool" where
  "is_high p h = levels h p"

definition take_switches :: "hw \<Rightarrow> switch list \<times> hw" where
  "take_switches h = (switches h, h\<lparr>switches := []\<rparr>)"

definition on :: "nat \<Rightarrow> pin_name \<Rightarrow> switch" where
  "on t p = \<lparr>at_ms = t, pin = p, is_on = True\<rparr>"

definition off :: "nat \<Rightarrow> pin_name \<Rightarrow> switch" where
  "off t p = \<lparr>at_ms = t, pin = p, is_on = False\<rparr>"

section \<open>The executor\<close>

definition STEP :: "time_ops \<Rightarrow> ticks" where "STEP tu = from_millis tu 1"

partial_function (option) run_loop ::
  "time_ops \<Rightarrow> ('s \<Rightarrow> ('o option \<times> 's) option) \<Rightarrow> ('s \<Rightarrow> ticks) \<Rightarrow> (ticks \<Rightarrow> 's \<Rightarrow> 's) \<Rightarrow> ticks \<Rightarrow> 's \<Rightarrow> ('o option \<times> 's) option"
where
  "run_loop tu poll_fut clk adv end_at s =
     (case poll_fut s of
        None \<Rightarrow> None
      | Some (Some r, s') \<Rightarrow> Some (Some r, s')
      | Some (None, s') \<Rightarrow>
          if end_at \<le> clk s' then Some (None, s')
          else run_loop tu poll_fut clk adv end_at (adv (STEP tu) s'))"

definition run_for ::
  "time_ops \<Rightarrow> ('s \<Rightarrow> ('o option \<times> 's) option) \<Rightarrow> ('s \<Rightarrow> ticks) \<Rightarrow> (ticks \<Rightarrow> 's \<Rightarrow> 's) \<Rightarrow> ticks \<Rightarrow> 's \<Rightarrow> ('o option \<times> 's) option"
where
  "run_for tu poll_fut clk adv duration s = run_loop tu poll_fut clk adv (clk s + duration) s"

text \<open>\<open>Panic\<close> when the future did not complete within the limit.\<close>

definition run_until_ready ::
  "time_ops \<Rightarrow> ('s \<Rightarrow> ('o option \<times> 's) option) \<Rightarrow> ('s \<Rightarrow> ticks) \<Rightarrow> (ticks \<Rightarrow> 's \<Rightarrow> 's) \<Rightarrow> ticks \<Rightarrow> 's \<Rightarrow> ((unit, 'o) outcome \<times> 's) option"
where
  "run_until_ready tu poll_fut clk adv limit s =
     map_option (map_prod (\<lambda>r. case r of Some v \<Rightarrow> Ok v | None \<Rightarrow> Panic) id) (run_for tu poll_fut clk adv limit s)"

text \<open>What the executor needs of a future: polling returns at the same instant and keeps the invariant.\<close>

locale simulation = time_units +
  fixes poll_fut :: "'s \<Rightarrow> ('o option \<times> 's) option"
    and clk :: "'s \<Rightarrow> ticks"
    and adv :: "ticks \<Rightarrow> 's \<Rightarrow> 's"
    and inv :: "'s \<Rightarrow> bool"
    and finished :: "'o \<Rightarrow> 's \<Rightarrow> bool"
  assumes poll_returns: "inv s \<Longrightarrow> \<exists>r s'. poll_fut s = Some (r, s') \<and> inv s' \<and> clk s' = clk s \<and> (\<forall>v. r = Some v \<longrightarrow> finished v s')"
    and adv_clk: "clk (adv t s) = clk s + t"
    and adv_inv: "inv s \<Longrightarrow> inv (adv t s)"
begin

lemma step_pos: "0 < STEP tu"
  by (simp add: STEP_def from_millis_pos)

lemma run_loop_returns:
  assumes "inv s"
  shows "\<exists>r s'. run_loop tu poll_fut clk adv end_at s = Some (r, s') \<and> inv s' \<and> clk s \<le> clk s' \<and>
    (case r of Some v \<Rightarrow> finished v s' | None \<Rightarrow> end_at \<le> clk s') \<and> clk s' < max (Suc (clk s)) (end_at + STEP tu)"
  using assms
proof (induction "end_at - clk s" arbitrary: s rule: less_induct)
  case less
  obtain r s1 where s1: "poll_fut s = Some (r, s1)" "inv s1" "clk s1 = clk s" "\<forall>v. r = Some v \<longrightarrow> finished v s1"
    using poll_returns [OF less(2)] by blast
  show ?case
  proof (cases "r \<noteq> None \<or> end_at \<le> clk s")
    case True
    with s1 show ?thesis by (cases r) (auto simp: run_loop.simps [of tu poll_fut clk adv end_at s])
  next
    case False
    let ?t = "adv (STEP tu) s1"
    have t: "inv ?t" "clk ?t = clk s + STEP tu" using s1 adv_inv adv_clk by simp_all
    have "end_at - clk ?t < end_at - clk s" using False t(2) step_pos by (auto intro!: diff_less_mono2)
    from less(1) [OF this t(1)] obtain q s2 where s2: "run_loop tu poll_fut clk adv end_at ?t = Some (q, s2)" "inv s2"
        "clk ?t \<le> clk s2" "case q of Some v \<Rightarrow> finished v s2 | None \<Rightarrow> end_at \<le> clk s2"
        "clk s2 < max (Suc (clk ?t)) (end_at + STEP tu)" by blast
    have "run_loop tu poll_fut clk adv end_at s = Some (q, s2)"
      using False s1 s2(1) by (simp add: run_loop.simps [of tu poll_fut clk adv end_at s])
    with s2 t(2) False show ?thesis by auto
  qed
qed

lemma run_for_returns:
  assumes "inv s"
  shows "\<exists>r s'. run_for tu poll_fut clk adv duration s = Some (r, s') \<and> inv s' \<and>
    (case r of Some v \<Rightarrow> finished v s' | None \<Rightarrow> clk s + duration \<le> clk s') \<and> clk s' < clk s + duration + STEP tu"
proof -
  have "max (Suc (clk s)) (clk s + duration + STEP tu) = clk s + duration + STEP tu" using step_pos by simp
  with run_loop_returns [OF assms, of "clk s + duration"] show ?thesis unfolding run_for_def by metis
qed

end

section \<open>The future of a step of the gate\<close>

text \<open>Polling it: the call, then every ready wake-up in turn, until the step has returned or has to wait.\<close>

partial_function (option) poll_ready :: "time_ops \<Rightarrow> gate \<Rightarrow> (snapshot option \<times> gate) option" where
  "poll_ready tu g =
     (case task g of
        Returned snap \<Rightarrow> Some (Some snap, g)
      | AwaitCommand \<Rightarrow> (case poll_gate tu g of None \<Rightarrow> Some (None, g) | Some g' \<Rightarrow> poll_ready tu g')
      | Driving l at \<Rightarrow> (case poll_gate tu g of None \<Rightarrow> Some (None, g) | Some g' \<Rightarrow> poll_ready tu g'))"

definition step_future :: "time_ops \<Rightarrow> bool \<times> gate \<Rightarrow> (snapshot option \<times> bool \<times> gate) option" where
  "step_future tu s =
     (case s of (called, g) \<Rightarrow>
        map_option (map_prod id (Pair True))
          (if called then poll_ready tu g
           else Option.bind (gate_react tu CallStep g) (poll_ready tu)))"

definition future_clock :: "bool \<times> gate \<Rightarrow> ticks" where
  "future_clock s = now (dev (snd s))"

definition future_advance :: "ticks \<Rightarrow> bool \<times> gate \<Rightarrow> bool \<times> gate" where
  "future_advance t s = (fst s, (snd s)\<lparr>dev := clock_advance t (dev (snd s))\<rparr>)"

definition future_ok :: "time_ops \<Rightarrow> bool \<times> gate \<Rightarrow> bool" where
  "future_ok tu s \<longleftrightarrow> reachable tu (snd s) \<and> (\<not> fst s \<longrightarrow> (\<exists>snap. task (snd s) = Returned snap))"

definition step_over :: "snapshot \<Rightarrow> bool \<times> gate \<Rightarrow> bool" where
  "step_over snap s \<longleftrightarrow> task (snd s) = Returned snap"

lemma poll_gate_reacts: "poll_gate tu g = Some g' \<Longrightarrow> \<exists>w. gate_react tu w g = Some g'"
  by (auto simp: poll_gate_def Let_def split: option.splits)

lemma react_now: "gate_ok tu g \<Longrightarrow> gate_react tu w g = Some g' \<Longrightarrow> now (dev g') = now (dev g)"
  using pin_frame.R_react [of tu g w g'] foreign_write_now by (auto simp: own_pins_def)

lemma react_reachable: "reachable tu g \<Longrightarrow> gate_react tu w g = Some g' \<Longrightarrow> reachable tu g'"
  using gate_step.react reach_step by metis

text \<open>A poll ends because every reaction reduces the outstanding work.\<close>

lemma poll_ready_returns:
  assumes "reachable tu g"
  shows "\<exists>r g'. poll_ready tu g = Some (r, g') \<and> reachable tu g' \<and> now (dev g') = now (dev g) \<and>
    (\<forall>snap. r = Some snap \<longrightarrow> task g' = Returned snap)"
  using assms
proof (induction "work g" arbitrary: g rule: less_induct)
  case less
  show ?case
  proof (cases "(\<exists>snap. task g = Returned snap) \<or> poll_gate tu g = None")
    case True
    then show ?thesis using less(2) by (subst poll_ready.simps) (auto split: gate_task.split)
  next
    case False
    then obtain g1 where g1: "poll_gate tu g = Some g1" by blast
    then obtain w where w: "gate_react tu w g = Some g1" using poll_gate_reacts by blast
    note ok = reachable_ok [OF less(2)]
    from less(1) [OF react_work [OF ok w] react_reachable [OF less(2) w]] obtain r g2
      where g2: "poll_ready tu g1 = Some (r, g2)" "reachable tu g2" "now (dev g2) = now (dev g1)"
        "\<forall>snap. r = Some snap \<longrightarrow> task g2 = Returned snap" by blast
    moreover have "poll_ready tu g = poll_ready tu g1"
      using False g1 by (subst poll_ready.simps) (auto split: gate_task.split)
    ultimately show ?thesis using react_now [OF ok w] by auto
  qed
qed

lemma step_future_returns:
  assumes "future_ok tu s"
  shows "\<exists>r s'. step_future tu s = Some (r, s') \<and> future_ok tu s' \<and> future_clock s' = future_clock s \<and>
    (\<forall>v. r = Some v \<longrightarrow> step_over v s')"
proof -
  obtain c g where s: "s = (c, g)" by fastforce
  have r: "reachable tu g" using assms s by (simp add: future_ok_def)
  define g1 where "g1 = (if c then g else the (gate_react tu CallStep g))"
  have call: "c \<or> gate_react tu CallStep g = Some g1"
    using assms s by (auto simp: g1_def future_ok_def gate_react_def split: option.split)
  have g1: "reachable tu g1" "now (dev g1) = now (dev g)"
    using call r react_reachable react_now [OF reachable_ok [OF r]] by (auto simp: g1_def)
  from poll_ready_returns [OF g1(1)] obtain q g2 where g2: "poll_ready tu g1 = Some (q, g2)" "reachable tu g2"
      "now (dev g2) = now (dev g1)" "\<forall>snap. q = Some snap \<longrightarrow> task g2 = Returned snap" by blast
  have "step_future tu s = Some (q, True, g2)" using call g2(1)
    by (cases c) (simp_all add: step_future_def s, simp add: g1_def)
  with g1 g2 show ?thesis by (auto simp: future_ok_def future_clock_def step_over_def s)
qed

sublocale time_units \<subseteq> harness: simulation tu "step_future tu" future_clock future_advance "future_ok tu" step_over
proof (unfold_locales, goal_cases)
  case (1 s)
  then show ?case by (rule step_future_returns)
next
  case (3 s t)
  then show ?case
    using gate_step.elapse reach_step [of "boot tu" "gate_step tu" "snd s"]
    by (auto simp: future_ok_def future_advance_def)
qed (simp add: future_clock_def future_advance_def)

context time_units
begin

lemmas harness_returns = harness.run_for_returns
lemmas harness_step_pos = harness.step_pos

end

section \<open>Properties\<close>

text \<open>
  C30. The harness always ends: from every reachable state at which \<open>step\<close> may be
  called, \<open>run_for\<close> returns within one clock step after its time limit, with the
  snapshot of a finished step or with the limit used up, and the state it leaves
  is a reachable state of the gate.
\<close>

theorem run_for_terminates:
  assumes "time_units tu" "reachable tu g" "task g = Returned snap"
  shows "\<exists>r c g'. run_for tu (step_future tu) future_clock future_advance duration (False, g) = Some (r, c, g') \<and>
    reachable tu g' \<and> now (dev g') < now (dev g) + duration + STEP tu \<and>
    (case r of Some s \<Rightarrow> task g' = Returned s | None \<Rightarrow> now (dev g) + duration \<le> now (dev g'))"
proof -
  have "future_ok tu (False, g)" using assms(2,3) by (simp add: future_ok_def)
  from time_units.harness_returns [OF assms(1) this, of duration] obtain r c g' where
    "run_for tu (step_future tu) future_clock future_advance duration (False, g) = Some (r, c, g')"
    "future_ok tu (c, g')" "case r of Some v \<Rightarrow> step_over v (c, g') | None \<Rightarrow> future_clock (False, g) + duration \<le> future_clock (c, g')"
    "future_clock (c, g') < future_clock (False, g) + duration + STEP tu" by auto
  then show ?thesis by (cases r) (auto simp: future_ok_def future_clock_def step_over_def)
qed

theorem run_for_terminates_witness:
  "\<exists>r c g'. run_for mhz_clock (step_future mhz_clock) future_clock future_advance 20000000
     (False, firmware_gate mhz_clock 0 0 True) = Some (r, c, g') \<and> reachable mhz_clock g'"
proof -
  have "\<exists>snap. task (firmware_gate mhz_clock 0 0 True) = Returned snap" by (simp add: run_defs)
  then show ?thesis
    using run_for_terminates [OF mhz.time_units_axioms firmware_reachable] by blast
qed

end
