(* ===== verification/UnitTests.thy ===== *)
theory UnitTests
  imports Debounce Sim
begin

text \<open>
  The unit tests inside \<open>gate-core/src/motor.rs\<close> and \<open>gate-core/src/debounce.rs\<close>,
  translated one by one to executable checks on the definitions of \<open>Motor\<close>,
  \<open>Debounce\<close> and \<open>Sim\<close>. Each \<open>assert\<close> is a conjunct. The theorems evaluate them in
  the kernel: the model behaves on these inputs as the code is tested to behave.
  The time driver is the 1 MHz one, as in the host tests.
\<close>

abbreviation secs :: "nat \<Rightarrow> ticks" where "secs \<equiv> from_secs mhz_clock"
abbreviation millis :: "nat \<Rightarrow> ticks" where "millis \<equiv> from_millis mhz_clock"

section \<open>The leaf motor\<close>

definition TIMING :: leaf_timing where
  "TIMING = \<lparr>open_initial_delay = secs 0, open_duration = secs 10, close_initial_delay = secs 0, close_duration = secs 20\<rparr>"

text \<open>The helper \<open>motor\<close> of the tests: the log and a motor on it.\<close>

definition test_motor :: "hw \<Rightarrow> u8 \<Rightarrow> hw \<times> motor" where
  "test_motor log pos = motor_new mhz_clock log ''open'' ''close'' TIMING (secs 1) (millis 500) pos"

definition advance :: "ticks \<Rightarrow> hw \<times> motor \<Rightarrow> hw \<times> motor" where
  "advance d x = (clock_advance d (fst x), snd x)"

definition start :: "direction \<Rightarrow> hw \<times> motor \<Rightarrow> hw \<times> motor" where
  "start d x = motor_start mhz_clock d (fst x) (snd x)"

definition stop :: "hw \<times> motor \<Rightarrow> hw \<times> motor" where
  "stop x = motor_stop mhz_clock (fst x) (snd x)"

definition run_time_at :: "u8 \<Rightarrow> direction \<Rightarrow> ticks option" where
  "run_time_at pos d = run_time mhz_clock (snd (test_motor hw_reset pos)) d"

definition full_run_includes_overrun_from_both_end_positions :: bool where
  "full_run_includes_overrun_from_both_end_positions \<longleftrightarrow>
     run_time_at 0 Opening = Some (secs 11) \<and> run_time_at 255 Closing = Some (secs 21)"

definition already_at_end_does_not_move :: bool where
  "already_at_end_does_not_move \<longleftrightarrow> run_time_at 255 Opening = None \<and> run_time_at 0 Closing = None"

definition partial_run_uses_remaining_fraction_of_direction_specific_duration :: bool where
  "partial_run_uses_remaining_fraction_of_direction_specific_duration \<longleftrightarrow>
     run_time_at 51 Opening = Some (millis 9000) \<and> run_time_at 51 Closing = Some (millis 5000)"

definition position_tracks_elapsed_time_per_direction :: bool where
  "position_tracks_elapsed_time_per_direction \<longleftrightarrow>
     (let x = test_motor hw_reset 0;
          x = stop (advance (secs 5) (start Opening x));
          y = stop (advance (secs 5) (start Closing x))
      in position (snd x) = 127 \<and> position (snd y) = 64)"

definition position_saturates_at_the_ends :: bool where
  "position_saturates_at_the_ends \<longleftrightarrow>
     (let x = test_motor hw_reset 200; x = stop (advance (secs 30) (start Opening x)) in position (snd x) = 255)"

definition relays_are_exclusive_and_released_on_stop :: bool where
  "relays_are_exclusive_and_released_on_stop \<longleftrightarrow>
     (let x = test_motor hw_reset 100;
          x = start Opening x; y = start Closing x; z = stop y
      in (is_high ''open'' (fst x) \<and> \<not> is_high ''close'' (fst x)) \<and>
         (\<not> is_high ''open'' (fst y) \<and> is_high ''close'' (fst y)) \<and>
         (\<not> is_high ''open'' (fst z) \<and> \<not> is_high ''close'' (fst z)))"

definition reverse_pause_starts_when_the_motor_stops :: bool where
  "reverse_pause_starts_when_the_motor_stops \<longleftrightarrow>
     (let x = test_motor hw_reset 100; y = stop (advance (secs 2) (start Opening x))
      in ready_at (snd x) = 0 \<and> ready_at (snd y) = now (fst y) + millis 500)"

section \<open>The debouncer\<close>

text \<open>\<open>presses\<close>: the indices of the samples at which a press is reported; blanks are ignored.\<close>

definition presses :: "string \<Rightarrow> nat list" where
  "presses samples =
     (let levels = map (\<lambda>ch. ch = CHR ''#'') (filter (\<lambda>ch. ch \<noteq> CHR '' '') samples) in
      map fst (filter snd (enumerate 0 (fires (Debouncer_new 5) levels))))"

definition clean_press_fires_once_after_five_samples :: bool where
  "clean_press_fires_once_after_five_samples \<longleftrightarrow> presses ''..... ########## .....'' = [9]"

definition holding_does_not_repeat :: bool where
  "holding_does_not_repeat \<longleftrightarrow> presses (replicate 1000 (CHR ''#'')) = [4]"

definition spikes_shorter_than_five_samples_are_ignored :: bool where
  "spikes_shorter_than_five_samples_are_ignored \<longleftrightarrow> presses ''..#.. .##.. ..###. ####. .....'' = []"

definition bounce_on_press_and_release_counts_once :: bool where
  "bounce_on_press_and_release_counts_once \<longleftrightarrow>
     presses ''#.#.##.##### ###### .#..#.#....... ##### .....'' = [11, 36]"

definition a_new_press_needs_a_stable_release_first :: bool where
  "a_new_press_needs_a_stable_release_first \<longleftrightarrow> presses ''##### .... ##### ..... #####'' = [4, 23]"

section \<open>The tests pass\<close>

lemmas test_motor_defs = run_time_at_def test_motor_def advance_def start_def stop_def motor_new_def TIMING_def
  motor_start_def motor_stop_def motor_settle_def run_time_def remaining_def full_duration_def travelled_def
  hw_reset_def clock_advance_def pin_set_def mhz_clock_def mul_u64_def saturating_add_def saturating_sub_def
  ready_at_def is_high_def Let_def

text \<open>A run of an idle motor, and the levels after a start.\<close>

lemma run_of_idle:
  assumes "state m = Idle"
  shows "\<exists>h'. stop (advance d (start dir (h, m))) = (h', m\<lparr>state := Idle, stopped_at := Some (now h + d),
      position := (case dir of Opening \<Rightarrow> saturating_add (position m) (travelled mhz_clock m dir d)
                             | Closing \<Rightarrow> saturating_sub (position m) (travelled mhz_clock m dir d))\<rparr>)
    \<and> now h' = now h + d"
  using assms
  by (cases dir) (simp_all add: start_def stop_def advance_def motor_start_def motor_stop_def motor_settle_def
      travelled_def full_duration_def Let_def)

lemma start_levels:
  assumes "open_pin m = ''open''" "close_pin m = ''close''" "start dir (h, m) = (h', m')"
  shows "is_high ''open'' h' = (dir = Opening)" "is_high ''close'' h' = (dir = Closing)"
    "open_pin m' = ''open''" "close_pin m' = ''close''" "state m' = Running dir (now h')"
  using assms
  by (cases dir; cases "state m"; auto simp: start_def motor_start_def motor_settle_def is_high_def Let_def)+

lemma stop_levels:
  assumes "open_pin m = ''open''" "close_pin m = ''close''" "state m = Running dir t"
  shows "\<not> is_high ''open'' (fst (stop (h, m)))" "\<not> is_high ''close'' (fst (stop (h, m)))"
  using assms by (simp_all add: stop_def motor_stop_def motor_settle_def is_high_def Let_def)

lemma test_motor_facts:
  "open_pin (snd (test_motor h pos)) = ''open''" "close_pin (snd (test_motor h pos)) = ''close''"
  "state (snd (test_motor h pos)) = Idle" "position (snd (test_motor h pos)) = pos" "timing (snd (test_motor h pos)) = TIMING"
  by (simp_all add: test_motor_def motor_new_def Let_def)

lemma position_test: position_tracks_elapsed_time_per_direction
proof -
  define h m where "h = fst (test_motor hw_reset 0)" and "m = snd (test_motor hw_reset 0)"
  note f = test_motor_facts [of hw_reset 0, folded m_def]
  have x: "test_motor hw_reset 0 = (h, m)" by (simp add: h_def m_def)
  obtain h1 where 1: "stop (advance (secs 5) (start Opening (h, m))) = (h1, m\<lparr>state := Idle, stopped_at := Some (now h + secs 5),
      position := saturating_add (position m) (travelled mhz_clock m Opening (secs 5))\<rparr>)"
    using run_of_idle [OF f(3), of "secs 5" Opening h] by auto
  have "travelled mhz_clock m Opening (secs 5) = 127"
    using f(5) by (simp add: travelled_def full_duration_def TIMING_def mhz_clock_def mul_u64_def)
  then have p1: "saturating_add (position m) (travelled mhz_clock m Opening (secs 5)) = 127"
    using f(4) by (simp add: saturating_add_def)
  define m1 where "m1 = m\<lparr>state := Idle, stopped_at := Some (now h + secs 5), position := 127\<rparr>"
  have 1: "stop (advance (secs 5) (start Opening (h, m))) = (h1, m1)" using 1 p1 by (simp add: m1_def)
  have f1: "state m1 = Idle" "position m1 = 127" "timing m1 = TIMING" using f by (simp_all add: m1_def)
  have "travelled mhz_clock m1 Closing (secs 5) = 63"
    using f1(3) by (simp add: travelled_def full_duration_def TIMING_def mhz_clock_def mul_u64_def)
  then have "position (snd (stop (advance (secs 5) (start Closing (h1, m1))))) = 64"
    using run_of_idle [OF f1(1), of "secs 5" Closing h1] f1(2) by (auto simp: saturating_sub_def)
  then show ?thesis using f1(2) 1 by (simp add: position_tracks_elapsed_time_per_direction_def x Let_def)
qed

lemma relay_test: relays_are_exclusive_and_released_on_stop
proof -
  define h m where "h = fst (test_motor hw_reset 100)" and "m = snd (test_motor hw_reset 100)"
  note f = test_motor_facts [of hw_reset 100, folded m_def]
  have x: "test_motor hw_reset 100 = (h, m)" by (simp add: h_def m_def)
  obtain h1 m1 where 1: "start Opening (h, m) = (h1, m1)" by force
  obtain h2 m2 where 2: "start Closing (h1, m1) = (h2, m2)" by force
  note l1 = start_levels [OF f(1,2) 1] and l2 = start_levels [OF start_levels(3,4) [OF f(1,2) 1] 2]
  show ?thesis
    using l1 l2 stop_levels [OF l2(3-5), of h2]
    by (simp add: relays_are_exclusive_and_released_on_stop_def x 1 2 Let_def)
qed

text \<open>
  The model passes the unit tests of the leaf motor: run times with the
  overrun from both ends and from in between, the position estimate per
  direction and its saturation, exclusive relays, and the start of the reverse
  pause, with the numbers of the source.
\<close>

theorem motor_tests_pass:
  "full_run_includes_overrun_from_both_end_positions \<and> already_at_end_does_not_move \<and>
   partial_run_uses_remaining_fraction_of_direction_specific_duration \<and> position_tracks_elapsed_time_per_direction \<and>
   position_saturates_at_the_ends \<and> relays_are_exclusive_and_released_on_stop \<and>
   reverse_pause_starts_when_the_motor_stops"
proof (intro conjI)
  show full_run_includes_overrun_from_both_end_positions
    by (simp cong: eval_cong add: test_motor_defs full_run_includes_overrun_from_both_end_positions_def)
  show already_at_end_does_not_move by (simp cong: eval_cong add: test_motor_defs already_at_end_does_not_move_def)
  show partial_run_uses_remaining_fraction_of_direction_specific_duration
    by (simp cong: eval_cong add: test_motor_defs partial_run_uses_remaining_fraction_of_direction_specific_duration_def)
  show position_saturates_at_the_ends by (simp cong: eval_cong add: test_motor_defs position_saturates_at_the_ends_def)
  show reverse_pause_starts_when_the_motor_stops
    by (simp cong: eval_cong add: test_motor_defs reverse_pause_starts_when_the_motor_stops_def)
qed (rule position_test relay_test)+

text \<open>
  The model passes the unit tests of the debouncer: a clean press, a held one,
  spikes, bouncing contacts and a release that is too short.
\<close>

theorem debounce_tests_pass:
  "clean_press_fires_once_after_five_samples \<and> holding_does_not_repeat \<and>
   spikes_shorter_than_five_samples_are_ignored \<and> bounce_on_press_and_release_counts_once \<and>
   a_new_press_needs_a_stable_release_first"
proof (intro conjI)
  have "fires (Debouncer_new 5) (replicate (Suc 4 + 995) True) = replicate 4 False @ True # replicate 995 False"
    by (rule armed_hold [OF new_ok]) (simp_all add: Debouncer_new_def threshold_def)
  moreover have "map fst (filter snd (enumerate n (replicate k False))) = []" for n k
    by (induction k arbitrary: n) simp_all
  ultimately show holding_does_not_repeat
    by (simp add: holding_does_not_repeat_def presses_def enumerate_append_eq)
  show clean_press_fires_once_after_five_samples
    by (simp add: presses_def Debouncer_new_def sample_def clean_press_fires_once_after_five_samples_def)
  show spikes_shorter_than_five_samples_are_ignored
    by (simp add: presses_def Debouncer_new_def sample_def spikes_shorter_than_five_samples_are_ignored_def)
  show bounce_on_press_and_release_counts_once
    by (simp add: presses_def Debouncer_new_def sample_def bounce_on_press_and_release_counts_once_def)
  show a_new_press_needs_a_stable_release_first
    by (simp add: presses_def Debouncer_new_def sample_def a_new_press_needs_a_stable_release_first_def)
qed

end
