(* ===== verification/GateTests.thy ===== *)
theory GateTests
  imports UnitTests
begin

text \<open>
  The scenarios of \<open>gate-core/src/gate/tests.rs\<close>, run on the model. The harness
  moves its clock a millisecond at a time; \<open>forward\<close> jumps to the next deadline
  instead, and is shown to give the same result, so that the kernel can evaluate
  whole movements. A scenario is a list of the statements of the test.
\<close>

section \<open>Jumping to the next deadline\<close>

definition elapse_gate :: "ticks \<Rightarrow> gate \<Rightarrow> gate" where
  "elapse_gate t g = g\<lparr>dev := clock_advance t (dev g)\<rparr>"

text \<open>The first instant of interest: the deadline of the task or the end of the run.\<close>

definition wait_end :: "ticks \<Rightarrow> gate \<Rightarrow> ticks" where
  "wait_end e g = (case task g of Driving l at \<Rightarrow> min at e | _ \<Rightarrow> e)"

definition rounds :: "time_ops \<Rightarrow> ticks \<Rightarrow> nat" where
  "rounds tu d = (d + STEP tu - 1) div STEP tu"

fun forward :: "time_ops \<Rightarrow> nat \<Rightarrow> ticks \<Rightarrow> gate \<Rightarrow> snapshot option \<times> gate" where
  "forward tu 0 e g = (None, g)"
| "forward tu (Suc n) e g =
     (if (case task g of Returned s \<Rightarrow> True | _ \<Rightarrow> False)
      then (case task g of Returned s \<Rightarrow> (Some s, g) | _ \<Rightarrow> (None, g))
      else (case poll_gate tu g of
              Some g' \<Rightarrow> forward tu n e g'
            | None \<Rightarrow>
                if e \<le> now (dev g) then (None, g)
                else forward tu n e (elapse_gate (rounds tu (wait_end e g - now (dev g)) * STEP tu) g)))"

abbreviation harness_loop :: "time_ops \<Rightarrow> ticks \<Rightarrow> bool \<times> gate \<Rightarrow> (snapshot option \<times> bool \<times> gate) option" where
  "harness_loop tu \<equiv> run_loop tu (step_future tu) future_clock future_advance"

lemma future_advance_elapse: "future_advance t (c, g) = (c, elapse_gate t g)"
  by (simp add: future_advance_def elapse_gate_def)

lemma elapse_gate_simps [simp]:
  "task (elapse_gate t g) = task g" "controls (elapse_gate t g) = controls g" "now (dev (elapse_gate t g)) = now (dev g) + t"
  "work (elapse_gate t g) = work g" "elapse_gate 0 g = g" "elapse_gate u (elapse_gate t g) = elapse_gate (t + u) g"
  by (simp_all add: elapse_gate_def clock_advance_def add.assoc)

lemma elapse_reachable: "reachable tu g \<Longrightarrow> reachable tu (elapse_gate t g)"
  unfolding elapse_gate_def by (metis gate_step.elapse reach_step)

lemma poll_reachable: "poll_gate tu g = Some g' \<Longrightarrow> reachable tu g \<Longrightarrow> reachable tu g'"
  using poll_gate_reacts react_reachable by blast

lemma poll_work: "poll_gate tu g = Some g' \<Longrightarrow> reachable tu g \<Longrightarrow> work g' < work g"
  using poll_gate_reacts react_work reachable_ok by blast

text \<open>A gate that has nothing to do stays so until its deadline.\<close>

lemma poll_gate_None:
  assumes "\<nexists>snap. task g = Returned snap"
  shows "poll_gate tu g = None \<longleftrightarrow> command (controls g) = None \<and> wind_lock_reset (controls g) = None \<and>
    (\<forall>l at. task g = Driving l at \<longrightarrow> now (dev g) < at \<and> barrier_changed (controls g) = None)"
  using assms
  by (cases "task g") (auto simp: poll_gate_def gate_react_def signal_take_def Let_def not_le split: option.splits)

lemma poll_stays_None:
  assumes "\<nexists>snap. task g = Returned snap" "poll_gate tu g = None" "now (dev g) + t < wait_end e g"
  shows "poll_gate tu (elapse_gate t g) = None"
  using assms by (auto simp: poll_gate_None wait_end_def split: gate_task.splits)

lemma loop_finished: "task g = Returned s \<Longrightarrow> harness_loop tu e (True, g) = Some (Some s, True, g)"
  by (subst run_loop.simps) (simp add: step_future_def poll_ready.simps)

lemma loop_reacts:
  assumes "\<nexists>snap. task g = Returned snap" "poll_gate tu g = Some g'"
  shows "harness_loop tu e (True, g) = harness_loop tu e (True, g')"
proof -
  have "poll_ready tu g = poll_ready tu g'"
    using assms by (subst poll_ready.simps) (auto split: gate_task.split)
  then have "step_future tu (True, g) = step_future tu (True, g')" by (simp add: step_future_def)
  then show ?thesis by (subst (1 2) run_loop.simps) simp
qed

lemma loop_waits:
  assumes "\<nexists>snap. task g = Returned snap" "poll_gate tu g = None"
  shows "harness_loop tu e (True, g) =
    (if e \<le> now (dev g) then Some (None, True, g) else harness_loop tu e (True, elapse_gate (STEP tu) g))"
proof -
  have "poll_ready tu g = Some (None, g)"
    using assms by (subst poll_ready.simps) (auto split: gate_task.split)
  then show ?thesis
    by (subst run_loop.simps) (simp add: step_future_def future_clock_def future_advance_elapse)
qed

lemma loop_called:
  "gate_react tu CallStep g = Some g' \<Longrightarrow> harness_loop tu e (False, g) = harness_loop tu e (True, g')"
  by (subst (1 2) run_loop.simps) (simp add: step_future_def)

text \<open>Rounds before the first instant of interest do nothing.\<close>

lemma loop_skips:
  assumes "\<nexists>snap. task g = Returned snap" "poll_gate tu g = None"
    and "k = 0 \<or> now (dev g) + (k - 1) * STEP tu < wait_end e g"
  shows "harness_loop tu e (True, g) = harness_loop tu e (True, elapse_gate (k * STEP tu) g)"
  using assms(3)
proof (induction k)
  case (Suc k)
  have b: "now (dev g) + k * STEP tu < wait_end e g" using Suc.prems by simp
  then have "k = 0 \<or> now (dev g) + (k - 1) * STEP tu < wait_end e g" by (cases k) auto
  note IH = Suc.IH [OF this]
  let ?h = "elapse_gate (k * STEP tu) g"
  have "wait_end e g \<le> e" by (simp add: wait_end_def split: gate_task.split)
  with b have "\<not> e \<le> now (dev ?h)" by simp
  moreover have "poll_gate tu ?h = None" by (rule poll_stays_None [OF assms(1,2) b])
  ultimately have "harness_loop tu e (True, ?h) = harness_loop tu e (True, elapse_gate (STEP tu) ?h)"
    using loop_waits [of ?h tu e] assms(1) by simp
  with IH show ?case by (simp add: add.commute)
qed simp

lemma rounds_reach:
  assumes "0 < STEP tu" "0 < d"
  shows "d \<le> rounds tu d * STEP tu" "(rounds tu d - 1) * STEP tu < d"
proof -
  define r where "r = (d + STEP tu - 1) div STEP tu"
  have m: "r * STEP tu \<le> d + STEP tu - 1" "d + STEP tu - 1 < (r + 1) * STEP tu"
    using assms(1) unfolding r_def by (simp, metis add.commute dividend_less_div_times mult.commute mult_Suc_right plus_1_eq_Suc)
  have "(r + 1) * STEP tu = r * STEP tu + STEP tu" by simp
  with m(2) assms have "d \<le> r * STEP tu" by simp
  then show "d \<le> rounds tu d * STEP tu" by (simp only: rounds_def r_def)
  have "(r - 1) * STEP tu = r * STEP tu - STEP tu" by (simp add: diff_mult_distrib)
  with m(1) assms have "(r - 1) * STEP tu < d" by simp
  then show "(rounds tu d - 1) * STEP tu < d" by (simp only: rounds_def r_def)
qed

text \<open>
  The jumps give what the harness gives. Every poll reduces the outstanding work,
  and after a jump a poll is due or the run is over, which bounds the fuel.
\<close>

definition effort :: "time_ops \<Rightarrow> ticks \<Rightarrow> gate \<Rightarrow> nat" where
  "effort tu e g = 2 * work g + (if poll_gate tu g = None \<and> now (dev g) < e then 2 else 1)"

lemma forward_is_loop:
  assumes "time_units tu"
  shows "reachable tu g \<Longrightarrow> effort tu e g \<le> n \<Longrightarrow>
    harness_loop tu e (True, g) = Some (map_prod id (Pair True) (forward tu n e g))"
proof (induction n arbitrary: g)
  case 0
  then show ?case by (simp add: effort_def split: if_splits)
next
  case (Suc n)
  consider s where "task g = Returned s"
    | g' where "\<nexists>s. task g = Returned s" "poll_gate tu g = Some g'"
    | "\<nexists>s. task g = Returned s" "poll_gate tu g = None" "e \<le> now (dev g)"
    | "\<nexists>s. task g = Returned s" "poll_gate tu g = None" "now (dev g) < e"
    by (cases "poll_gate tu g") (auto simp: not_le [symmetric])
  then show ?case
  proof cases
    case (1 s)
    then show ?thesis by (simp add: loop_finished)
  next
    case (2 g')
    have "effort tu e g' \<le> 2 * work g' + 2" by (simp add: effort_def)
    then have "effort tu e g' \<le> n"
      using poll_work [OF 2(2) Suc.prems(1)] Suc.prems(2) by (simp add: effort_def 2(2))
    from Suc.IH [OF poll_reachable [OF 2(2) Suc.prems(1)] this] show ?thesis
      using loop_reacts [OF 2] 2 by (auto split: gate_task.split)
  next
    case 3
    then show ?thesis using loop_waits [OF 3(1,2)] by (auto split: gate_task.split)
  next
    case 4
    define d where "d = wait_end e g - now (dev g)"
    define h where "h = elapse_gate (rounds tu d * STEP tu) g"
    have "now (dev g) < wait_end e g"
      using 4 poll_gate_None [OF 4(1)] by (auto simp: wait_end_def split: gate_task.split)
    then have d: "0 < d" "wait_end e g = now (dev g) + d" by (simp_all add: d_def)
    note r = rounds_reach [OF time_units.harness_step_pos [OF assms] d(1)]
    have l: "harness_loop tu e (True, g) = harness_loop tu e (True, h)"
      unfolding h_def by (rule loop_skips [OF 4(1,2)]) (use r(2) d(2) in simp)
    have "poll_gate tu h \<noteq> None \<or> e \<le> now (dev h)"
      using r(1) d(2) poll_gate_None [of h tu] 4(1) by (auto simp: h_def wait_end_def min_def split: gate_task.splits if_splits)
    then have "effort tu e h \<le> n" using Suc.prems(2) 4(2,3) by (auto simp: effort_def h_def)
    from Suc.IH [OF _ this] elapse_reachable [OF Suc.prems(1)] show ?thesis
      using l 4 by (auto simp: h_def d_def split: gate_task.split)
  qed
qed

text \<open>The outstanding work is at most thirty, so sixty-two rounds are always enough.\<close>

definition finish :: "time_ops \<Rightarrow> ticks \<Rightarrow> bool \<times> gate \<Rightarrow> snapshot option \<times> bool \<times> gate" where
  "finish tu d s = (let g = (if fst s then snd s else the (gate_react tu CallStep (snd s))) in
     map_prod id (Pair True) (forward tu 62 (now (dev (snd s)) + d) g))"

lemma run_for_finish:
  assumes "time_units tu" "future_ok tu s"
  shows "run_for tu (step_future tu) future_clock future_advance d s = Some (finish tu d s)"
proof -
  obtain c g where s: "s = (c, g)" by fastforce
  have r: "reachable tu g" using assms(2) by (simp add: future_ok_def s)
  have e: "effort tu e k \<le> 62" for e k using work_bound [of k] by (simp add: effort_def)
  show ?thesis
  proof (cases c)
    case True
    then show ?thesis
      using forward_is_loop [OF assms(1) r e] by (simp add: run_for_def s future_clock_def finish_def)
  next
    case False
    then obtain g1 where g1: "gate_react tu CallStep g = Some g1"
      using assms(2) by (cases "pending g") (auto simp: future_ok_def s gate_react_def)
    show ?thesis
      using forward_is_loop [OF assms(1) react_reachable [OF r g1] e] loop_called [OF g1] False g1
      by (simp add: run_for_def s future_clock_def finish_def)
  qed
qed

section \<open>Scenarios\<close>

text \<open>
  The statements of a test: a call of a method of \<open>controls\<close>, a new future of
  \<open>gate.step()\<close>, \<open>run_for\<close> with the assertion that the step is not over,
  \<open>run_until_ready\<close>, which panics when it is not, with what is asserted of the
  snapshot, \<open>log.take()\<close>, and an assertion on the state. A step that is dropped
  while it waits for a command and called again waits for a command.
\<close>

datatype test_op =
    Call control_op
  | NewStep
  | RunFor ticks
  | UntilReady ticks "snapshot \<Rightarrow> bool"
  | TakeLog "switch list \<Rightarrow> bool"
  | Check "gate \<Rightarrow> bool"

definition new_step :: "bool \<times> gate \<Rightarrow> bool \<times> gate" where
  "new_step s = ((case task (snd s) of Returned _ \<Rightarrow> False | _ \<Rightarrow> True), snd s)"

definition call_controls :: "control_op \<Rightarrow> bool \<times> gate \<Rightarrow> bool \<times> gate" where
  "call_controls x s = (fst s, (snd s)\<lparr>controls := control_exec x (controls (snd s))\<rparr>)"

text \<open>The log is not cleared by \<open>take\<close> but counted: the last argument is what was taken.\<close>

fun run_test :: "(ticks \<Rightarrow> bool \<times> gate \<Rightarrow> (snapshot option \<times> bool \<times> gate) option) \<Rightarrow>
    test_op list \<Rightarrow> bool \<times> gate \<Rightarrow> nat \<Rightarrow> bool" where
  "run_test run [] s k = True"
| "run_test run (Call x # xs) s k = run_test run xs (call_controls x s) k"
| "run_test run (NewStep # xs) s k = run_test run xs (new_step s) k"
| "run_test run (RunFor d # xs) s k =
     (case run d s of Some (None, s') \<Rightarrow> run_test run xs s' k | _ \<Rightarrow> False)"
| "run_test run (UntilReady d P # xs) s k =
     (case run d s of Some (Some snap, s') \<Rightarrow> P snap \<and> run_test run xs s' k | _ \<Rightarrow> False)"
| "run_test run (TakeLog P # xs) s k =
     (P (drop k (switches (dev (snd s)))) \<and> run_test run xs s (length (switches (dev (snd s)))))"
| "run_test run (Check P # xs) s k = (P (snd s) \<and> run_test run xs s k)"

abbreviation harness :: "ticks \<Rightarrow> bool \<times> gate \<Rightarrow> (snapshot option \<times> bool \<times> gate) option" where
  "harness \<equiv> run_for mhz_clock (step_future mhz_clock) future_clock future_advance"

definition A_OPEN :: pin_name where "A_OPEN = ''A_open''"
definition A_CLOSE :: pin_name where "A_CLOSE = ''A_close''"
definition B_OPEN :: pin_name where "B_OPEN = ''B_open''"
definition B_CLOSE :: pin_name where "B_CLOSE = ''B_close''"

lemma test_pins_distinct [simp]:
  "A_OPEN \<noteq> A_CLOSE" "A_OPEN \<noteq> B_OPEN" "A_OPEN \<noteq> B_CLOSE" "A_CLOSE \<noteq> A_OPEN" "A_CLOSE \<noteq> B_OPEN"
  "A_CLOSE \<noteq> B_CLOSE" "B_OPEN \<noteq> A_OPEN" "B_OPEN \<noteq> A_CLOSE" "B_OPEN \<noteq> B_CLOSE" "B_CLOSE \<noteq> A_OPEN"
  "B_CLOSE \<noteq> A_CLOSE" "B_CLOSE \<noteq> B_OPEN"
  by (simp_all add: A_OPEN_def A_CLOSE_def B_OPEN_def B_CLOSE_def)

text \<open>The helper \<open>gate\<close> of the tests.\<close>

definition TEST_LEAF_A :: leaf_timing where
  "TEST_LEAF_A = \<lparr>open_initial_delay = secs 0, open_duration = secs 15, close_initial_delay = secs 3, close_duration = secs 15\<rparr>"

definition TEST_LEAF_B :: leaf_timing where
  "TEST_LEAF_B = \<lparr>open_initial_delay = secs 3, open_duration = secs 15, close_initial_delay = secs 0, close_duration = secs 15\<rparr>"

definition test_gate :: "u8 \<Rightarrow> u8 \<Rightarrow> bool \<Rightarrow> gate" where
  "test_gate a b locked =
     (case motor_new mhz_clock hw_reset A_OPEN A_CLOSE TEST_LEAF_A (secs 1) (secs 1) a of
        (h, ma) \<Rightarrow> (case motor_new mhz_clock h B_OPEN B_CLOSE TEST_LEAF_B (secs 1) (secs 1) b of
          (h, mb) \<Rightarrow> Gate_new Controls_new ma mb locked h))"

definition test :: "u8 \<Rightarrow> u8 \<Rightarrow> bool \<Rightarrow> test_op list \<Rightarrow> bool" where
  "test a b locked xs = run_test harness xs (True, test_gate a b locked) 0"

text \<open>Every scenario can be run with jumps.\<close>

lemma test_gate_boot: "boot mhz_clock (test_gate a b locked)"
  unfolding boot_def test_gate_def
  by (rule exI [of _ "A_OPEN"], rule exI [of _ "A_CLOSE"], rule exI [of _ "B_OPEN"],
      rule exI [of _ "B_CLOSE"], rule exI [of _ TEST_LEAF_A], rule exI [of _ TEST_LEAF_B],
      rule exI [of _ "secs 1"], rule exI [of _ "secs 1"], rule exI [of _ "secs 1"], rule exI [of _ "secs 1"],
      rule exI [of _ a], rule exI [of _ b], rule exI [of _ Controls_new], rule exI [of _ locked])
    (auto simp: Controls_new_ok signal_new_def Controls_new_def[THEN arg_cong[where f = command]] split: prod.splits)

lemma call_controls_ok: "future_ok tu s \<Longrightarrow> future_ok tu (call_controls x s)"
  by (auto simp: future_ok_def call_controls_def intro: reach_step gate_step.input)

lemma new_step_ok: "future_ok tu s \<Longrightarrow> future_ok tu (new_step s)"
  by (auto simp: future_ok_def new_step_def split: gate_task.splits)

lemma finish_ok:
  assumes "time_units tu" "future_ok tu s" "finish tu d s = (r, s')"
  shows "future_ok tu s'"
  using time_units.harness_returns [OF assms(1,2), of d] run_for_finish [OF assms(1,2), of d] assms(3) by auto

lemma run_test_finish: "future_ok mhz_clock s \<Longrightarrow>
  run_test harness xs s k = run_test (\<lambda>d s. Some (finish mhz_clock d s)) xs s k"
proof (induction xs arbitrary: s k)
  case (Cons x xs)
  note r = run_for_finish [OF mhz.time_units_axioms Cons.prems] and f = finish_ok [OF mhz.time_units_axioms Cons.prems]
  show ?case
    by (cases x) (auto simp: r Cons.IH Cons.prems call_controls_ok new_step_ok dest: f split: prod.split option.split intro!: Cons.IH)
qed simp

lemma test_finish:
  "test a b locked xs = run_test (\<lambda>d s. Some (finish mhz_clock d s)) xs (True, test_gate a b locked) 0"
  unfolding test_def
  by (rule run_test_finish) (auto simp: future_ok_def intro: reach_init test_gate_boot)

lemma forward_numeral:
  "forward tu (numeral n) e g =
     (if (case task g of Returned s \<Rightarrow> True | _ \<Rightarrow> False)
      then (case task g of Returned s \<Rightarrow> (Some s, g) | _ \<Rightarrow> (None, g))
      else (case poll_gate tu g of
              Some g' \<Rightarrow> forward tu (pred_numeral n) e g'
            | None \<Rightarrow>
                if e \<le> now (dev g) then (None, g)
                else forward tu (pred_numeral n) e (elapse_gate (rounds tu (wait_end e g - now (dev g)) * STEP tu) g)))"
  by (simp add: numeral_eq_Suc)

definition shot :: "u8 \<Rightarrow> u8 \<Rightarrow> bool \<Rightarrow> snapshot \<Rightarrow> bool" where
  "shot a b locked s \<longleftrightarrow> s = \<lparr>leaf_a_position = a, leaf_b_position = b, snap_wind_locked = locked\<rparr>"

abbreviation LIMIT :: ticks where "LIMIT \<equiv> secs 60"
abbreviation IMMEDIATELY :: ticks where "IMMEDIATELY \<equiv> 0"
abbreviation OPEN :: u8 where "OPEN \<equiv> 255"
abbreviation CLOSED :: u8 where "CLOSED \<equiv> 0"

definition any_high :: "gate \<Rightarrow> bool" where
  "any_high g = list_ex (\<lambda>p. is_high p (dev g)) [A_OPEN, A_CLOSE, B_OPEN, B_CLOSE]"

section \<open>The tests\<close>

definition opening_starts_leaf_a_first_then_b_after_its_initial_delay :: bool where
  "opening_starts_leaf_a_first_then_b_after_its_initial_delay \<longleftrightarrow> test CLOSED CLOSED False
     [Call DoOpen, NewStep, UntilReady LIMIT (shot OPEN OPEN False),
      TakeLog (\<lambda>l. l = [on 0 A_OPEN, on 3000 B_OPEN, off 16000 A_OPEN, off 19000 B_OPEN]),
      Check (\<lambda>g. cover_state (controls g) = CoverOpen)]"

definition closing_starts_leaf_b_first_then_a_after_its_initial_delay :: bool where
  "closing_starts_leaf_b_first_then_a_after_its_initial_delay \<longleftrightarrow> test OPEN OPEN False
     [Call DoClose, NewStep, UntilReady LIMIT (shot CLOSED CLOSED False),
      TakeLog (\<lambda>l. l = [on 0 B_CLOSE, on 3000 A_CLOSE, off 16000 B_CLOSE, off 19000 A_CLOSE]),
      Check (\<lambda>g. cover_state (controls g) = CoverClosed)]"

definition cover_state_reports_movement_including_initial_delay :: bool where
  "cover_state_reports_movement_including_initial_delay \<longleftrightarrow> test OPEN OPEN False
     [NewStep, Call DoClose, RunFor (secs 1), Check (\<lambda>g. cover_state (controls g) = CoverClosing),
      UntilReady LIMIT (\<lambda>_. True), Check (\<lambda>g. cover_state (controls g) = CoverClosed)]"

definition leaf_already_at_its_end_does_not_move :: bool where
  "leaf_already_at_its_end_does_not_move \<longleftrightarrow> test OPEN CLOSED False
     [Call DoOpen, NewStep, UntilReady LIMIT (\<lambda>_. True),
      TakeLog (\<lambda>l. l = [on 3000 B_OPEN, off 19000 B_OPEN])]"

definition impulse_opens_when_closed_and_closes_when_open :: bool where
  "impulse_opens_when_closed_and_closes_when_open \<longleftrightarrow> test CLOSED CLOSED False
     [Call DoImpulse, NewStep, UntilReady LIMIT (shot OPEN OPEN False),
      TakeLog (\<lambda>l. l \<noteq> [] \<and> hd l = on 0 A_OPEN), Call DoImpulse, NewStep,
      UntilReady LIMIT (shot CLOSED CLOSED False),
      TakeLog (\<lambda>l. l \<noteq> [] \<and> hd l = on 20000 B_CLOSE)]"

definition impulse_cycle_close_stop_open :: bool where
  "impulse_cycle_close_stop_open \<longleftrightarrow> test OPEN OPEN False
     [Call DoImpulse, NewStep, RunFor (secs 5), Check (\<lambda>g. cover_state (controls g) = CoverClosing),
      Call DoImpulse, UntilReady IMMEDIATELY (shot (255 - 34) (255 - 85) False),
      TakeLog (\<lambda>l. l = [on 0 B_CLOSE, on 3000 A_CLOSE, off 5000 A_CLOSE, off 5000 B_CLOSE]),
      Check (\<lambda>g. \<not> any_high g), Check (\<lambda>g. cover_state (controls g) = CoverOpen), Call DoImpulse, NewStep,
      UntilReady LIMIT (shot OPEN OPEN False),
      TakeLog (\<lambda>l. l = [on 6000 A_OPEN, on 8000 B_OPEN, off 9000 A_OPEN, off 14000 B_OPEN])]"

definition impulse_after_stopped_opening_closes :: bool where
  "impulse_after_stopped_opening_closes \<longleftrightarrow> test CLOSED CLOSED False
     [Call DoImpulse, NewStep, RunFor (secs 5), Call DoImpulse, UntilReady IMMEDIATELY (\<lambda>_. True),
      TakeLog (\<lambda>l. True), Call DoImpulse, NewStep, RunFor (secs 2),
      Check (\<lambda>g. cover_state (controls g) = CoverClosing), TakeLog (\<lambda>l. l = [on 6000 B_CLOSE])]"

definition opposite_command_stops_then_reverses_after_pause :: bool where
  "opposite_command_stops_then_reverses_after_pause \<longleftrightarrow> test CLOSED CLOSED False
     [Call DoOpen, NewStep, RunFor (secs 5), Call DoClose, UntilReady IMMEDIATELY (shot 85 34 False),
      Check (\<lambda>g. \<not> any_high g), TakeLog (\<lambda>l. True), NewStep, UntilReady LIMIT (\<lambda>_. True),
      TakeLog (\<lambda>l. l = [on 6000 B_CLOSE, on 8000 A_CLOSE, off 9000 B_CLOSE, off 14000 A_CLOSE])]"

definition same_direction_command_does_not_interrupt :: bool where
  "same_direction_command_does_not_interrupt \<longleftrightarrow> test CLOSED CLOSED False
     [Call DoOpen, NewStep, RunFor (secs 5), Call DoOpen, UntilReady LIMIT (\<lambda>_. True),
      TakeLog (\<lambda>l. length l = 4), Check (\<lambda>g. now_ms mhz_clock (dev g) = 19000)]"

definition stop_replaces_a_command_not_yet_picked_up :: bool where
  "stop_replaces_a_command_not_yet_picked_up \<longleftrightarrow> test CLOSED CLOSED False
     [Call DoOpen, Call DoStop, NewStep, UntilReady IMMEDIATELY (\<lambda>_. True), TakeLog (\<lambda>l. l = [])]"

definition light_barrier_1_stops_any_movement_and_blocks_new_ones :: bool where
  "light_barrier_1_stops_any_movement_and_blocks_new_ones \<longleftrightarrow> test CLOSED CLOSED False
     [Call DoOpen, NewStep, RunFor (secs 4), Call (DoBarrier1 True), UntilReady IMMEDIATELY (\<lambda>_. True),
      Check (\<lambda>g. \<not> any_high g), TakeLog (\<lambda>l. True), Call DoOpen, NewStep, UntilReady IMMEDIATELY (\<lambda>_. True),
      Call DoClose, NewStep, UntilReady IMMEDIATELY (\<lambda>_. True), TakeLog (\<lambda>l. l = []), Call (DoBarrier1 False),
      NewStep, RunFor (secs 5), TakeLog (\<lambda>l. l = [])]"

definition light_barrier_1_blocks_command_queued_before_it_broke :: bool where
  "light_barrier_1_blocks_command_queued_before_it_broke \<longleftrightarrow> test CLOSED CLOSED False
     [Call DoOpen, Call (DoBarrier1 True), NewStep, UntilReady IMMEDIATELY (\<lambda>_. True), TakeLog (\<lambda>l. l = [])]"

definition light_barrier_2_stops_closing_only :: bool where
  "light_barrier_2_stops_closing_only \<longleftrightarrow> test CLOSED CLOSED False
     [Call (DoBarrier2 True), Call DoOpen, NewStep, UntilReady LIMIT (shot OPEN OPEN False),
      TakeLog (\<lambda>l. True), Call DoClose, NewStep, UntilReady IMMEDIATELY (\<lambda>_. True), TakeLog (\<lambda>l. l = []),
      Call (DoBarrier2 False), Call DoClose, NewStep, RunFor (secs 4), Call (DoBarrier2 True),
      UntilReady IMMEDIATELY (\<lambda>_. True), Check (\<lambda>g. \<not> any_high g),
      Check (\<lambda>g. cover_state (controls g) = CoverOpen)]"

definition wind_guard_reverses_closing_and_locks_until_reset :: bool where
  "wind_guard_reverses_closing_and_locks_until_reset \<longleftrightarrow> test OPEN OPEN False
     [Call DoClose, NewStep, RunFor (secs 5), Call DoWindTrigger, UntilReady IMMEDIATELY (\<lambda>_. True), NewStep,
      UntilReady LIMIT (shot OPEN OPEN True), TakeLog (\<lambda>l. True), Call DoClose, Call DoImpulse, Call DoStop,
      NewStep, RunFor (secs 5), TakeLog (\<lambda>l. l = []), Call DoResetWindLock, NewStep,
      UntilReady IMMEDIATELY (shot OPEN OPEN False), Call DoClose, NewStep,
      UntilReady LIMIT (shot CLOSED CLOSED False)]"

definition wind_lock_reset_during_forced_open_keeps_opening :: bool where
  "wind_lock_reset_during_forced_open_keeps_opening \<longleftrightarrow> test CLOSED CLOSED False
     [Call DoWindTrigger, NewStep, RunFor (secs 5), Call DoResetWindLock,
      UntilReady LIMIT (shot OPEN OPEN False),
      TakeLog (\<lambda>l. l = [on 0 A_OPEN, on 3000 B_OPEN, off 16000 A_OPEN, off 19000 B_OPEN])]"

definition wind_lock_reset_does_not_stop_closing :: bool where
  "wind_lock_reset_does_not_stop_closing \<longleftrightarrow> test OPEN OPEN False
     [Call DoClose, NewStep, RunFor (secs 5), Call DoResetWindLock,
      UntilReady LIMIT (shot CLOSED CLOSED False),
      TakeLog (\<lambda>l. l = [on 0 B_CLOSE, on 3000 A_CLOSE, off 16000 B_CLOSE, off 19000 A_CLOSE])]"

definition wind_lock_reset_mid_travel_is_announced_right_away :: bool where
  "wind_lock_reset_mid_travel_is_announced_right_away \<longleftrightarrow> test CLOSED CLOSED False
     [Call DoWindTrigger, NewStep, RunFor (secs 5), Check (\<lambda>g. length (notified g) = 2), Call DoResetWindLock,
      RunFor (secs 1), Check (\<lambda>g. length (notified g) = 2 + 1),
      Check (\<lambda>g. cover_state (controls g) = CoverOpening), Check (\<lambda>g. \<not> wind_locked (controls g))]"

definition wind_guard_open_waits_for_light_barrier_1_to_clear :: bool where
  "wind_guard_open_waits_for_light_barrier_1_to_clear \<longleftrightarrow> test CLOSED CLOSED False
     [Call (DoBarrier1 True), Call DoWindTrigger, NewStep, UntilReady IMMEDIATELY (\<lambda>_. True),
      TakeLog (\<lambda>l. l = []), Call (DoBarrier1 False), NewStep, UntilReady LIMIT (shot OPEN OPEN True)]"

definition wind_lock_restored_at_boot_opens_without_a_command :: bool where
  "wind_lock_restored_at_boot_opens_without_a_command \<longleftrightarrow> test CLOSED CLOSED True
     [NewStep, UntilReady LIMIT (shot OPEN OPEN True),
      TakeLog (\<lambda>l. l \<noteq> [] \<and> hd l = on 0 A_OPEN)]"

definition barrier_bypass_ignores_both_barriers_for_one_movement :: bool where
  "barrier_bypass_ignores_both_barriers_for_one_movement \<longleftrightarrow> test OPEN OPEN False
     [Call (DoBarrier1 True), Call (DoBarrier2 True), Call (DoBypass True), Call DoClose, NewStep,
      UntilReady LIMIT (shot CLOSED CLOSED False), TakeLog (\<lambda>l. length l = 4),
      Check (\<lambda>g. \<not> barrier_bypass (controls g)), Call DoOpen, NewStep, UntilReady IMMEDIATELY (\<lambda>_. True),
      TakeLog (\<lambda>l. l = [])]"

definition barrier_bypass_keeps_moving_when_a_barrier_breaks_mid_travel :: bool where
  "barrier_bypass_keeps_moving_when_a_barrier_breaks_mid_travel \<longleftrightarrow> test CLOSED CLOSED False
     [Call (DoBypass True), Call DoOpen, NewStep, RunFor (secs 4), Call (DoBarrier1 True),
      UntilReady LIMIT (shot OPEN OPEN False)]"

definition disarming_barrier_bypass_mid_travel_stops_at_a_broken_barrier :: bool where
  "disarming_barrier_bypass_mid_travel_stops_at_a_broken_barrier \<longleftrightarrow> test CLOSED CLOSED False
     [Call (DoBarrier1 True), Call (DoBypass True), Call DoOpen, NewStep, RunFor (secs 4),
      Call (DoBypass False), UntilReady IMMEDIATELY (\<lambda>_. True), Check (\<lambda>g. \<not> any_high g),
      Check (\<lambda>g. now_ms mhz_clock (dev g) = 4000)]"

definition barrier_bypass_is_kept_when_nothing_moved :: bool where
  "barrier_bypass_is_kept_when_nothing_moved \<longleftrightarrow> test OPEN OPEN False
     [Call (DoBypass True), Call DoOpen, NewStep, UntilReady IMMEDIATELY (\<lambda>_. True), Call DoStop, NewStep,
      UntilReady IMMEDIATELY (\<lambda>_. True), TakeLog (\<lambda>l. l = []), Check (\<lambda>g. barrier_bypass (controls g))]"

definition state_is_announced_at_boot_on_start_and_after_settling :: bool where
  "state_is_announced_at_boot_on_start_and_after_settling \<longleftrightarrow> test CLOSED CLOSED False
     [Check (\<lambda>g. length (notified g) = 1), Call DoOpen, NewStep, RunFor (secs 1),
      Check (\<lambda>g. length (notified g) = 2), UntilReady LIMIT (\<lambda>_. True), Check (\<lambda>g. length (notified g) = 3)]"

section \<open>The tests pass\<close>

lemmas test_defs = run_defs finish_def forward_numeral elapse_gate_def wait_end_def rounds_def STEP_def poll_gate_def
  call_controls_def new_step_def test_gate_def TEST_LEAF_A_def TEST_LEAF_B_def shot_def on_def off_def cover_state_def
  any_high_def is_high_def now_ms_def test_finish mhz_simps

lemma scenarios_1:
  opening_starts_leaf_a_first_then_b_after_its_initial_delay
  closing_starts_leaf_b_first_then_a_after_its_initial_delay
  cover_state_reports_movement_including_initial_delay
  leaf_already_at_its_end_does_not_move
  by (simp_all cong: eval_cong add: test_defs opening_starts_leaf_a_first_then_b_after_its_initial_delay_def
    closing_starts_leaf_b_first_then_a_after_its_initial_delay_def
    cover_state_reports_movement_including_initial_delay_def
    leaf_already_at_its_end_does_not_move_def
    del: mhz_clock_def)

lemma scenarios_2:
  impulse_opens_when_closed_and_closes_when_open
  impulse_cycle_close_stop_open
  impulse_after_stopped_opening_closes
  opposite_command_stops_then_reverses_after_pause
  by (simp_all cong: eval_cong add: test_defs impulse_opens_when_closed_and_closes_when_open_def
    impulse_cycle_close_stop_open_def
    impulse_after_stopped_opening_closes_def
    opposite_command_stops_then_reverses_after_pause_def
    del: mhz_clock_def)

lemma scenarios_3:
  same_direction_command_does_not_interrupt
  stop_replaces_a_command_not_yet_picked_up
  light_barrier_1_stops_any_movement_and_blocks_new_ones
  light_barrier_1_blocks_command_queued_before_it_broke
  by (simp_all cong: eval_cong add: test_defs same_direction_command_does_not_interrupt_def
    stop_replaces_a_command_not_yet_picked_up_def
    light_barrier_1_stops_any_movement_and_blocks_new_ones_def
    light_barrier_1_blocks_command_queued_before_it_broke_def
    del: mhz_clock_def)

lemma scenarios_4:
  light_barrier_2_stops_closing_only
  wind_guard_reverses_closing_and_locks_until_reset
  wind_lock_reset_during_forced_open_keeps_opening
  wind_lock_reset_does_not_stop_closing
  by (simp_all cong: eval_cong add: test_defs light_barrier_2_stops_closing_only_def
    wind_guard_reverses_closing_and_locks_until_reset_def
    wind_lock_reset_during_forced_open_keeps_opening_def
    wind_lock_reset_does_not_stop_closing_def
    del: mhz_clock_def)

lemma scenarios_5:
  wind_lock_reset_mid_travel_is_announced_right_away
  wind_guard_open_waits_for_light_barrier_1_to_clear
  wind_lock_restored_at_boot_opens_without_a_command
  barrier_bypass_ignores_both_barriers_for_one_movement
  by (simp_all cong: eval_cong add: test_defs wind_lock_reset_mid_travel_is_announced_right_away_def
    wind_guard_open_waits_for_light_barrier_1_to_clear_def
    wind_lock_restored_at_boot_opens_without_a_command_def
    barrier_bypass_ignores_both_barriers_for_one_movement_def
    del: mhz_clock_def)

lemma scenarios_6:
  barrier_bypass_keeps_moving_when_a_barrier_breaks_mid_travel
  disarming_barrier_bypass_mid_travel_stops_at_a_broken_barrier
  barrier_bypass_is_kept_when_nothing_moved
  state_is_announced_at_boot_on_start_and_after_settling
  by (simp_all cong: eval_cong add: test_defs barrier_bypass_keeps_moving_when_a_barrier_breaks_mid_travel_def
    disarming_barrier_bypass_mid_travel_stops_at_a_broken_barrier_def
    barrier_bypass_is_kept_when_nothing_moved_def
    state_is_announced_at_boot_on_start_and_after_settling_def
    del: mhz_clock_def)

text \<open>
  The model passes the scenarios of the gate: the exact relay switching sequences
  with their times, the snapshots, the reported states and the announcements.
\<close>

theorem gate_tests_pass:
  "opening_starts_leaf_a_first_then_b_after_its_initial_delay \<and>
   closing_starts_leaf_b_first_then_a_after_its_initial_delay \<and>
   cover_state_reports_movement_including_initial_delay \<and>
   leaf_already_at_its_end_does_not_move \<and>
   impulse_opens_when_closed_and_closes_when_open \<and>
   impulse_cycle_close_stop_open \<and>
   impulse_after_stopped_opening_closes \<and>
   opposite_command_stops_then_reverses_after_pause \<and>
   same_direction_command_does_not_interrupt \<and>
   stop_replaces_a_command_not_yet_picked_up \<and>
   light_barrier_1_stops_any_movement_and_blocks_new_ones \<and>
   light_barrier_1_blocks_command_queued_before_it_broke \<and>
   light_barrier_2_stops_closing_only \<and>
   wind_guard_reverses_closing_and_locks_until_reset \<and>
   wind_lock_reset_during_forced_open_keeps_opening \<and>
   wind_lock_reset_does_not_stop_closing \<and>
   wind_lock_reset_mid_travel_is_announced_right_away \<and>
   wind_guard_open_waits_for_light_barrier_1_to_clear \<and>
   wind_lock_restored_at_boot_opens_without_a_command \<and>
   barrier_bypass_ignores_both_barriers_for_one_movement \<and>
   barrier_bypass_keeps_moving_when_a_barrier_breaks_mid_travel \<and>
   disarming_barrier_bypass_mid_travel_stops_at_a_broken_barrier \<and>
   barrier_bypass_is_kept_when_nothing_moved \<and>
   state_is_announced_at_boot_on_start_and_after_settling"
  by (intro conjI; rule scenarios_1 scenarios_2 scenarios_3 scenarios_4 scenarios_5 scenarios_6)

end
