(* ===== verification/Spec2Isabelle.thy ===== *)
theory Spec2Isabelle
  imports Wiring EndToEnd Networking GateTests
begin

text \<open>
  gate-link: verification of a two-leaf gate controller.

  The program. gate-link is the firmware of a motorised gate with two leaves.
  Each leaf has an open and a close relay and no position sensor: the controller
  estimates positions from run times. Push button, radio remote, light barriers,
  a wind guard and a one-shot barrier bypass are inputs; Home Assistant controls
  the gate and sees its state over MQTT; configuration and gate state are kept
  in flash. All tasks run on one cooperative executor and share one \<open>Controls\<close>
  value, so a task runs without interruption between two of its awaits.

  \<^bold>\<open>How code becomes definitions.\<close> Structs are records, enums are datatypes, each
  method is one definition over an explicit state. An asynchronous task is a
  state machine whose states are its await points. A Rust \<open>Signal\<close> is a slot that
  holds at most one value, a \<open>Channel\<close> a bounded list. Fallible code returns an
  \<open>outcome\<close>: a value, an error or a panic. \<open>u8\<close> and \<open>u16\<close> values are words with
  their wrap-around and saturation written out; the product of the position
  estimate is taken modulo \<open>2 ^ 64\<close>; clock ticks and buffer lengths are natural
  numbers. Atomics are plain fields, because of the single executor.

  \<^bold>\<open>The theories\<close>, in the order of the code.
  \<^item> \<open>Prelude\<close>: words, saturating arithmetic, time units (locale \<open>time_units\<close>), signals
    (locale \<open>signal_slot\<close>), reachability and inductive invariants
    (locale \<open>inductive_invariant\<close>). \<open>Bytes\<close>: outcomes, slices, UTF-8, writers.
  \<^item> \<open>Debounce\<close> (\<open>gate-core/src/debounce.rs\<close>): the sample counter of a button.
  \<^item> \<open>Motor\<close> (\<open>gate-core/src/motor.rs\<close>, \<open>sim.rs\<close>): one leaf with its relays, run times
    and position estimate, on pins that log every switch with its time.
  \<^item> \<open>Controls\<close>, \<open>Gate\<close> (\<open>gate-core/src/gate.rs\<close>): the shared state with all its
    methods, and the controller. \<open>gate_react\<close> is what the task does from one await
    to the next, \<open>gate_step\<close> interleaves it with every input, with the light and
    with the passing of time. \<open>GateSafety\<close> has the invariant of all reachable
    states, \<open>GateFrame\<close> (locale \<open>gate_frame\<close>) what a reaction leaves alone,
    \<open>GateConfig\<close> the configured installation (\<open>physical/gate_config.rs\<close>) and
    concrete runs, \<open>GateProps\<close> the safety properties, \<open>GateLiveness\<close> the progress
    properties.
  \<^item> \<open>WarningLight\<close> (\<open>gate-core/src/warning_light.rs\<close>): the light beside the gate.
  \<^item> \<open>Sim\<close> (\<open>gate-core/src/sim.rs\<close>): the executor of the simulation harness
    (locale \<open>simulation\<close>) and the future of \<open>Gate::step\<close>.
  \<^item> \<open>MqttUtil\<close>, \<open>MqttPacket\<close>, \<open>MqttClient\<close> (\<open>vendor/mqtt-async-embedded/src\<close>): wire
    helpers, packets, and the client over a scripted transport, with cancelled
    and pending operations.
  \<^item> \<open>GateMqtt\<close>, \<open>Discovery\<close>, \<open>AppConfig\<close>, \<open>FlashStore\<close> (\<open>app-core/src\<close>, \<open>src/infra/storage.rs\<close>,
    \<open>src/infra/provisioning_http.rs\<close>): topics and commands, discovery configs, the
    setup form and the two flash records (locale \<open>flash_store\<close>).
  \<^item> \<open>MqttLink\<close> (\<open>src/infra/mqtt_client.rs\<close>, \<open>src/app\<close>): the queues, the connection
    task and the tasks on top. \<open>Inputs\<close> (\<open>src/physical/inputs.rs\<close>): the input
    watchers. \<open>Boot\<close> (\<open>src/bin/main.rs\<close>, \<open>reset_button.rs\<close>): the boot sequence.
  \<^item> \<open>Firmware\<close> (\<open>src/physical/gate.rs\<close>, \<open>src/bin/main.rs\<close>): all tasks together, with the
    persistence of the gate state and the publications. \<open>Wiring\<close> (\<open>src/bin/main.rs\<close>):
    the pins that \<open>main\<close> configures and the tasks that it starts, in order.
  \<^item> \<open>Outbound\<close>: what the client transmits, as the broker reads it. \<open>Broker\<close>: the
    firmware of \<open>Firmware\<close>, the connection task step by step (\<open>conn_step\<close>) and the
    messages the broker retains, with losses of the connection and power cycles
    (\<open>sys_step\<close>), and their invariant. \<open>Recovery\<close>: what the system reaches.
    \<open>EndToEnd\<close>: a command from the wire, and a wind alarm, through the gate to what
    the broker retains.
  \<^item> \<open>Networking\<close> (\<open>src/infra/wifi_sta.rs\<close>, \<open>wifi_ap.rs\<close>, \<open>dhcp_server.rs\<close>,
    \<open>provisioning_http.rs\<close>, \<open>build.rs\<close>): the two loops that retry for ever
    (locale \<open>retry_loop\<close>), the setup network and the setup page as it is served.
  \<^item> \<open>UnitTests\<close>, \<open>GateTests\<close>: the unit tests of the motor and the debouncer and the
    scenarios of the gate (\<open>gate-core/src/gate/tests.rs\<close>, all but the two of the
    warning light), passed by the model. The
    harness there jumps to the next deadline, which is shown to change nothing.

  \<^bold>\<open>What is shown.\<close>
  \<^item> Safety in every schedule: the relays of a leaf are never on together, a relay is
    on only in a permitted direction, a barrier or the wind lock ends a forbidden
    movement at the next poll, the reverse pause is kept, at rest all relays are off.
  \<^item> Progress: the task always comes to rest, an undisturbed movement ends exactly at
    the end position, an engaged wind lock ends with an open gate. \<open>auto_run\<close> counts
    wake-ups; thirty are enough because a measure of the outstanding work, at most
    thirty, falls with every reaction. \<open>uptime_ok\<close> bounds the uptime so that the
    position product stays below \<open>2 ^ 64\<close>.
  \<^item> Composition: the boot starts every task and never panics, the firmware refines the
    site of gate and light, which refines the gate; a command on the wire is carried
    out by both leaves and its result retained by the broker, and so is a wind alarm; the wake-up contracts (locale \<open>wake_discipline\<close>) show that neither the
    gate nor the light misses an input.
  \<^item> Communication: framing and decoding deliver exactly what the broker sent
    however the stream is cut, polls can be dropped, encoders and decoders are
    inverse, a command on the wire reaches the controls, a state message reaches
    the wire, the connection is never silent for too long (one weakness is shown
    as well: a poll dropped in the middle of an acknowledgement leaves half a packet), nothing current is
    dropped from the queue after a reconnect, and the published state is current.
  \<^item> Convergence: what was sent and what is still queued add up to the latest
    publication, so a complete connection with an empty queue has told the broker
    the current state, in every interleaving; and from every reachable state the
    connection can come up again and the broker learns the state without any help
    of the gate. This assumes that the socket takes a packet in full (the weakness
    above is the case where it does not) and that the discovery configs fit into
    the buffer of the client, which a test of the repository checks.
  \<^item> Persistence: the two records are independent, a rest survives a power cycle,
    the reset button needs five seconds, a submitted form leads to station mode.

  \<^bold>\<open>Parameters\<close>, each with the documented behaviour that is assumed and a concrete
  instance: the time driver (\<open>time_ops\<close>, instance \<open>mhz_clock\<close>), the flash map, its
  value encoding and the partition table (\<open>flash_ops\<close>, instance \<open>ram_ops\<close>), JSON
  serialisation (\<open>to_vec\<close>), the task pools of the executor (locale \<open>executor_pool\<close>, instance
  \<open>static_slots\<close>), and address parsing, DNS and TCP (\<open>network\<close>).

  \<^bold>\<open>Loops.\<close> Loops over data are structural or have a termination proof. The loops of
  the executor and of a polled step are partial functions, for which termination
  is proved. The jumps of the scenarios (\<open>forward\<close>) have fuel sixty-two: a poll
  reduces the outstanding work of at most thirty and follows every jump but the
  last. Endless tasks are step relations, or functions of the sequence of what
  happens while they wait.

  \<^bold>\<open>Not modelled.\<close> The inside of the libraries: the radio driver, the network stack
  and its runner (\<open>net_task\<close>), the DHCP server loop, HTTP and form decoding, the
  logger. \<open>SOCKET_TIMEOUT\<close> is a setting of the socket: the loss of a connection is a
  step that can always happen. \<open>StackResources\<close>, buffer sizes of sockets and
  \<open>idle_forever\<close> have no effect on the state. A failed flash write is an error of
  which nothing else is assumed. The clocks of the connection and of the gate are
  not related to each other.
\<close>

end
